(* ===== verification/Prelude.thy ===== *)
theory Prelude
  imports Main "HOL-Library.Word" "HOL-Library.Monad_Syntax"
begin

text \<open>
  Shared vocabulary of the development.

  The virtual machine is a 64-bit program: \<^verbatim>\<open>size_t\<close>, \<^verbatim>\<open>uint64_t\<close> and
  every pointer are \<open>u64\<close>, a 64-bit word whose arithmetic wraps around as in C++.
  An operation that touches memory returns an \<open>option\<close>: \<open>None\<close> is an execution that
  does not reach a defined result (a read or write through a pointer that designates no
  object, an index outside its array, or a loop that never ends). A theorem that an
  operation is \<open>Some\<close> is therefore always also a theorem that it does none of these.
\<close>

unbundle bit_operations_syntax

type_synonym u8 = "8 word"
type_synonym u32 = "32 word"
type_synonym u64 = "64 word"
type_synonym addr = u64

abbreviation nullptr :: addr where
  "nullptr \<equiv> 0"

abbreviation SIZE_MAX :: u64 where
  "SIZE_MAX \<equiv> - 1"

named_theorems heap_simps "evaluation of the heap operations"
named_theorems rc_intros "preservation of the reference-count invariant"
named_theorems parse_simps "evaluation of the parser"

subsection \<open>Options\<close>

lemma bind_Some_iff: "Option.bind x f = Some r \<longleftrightarrow> (\<exists>a. x = Some a \<and> f a = Some r)"
  by (cases x) auto

lemma bind_None_iff: "Option.bind x f = None \<longleftrightarrow> x = None \<or> (\<exists>a. x = Some a \<and> f a = None)"
  by (cases x) auto

text \<open>Array access: an index outside the array is undefined behaviour.\<close>

definition at :: "'a list \<Rightarrow> nat \<Rightarrow> 'a option" where
  "at xs i = (if i < length xs then Some (xs ! i) else None)"

definition put :: "'a list \<Rightarrow> nat \<Rightarrow> 'a \<Rightarrow> 'a list option" where
  "put xs i v = (if i < length xs then Some (xs[i := v]) else None)"

lemma at_Some_iff: "at xs i = Some v \<longleftrightarrow> i < length xs \<and> xs ! i = v"
  by (simp add: at_def)

lemma at_in_set: "at xs i = Some v \<Longrightarrow> v \<in> set xs"
  by (auto simp: at_Some_iff)

lemma put_Some_iff: "put xs i v = Some ys \<longleftrightarrow> i < length xs \<and> ys = xs[i := v]"
  by (auto simp: put_def)

lemma at_put: "put xs i v = Some ys \<Longrightarrow> at ys j = (if j = i then Some v else at xs j)"
  by (auto simp: put_Some_iff at_def)

lemma length_put: "put xs i v = Some ys \<Longrightarrow> length ys = length xs"
  by (auto simp: put_Some_iff)

subsection \<open>Words\<close>

lemma unat_add_no_wrap:
  fixes a b :: "'a::len word"
  assumes "unat a + unat b < 2 ^ LENGTH('a)"
  shows "unat (a + b) = unat a + unat b"
  using assms by (simp add: unat_word_ariths)

lemma unat_of_nat_id:
  assumes "n < 2 ^ LENGTH('a)"
  shows "unat (of_nat n :: 'a::len word) = n"
  using assms by (simp add: unat_of_nat)

lemma unat_inc:
  fixes a :: "'a::len word"
  assumes "unat a + 1 < 2 ^ LENGTH('a)"
  shows "unat (a + 1) = unat a + 1"
  using assms by (simp add: unat_word_ariths)

lemma unat_dec:
  fixes a :: "'a::len word"
  assumes "0 < unat a"
  shows "unat (a - 1) = unat a - 1"
  using assms by (metis One_nat_def unat_gt_0 unat_minus_one)

subsection \<open>Counting occurrences\<close>

lemma count_list_update:
  assumes "i < length xs"
  shows "count_list (xs[i := v]) x + (if xs ! i = x then 1 else 0)
       = count_list xs x + (if v = x then 1 else 0)"
  using assms
proof (induction xs arbitrary: i)
  case Nil
  then show ?case by simp
next
  case (Cons y ys)
  show ?case
  proof (cases i)
    case 0
    then show ?thesis by simp
  next
    case (Suc j)
    then show ?thesis using Cons.IH [of j] Cons.prems by (auto split: if_splits)
  qed
qed

section \<open>Systems with an invariant\<close>

text \<open>
  A step relation with an invariant: what holds initially and is kept by every step holds in
  every reachable state. The locks and the machine are instances.
\<close>

locale invariant_system =
  fixes init :: "'s \<Rightarrow> bool" and step :: "'s \<Rightarrow> 's \<Rightarrow> bool" and inv :: "'s \<Rightarrow> bool"
  assumes init_inv: "init s \<Longrightarrow> inv s"
    and step_inv: "inv s \<Longrightarrow> step s s' \<Longrightarrow> inv s'"
begin

lemma reachable_inv:
  assumes "step\<^sup>*\<^sup>* s s'" "init s"
  shows "inv s'"
  using assms by (induction rule: rtranclp_induct) (auto intro: init_inv step_inv)

end

text \<open>A system in which at most one thread holds a resource.\<close>

locale exclusive_system = invariant_system init step inv
  for init :: "'s \<Rightarrow> bool" and step :: "'s \<Rightarrow> 's \<Rightarrow> bool" and inv :: "'s \<Rightarrow> bool" +
  fixes holds :: "'s \<Rightarrow> nat \<Rightarrow> bool"
  assumes exclusive: "inv s \<Longrightarrow> holds s t \<Longrightarrow> holds s u \<Longrightarrow> t = u"
begin

lemma reachable_exclusive:
  assumes "step\<^sup>*\<^sup>* s s'" "init s" "holds s' t" "holds s' u"
  shows "t = u"
  using exclusive [OF reachable_inv [OF assms(1,2)] assms(3,4)] .

end

end
