(* ===== verification/BitSet.thy ===== *)
theory BitSet
  imports Prelude
begin

text \<open>
  The flag arrays of \<^verbatim>\<open>src/vm/modules/util/BitSet.h\<close>, which record which fields of a
  class hold object references. A bit set is the array of bytes the code allocates; an index
  outside that array is undefined behaviour (\<open>None\<close>).
\<close>

section \<open>The operations\<close>

definition create_bitset :: "nat \<Rightarrow> u8 list" where
  "create_bitset length' = replicate (drop_bit 3 length' + 1) 0"

definition get_flag :: "u8 list \<Rightarrow> nat \<Rightarrow> bool option" where
  "get_flag bytes index =
     (let byte_index = drop_bit 3 index;
          mask = (push_bit (index AND 7) 1 :: u8)
      in do { b \<leftarrow> at bytes byte_index; Some (b AND mask \<noteq> 0) })"

definition set_flag :: "u8 list \<Rightarrow> nat \<Rightarrow> bool \<Rightarrow> u8 list option" where
  "set_flag bytes index value =
     (let byte_index = drop_bit 3 index
      in do { b \<leftarrow> at bytes byte_index;
              put bytes byte_index (b OR push_bit (index AND 7) (of_bool value)) })"

text \<open>
  The marking loop that \<^verbatim>\<open>CatVM::load_module\<close> runs over a bit set, with the store
  operation it calls as a parameter.
\<close>

fun mark_flags :: "('b \<Rightarrow> nat \<Rightarrow> bool \<Rightarrow> 'b option) \<Rightarrow> (nat \<Rightarrow> bool) \<Rightarrow> nat list \<Rightarrow> 'b \<Rightarrow> 'b option" where
  "mark_flags st P [] b = Some b"
| "mark_flags st P (i # is) b =
     (if P i then do { b' \<leftarrow> st b i True; mark_flags st P is b' } else mark_flags st P is b)"

section \<open>The contract of a flag store\<close>

locale flag_store =
  fixes create :: "nat \<Rightarrow> 'b"
    and lookup :: "'b \<Rightarrow> nat \<Rightarrow> bool option"
    and store :: "'b \<Rightarrow> nat \<Rightarrow> bool \<Rightarrow> 'b option"
  assumes lookup_create: "i < n \<Longrightarrow> lookup (create n) i = Some False"
    and store_defined: "lookup b i = Some v \<Longrightarrow> \<exists>b'. store b i w = Some b'"
    and lookup_store: "store b i w = Some b' \<Longrightarrow>
      lookup b' j = (if j = i then map_option (\<lambda>v. v \<or> w) (lookup b i) else lookup b j)"
begin

lemma mark_flags_lookup:
  assumes "\<forall>i \<in> set is. lookup b i \<noteq> None"
  shows "\<exists>b'. mark_flags store P is b = Some b' \<and>
    (\<forall>j. lookup b' j = (if j \<in> set is \<and> P j then Some True else lookup b j))"
  using assms
proof (induction "is" arbitrary: b)
  case Nil
  then show ?case by simp
next
  case (Cons i "is")
  show ?case
  proof (cases "P i")
    case True
    from Cons.prems obtain v where v: "lookup b i = Some v" by auto
    then obtain b1 where b1: "store b i True = Some b1" using store_defined by blast
    have l1: "lookup b1 j = (if j = i then Some True else lookup b j)" for j
      using lookup_store [OF b1] v by simp
    then have "\<forall>k \<in> set is. lookup b1 k \<noteq> None" using Cons.prems by auto
    from Cons.IH [OF this] show ?thesis using True b1 l1 by (fastforce split: if_splits)
  next
    case False
    then show ?thesis using Cons by (fastforce split: if_splits)
  qed
qed

lemma mark_all_flags:
  "\<exists>b'. mark_flags store P [0..<n] (create n) = Some b' \<and> (\<forall>j < n. lookup b' j = Some (P j))"
proof -
  have "\<forall>i \<in> set [0..<n]. lookup (create n) i \<noteq> None"
    by (simp add: lookup_create)
  from mark_flags_lookup [OF this, of P] show ?thesis
    by (auto simp: lookup_create)
qed

end

section \<open>The byte array implements it\<close>

lemma byte_flag: "((b :: u8) AND 2 ^ k \<noteq> 0) = bit b k"
  by (simp add: and_exp_eq_0_iff_not_bit)

lemma low_bits: "(i :: nat) AND 7 = i mod 8"
  using take_bit_eq_mask [of 3 i] by (simp add: take_bit_eq_mod mask_eq_exp_minus_1)

lemma byte_offset: "drop_bit 3 (i :: nat) = i div 8"
  by (simp add: drop_bit_eq_div)

lemma get_flag_bit: "get_flag bytes i = map_option (\<lambda>b. bit b (i mod 8)) (at bytes (i div 8))"
  by (cases "at bytes (i div 8)") (simp_all add: get_flag_def low_bits byte_offset byte_flag)

lemma set_flag_bit:
  "set_flag bytes i w =
     do { b \<leftarrow> at bytes (i div 8); put bytes (i div 8) (b OR push_bit (i mod 8) (of_bool w)) }"
  by (simp add: set_flag_def low_bits byte_offset Let_def)

lemma set_flag_mask:
  "k < 8 \<Longrightarrow> m < 8 \<Longrightarrow>
     bit ((b :: u8) OR push_bit m (of_bool w)) k \<longleftrightarrow> bit b k \<or> (w \<and> k = m)"
  by (auto simp: bit_or_iff bit_exp_iff)

lemma get_flag_create: "i < n \<Longrightarrow> get_flag (create_bitset n) i = Some False"
  by (simp add: get_flag_bit create_bitset_def at_def byte_offset div_le_mono less_Suc_eq_le
      nth_Cons' flip: replicate_Suc)

lemma set_flag_defined: "get_flag bytes i = Some v \<Longrightarrow> \<exists>b'. set_flag bytes i w = Some b'"
  by (auto simp: get_flag_bit set_flag_bit at_def put_def split: if_splits)

lemma same_flag: "i div 8 = j div 8 \<Longrightarrow> i mod 8 = j mod 8 \<longleftrightarrow> i = (j :: nat)"
  by (metis div_mult_mod_eq)

lemma get_flag_set:
  assumes "set_flag bytes i w = Some bytes'"
  shows "get_flag bytes' j =
    (if j = i then map_option (\<lambda>v. v \<or> w) (get_flag bytes i) else get_flag bytes j)"
proof -
  from assms obtain b where b: "at bytes (i div 8) = Some b"
    and p: "put bytes (i div 8) (b OR push_bit (i mod 8) (of_bool w)) = Some bytes'"
    by (auto simp: set_flag_bit bind_Some_iff)
  show ?thesis
  proof (cases "j div 8 = i div 8")
    case True
    then show ?thesis
      using b at_put [OF p, of "j div 8"] same_flag [OF True]
      by (auto simp: get_flag_bit set_flag_mask)
  next
    case False
    then show ?thesis
      using at_put [OF p, of "j div 8"] by (auto simp: get_flag_bit)
  qed
qed

interpretation bits: flag_store create_bitset get_flag set_flag
  by unfold_locales (simp_all add: get_flag_create set_flag_defined get_flag_set)

section \<open>Properties\<close>

text \<open>
  Marking the fields of a class: running the marking loop over a fresh bit set of
  \<open>n\<close> flags never leaves the allocated bytes, and afterwards every flag below \<open>n\<close> tells
  exactly whether its index was selected.
\<close>

lemma mark_flags_exact:
  "\<exists>bytes. mark_flags set_flag P [0..<n] (create_bitset n) = Some bytes \<and>
     (\<forall>j < n. get_flag bytes j = Some (P j))"
  by (rule bits.mark_all_flags)

end
