(* ===== verification/Concurrent.thy ===== *)
theory Concurrent
  imports Prelude
begin

text \<open>
  The locks of \<^verbatim>\<open>src/util/Concurrent.h\<close>, run by any number of threads. A step of the
  system is one access to the shared word by one thread; a thread is at one of the points of the
  code between two accesses. Loads, stores and read-modify-write operations on the word are
  atomic and, as the locks are the only shared word, take place in one order.
\<close>

section \<open>\<open>SpinLock\<close>\<close>

datatype spin_point = Outside | Locking | Inside

record spin_state =
  flag :: bool
  spin_at :: "nat \<Rightarrow> spin_point"

definition test_and_set :: "bool \<Rightarrow> bool \<times> bool" where
  "test_and_set b = (b, True)"

inductive spin_step :: "spin_state \<Rightarrow> spin_state \<Rightarrow> bool" where
  lock_call: "spin_at s t = Outside \<Longrightarrow> spin_step s (s\<lparr>spin_at := (spin_at s)(t := Locking)\<rparr>)"
| lock_loop: "spin_at s t = Locking \<Longrightarrow> test_and_set (flag s) = (True, b) \<Longrightarrow> spin_step s (s\<lparr>flag := b\<rparr>)"
| lock_done: "spin_at s t = Locking \<Longrightarrow> test_and_set (flag s) = (False, b) \<Longrightarrow>
    spin_step s (s\<lparr>flag := b, spin_at := (spin_at s)(t := Inside)\<rparr>)"
| unlock: "spin_at s t = Inside \<Longrightarrow> spin_step s (s\<lparr>flag := False, spin_at := (spin_at s)(t := Outside)\<rparr>)"

definition spin_init :: "spin_state \<Rightarrow> bool" where
  "spin_init s \<longleftrightarrow> \<not> flag s \<and> (\<forall>t. spin_at s t = Outside)"

definition insiders :: "spin_state \<Rightarrow> nat set" where
  "insiders s = {t. spin_at s t = Inside}"

definition spin_inv :: "spin_state \<Rightarrow> bool" where
  "spin_inv s \<longleftrightarrow> (if flag s then \<exists>t. insiders s = {t} else insiders s = {})"

lemma insiders_flag [simp]: "insiders (s\<lparr>flag := b\<rparr>) = insiders s"
  by (simp add: insiders_def)

lemma insiders_goto [simp]:
  "insiders (s\<lparr>spin_at := (spin_at s)(t := p)\<rparr>) = (if p = Inside then insert t (insiders s) else insiders s - {t})"
  by (auto simp: insiders_def)

lemma insidersD: "spin_at s t = Inside \<Longrightarrow> t \<in> insiders s" "spin_at s t \<noteq> Inside \<Longrightarrow> t \<notin> insiders s"
  by (simp_all add: insiders_def)

lemma spin_step_inv:
  assumes "spin_inv s" "spin_step s s'"
  shows "spin_inv s'"
  using assms(2)
proof cases
  case (lock_call t)
  then have "t \<notin> insiders s" by (simp add: insiders_def)
  then show ?thesis using assms(1) lock_call(1) by (auto simp: spin_inv_def)
next
  case (lock_loop t b)
  then show ?thesis using assms(1) by (auto simp: spin_inv_def test_and_set_def)
next
  case (lock_done t b)
  have "insiders (s\<lparr>flag := b, spin_at := (spin_at s)(t := Inside)\<rparr>) = insert t (insiders s)"
    by (auto simp: insiders_def)
  then show ?thesis using assms(1) lock_done by (auto simp: spin_inv_def test_and_set_def)
next
  case (unlock t)
  have "insiders (s\<lparr>flag := False, spin_at := (spin_at s)(t := Outside)\<rparr>) = insiders s - {t}"
    by (auto simp: insiders_def)
  moreover have "t \<in> insiders s" using unlock by (simp add: insiders_def)
  ultimately show ?thesis using assms(1) unlock(1) by (auto simp: spin_inv_def split: if_splits)
qed

interpretation spin: exclusive_system spin_init spin_step spin_inv "\<lambda>s t. t \<in> insiders s"
proof unfold_locales
  show "spin_inv s" if "spin_init s" for s using that by (simp add: spin_init_def spin_inv_def insiders_def)
  show "spin_inv s'" if "spin_inv s" "spin_step s s'" for s s' using that by (rule spin_step_inv)
  show "t = u" if "spin_inv s" "t \<in> insiders s" "u \<in> insiders s" for s t u
    using that by (auto simp: spin_inv_def split: if_splits)
qed

section \<open>\<open>RWLock\<close>\<close>

text \<open>
  \<open>Read_cas c\<close> and \<open>Write_cas c\<close>: the thread has loaded \<open>count_temp = c\<close> and is about to
  exchange. A weak exchange may fail although the word has the expected value.
\<close>

datatype rw_point = Idle | Read_load | Read_cas u64 | Reading | Write_load | Write_cas u64 | Writing

record rw_state =
  rw_count :: u64
  rw_at :: "nat \<Rightarrow> rw_point"

abbreviation goto :: "rw_state \<Rightarrow> nat \<Rightarrow> rw_point \<Rightarrow> rw_state" where
  "goto s t p \<equiv> s\<lparr>rw_at := (rw_at s)(t := p)\<rparr>"

inductive rw_step :: "nat \<Rightarrow> rw_state \<Rightarrow> rw_state \<Rightarrow> bool" for n where
  read_lock: "t < n \<Longrightarrow> rw_at s t = Idle \<Longrightarrow> rw_step n s (goto s t Read_load)"
| read_load: "t < n \<Longrightarrow> rw_at s t = Read_load \<Longrightarrow>
    rw_step n s (if rw_count s = 0 then s else goto s t (Read_cas (rw_count s)))"
| read_cas: "t < n \<Longrightarrow> rw_at s t = Read_cas c \<Longrightarrow> rw_count s = c \<Longrightarrow>
    rw_step n s (goto (s\<lparr>rw_count := c + 1\<rparr>) t Reading)"
| read_retry: "t < n \<Longrightarrow> rw_at s t = Read_cas c \<Longrightarrow> rw_step n s (goto s t Read_load)"
| read_unlock: "t < n \<Longrightarrow> rw_at s t = Reading \<Longrightarrow> rw_step n s (goto (s\<lparr>rw_count := rw_count s - 1\<rparr>) t Idle)"
| write_lock: "t < n \<Longrightarrow> rw_at s t = Idle \<Longrightarrow> rw_step n s (goto s t Write_load)"
| write_load: "t < n \<Longrightarrow> rw_at s t = Write_load \<Longrightarrow>
    rw_step n s (if rw_count s \<noteq> 1 then s else goto s t (Write_cas (rw_count s)))"
| write_cas: "t < n \<Longrightarrow> rw_at s t = Write_cas c \<Longrightarrow> rw_count s = c \<Longrightarrow>
    rw_step n s (goto (s\<lparr>rw_count := 0\<rparr>) t Writing)"
| write_retry: "t < n \<Longrightarrow> rw_at s t = Write_cas c \<Longrightarrow> rw_step n s (goto s t Write_load)"
| write_unlock: "t < n \<Longrightarrow> rw_at s t = Writing \<Longrightarrow> rw_step n s (goto (s\<lparr>rw_count := rw_count s + 1\<rparr>) t Idle)"

definition rw_init :: "rw_state \<Rightarrow> bool" where
  "rw_init s \<longleftrightarrow> rw_count s = 1 \<and> (\<forall>t. rw_at s t = Idle)"

definition readers :: "rw_state \<Rightarrow> nat set" where
  "readers s = {t. rw_at s t = Reading}"

definition writers :: "rw_state \<Rightarrow> nat set" where
  "writers s = {t. rw_at s t = Writing}"

text \<open>
  The word is 0 while a thread writes and otherwise one more than the number of readers, with
  fewer threads than the word can count.
\<close>

definition rw_inv :: "nat \<Rightarrow> rw_state \<Rightarrow> bool" where
  "rw_inv n s \<longleftrightarrow> n < 2 ^ 64 - 1 \<and> readers s \<subseteq> {..<n} \<and>
     (if writers s = {} then unat (rw_count s) = 1 + card (readers s)
      else rw_count s = 0 \<and> readers s = {} \<and> (\<exists>t. writers s = {t})) \<and>
     (\<forall>t c. rw_at s t = Read_cas c \<longrightarrow> c \<noteq> 0) \<and> (\<forall>t c. rw_at s t = Write_cas c \<longrightarrow> c = 1)"

lemma readers_goto [simp]:
  "readers (goto s t p) = (if p = Reading then insert t (readers s) else readers s - {t})"
  by (auto simp: readers_def)

lemma writers_goto [simp]:
  "writers (goto s t p) = (if p = Writing then insert t (writers s) else writers s - {t})"
  by (auto simp: writers_def)

lemma move_goto [simp]:
  "readers (s\<lparr>rw_count := c, rw_at := (rw_at s)(t := p)\<rparr>) = (if p = Reading then insert t (readers s) else readers s - {t})"
  "writers (s\<lparr>rw_count := c, rw_at := (rw_at s)(t := p)\<rparr>) = (if p = Writing then insert t (writers s) else writers s - {t})"
  by (auto simp: readers_def writers_def)

lemma rw_count_upd [simp]: "readers (s\<lparr>rw_count := c\<rparr>) = readers s" "writers (s\<lparr>rw_count := c\<rparr>) = writers s"
  by (simp_all add: readers_def writers_def)

lemma goto_idle:
  assumes "rw_inv n s" "rw_at s t \<noteq> Reading" "rw_at s t \<noteq> Writing" "p \<noteq> Reading" "p \<noteq> Writing"
    "\<forall>c. p = Read_cas c \<longrightarrow> c \<noteq> 0" "\<forall>c. p = Write_cas c \<longrightarrow> c = 1"
  shows "rw_inv n (goto s t p)"
proof -
  have "t \<notin> readers s" "t \<notin> writers s" using assms(2,3) by (simp_all add: readers_def writers_def)
  then have "readers (goto s t p) = readers s" "writers (goto s t p) = writers s" using assms(4,5) by auto
  moreover have "rw_at (goto s t p) u = Read_cas c \<Longrightarrow> c \<noteq> 0" "rw_at (goto s t p) u = Write_cas c \<Longrightarrow> c = 1" for u c
    using assms(1,6,7) by (auto simp: rw_inv_def split: if_splits)
  ultimately show ?thesis using assms(1) unfolding rw_inv_def by auto
qed

lemma rw_cas_points:
  assumes "rw_inv n s" "\<forall>c. p \<noteq> Read_cas c \<and> p \<noteq> Write_cas c"
  shows "\<forall>u c. rw_at (goto s t p) u = Read_cas c \<longrightarrow> c \<noteq> 0" "\<forall>u c. rw_at (goto s t p) u = Write_cas c \<longrightarrow> c = 1"
  using assms by (auto simp: rw_inv_def)

lemma rw_inv_readers:
  assumes "rw_inv n s"
  shows "finite (readers s)" "card (readers s) \<le> n"
  using assms finite_subset [of "readers s" "{..<n}"] card_mono [of "{..<n}" "readers s"] by (auto simp: rw_inv_def)

lemma rw_enter_read:
  assumes inv: "rw_inv n s" and t: "t < n" "rw_at s t = Read_cas c" "rw_count s = c"
  shows "rw_inv n (goto (s\<lparr>rw_count := c + 1\<rparr>) t Reading)"
proof -
  have c: "c \<noteq> 0" using inv t(2) by (auto simp: rw_inv_def)
  then have w: "writers s = {}" "unat c = 1 + card (readers s)" using inv t(3) by (auto simp: rw_inv_def split: if_splits)
  have tr: "t \<notin> readers s" using t(2) by (simp add: readers_def)
  note fin = rw_inv_readers [OF inv]
  have "n < 2 ^ 64 - 1" using inv by (simp add: rw_inv_def)
  moreover have "card (insert t (readers s)) \<le> n"
    using card_mono [of "{..<n}" "insert t (readers s)"] inv t(1) by (auto simp: rw_inv_def)
  ultimately have "unat (c + 1) = unat c + 1" using w(2) tr fin(1) by (intro unat_inc) simp
  then show ?thesis
    using inv w tr fin(1) t(1) rw_cas_points [OF inv, of Reading t] by (auto simp: rw_inv_def)
qed

lemma rw_step_inv:
  assumes "rw_inv n s" "rw_step n s s'"
  shows "rw_inv n s'"
  using assms(2)
proof cases
  case (read_cas t c)
  then show ?thesis using rw_enter_read [OF assms(1)] by simp
next
  case (read_unlock t)
  have tr: "t \<in> readers s" using read_unlock by (simp add: readers_def)
  then have w: "writers s = {}" "unat (rw_count s) = 1 + card (readers s)"
    using assms(1) by (auto simp: rw_inv_def split: if_splits)
  have "card (readers s - {t}) + 1 = card (readers s)"
    using tr rw_inv_readers(1) [OF assms(1)] card_Suc_Diff1 by fastforce
  moreover have "unat (rw_count s - 1) = unat (rw_count s) - 1" using w(2) by (intro unat_dec) simp
  ultimately show ?thesis
    using assms(1) read_unlock(1) w rw_cas_points [OF assms(1), of Idle t] by (auto simp: rw_inv_def)
next
  case (write_cas t c)
  have c: "c = 1" using assms(1) write_cas by (auto simp: rw_inv_def)
  then have w: "writers s = {}" "card (readers s) = 0" using assms(1) write_cas(4) by (auto simp: rw_inv_def split: if_splits)
  then have "readers s = {}" using rw_inv_readers(1) [OF assms(1)] by simp
  then show ?thesis
    using assms(1) write_cas(1) w rw_cas_points [OF assms(1), of Writing t] by (auto simp: rw_inv_def)
next
  case (write_unlock t)
  have "t \<in> writers s" using write_unlock by (simp add: writers_def)
  then have "writers s = {t}" "rw_count s = 0" "readers s = {}" using assms(1) by (auto simp: rw_inv_def split: if_splits)
  then show ?thesis
    using assms(1) write_unlock(1) rw_cas_points [OF assms(1), of Idle t] by (auto simp: rw_inv_def)
next
  case (read_lock t)
  then show ?thesis using assms(1) by (simp add: goto_idle)
next
  case (read_load t)
  then show ?thesis using assms(1) by (simp add: goto_idle)
next
  case (read_retry t c)
  then show ?thesis using assms(1) by (simp add: goto_idle)
next
  case (write_lock t)
  then show ?thesis using assms(1) by (simp add: goto_idle)
next
  case (write_load t)
  then show ?thesis using assms(1) by (simp add: goto_idle)
next
  case (write_retry t c)
  then show ?thesis using assms(1) by (simp add: goto_idle)
qed

interpretation rw: exclusive_system "\<lambda>s. rw_init s \<and> n < 2 ^ 64 - 1" "rw_step n" "rw_inv n" "\<lambda>s t. t \<in> writers s"
  for n
proof unfold_locales
  show "rw_inv n s" if "rw_init s \<and> n < 2 ^ 64 - 1" for s
    using that by (simp add: rw_init_def rw_inv_def readers_def writers_def)
  show "rw_inv n s'" if "rw_inv n s" "rw_step n s s'" for s s' using that by (rule rw_step_inv)
  show "t = u" if "rw_inv n s" "t \<in> writers s" "u \<in> writers s" for s t u
    using that by (auto simp: rw_inv_def split: if_splits)
qed

section \<open>What a readers-writer lock promises\<close>

inductive rw_spec :: "nat set \<times> nat set \<Rightarrow> nat set \<times> nat set \<Rightarrow> bool" where
  acquire_read: "t \<notin> R \<Longrightarrow> rw_spec (R, {}) (insert t R, {})"
| release_read: "t \<in> R \<Longrightarrow> rw_spec (R, {}) (R - {t}, {})"
| acquire_write: "rw_spec ({}, {}) ({}, {t})"
| release_write: "rw_spec ({}, {t}) ({}, {})"

definition rw_abs :: "rw_state \<Rightarrow> nat set \<times> nat set" where
  "rw_abs s = (readers s, writers s)"

lemma rw_abs_goto:
  "rw_at s t \<noteq> Reading \<Longrightarrow> rw_at s t \<noteq> Writing \<Longrightarrow> p \<noteq> Reading \<Longrightarrow> p \<noteq> Writing \<Longrightarrow> rw_abs (goto s t p) = rw_abs s"
  by (auto simp: rw_abs_def readers_def writers_def)

lemma rw_step_spec:
  assumes "rw_inv n s" "rw_step n s s'"
  shows "rw_abs s' = rw_abs s \<or> rw_spec (rw_abs s) (rw_abs s')"
  using assms(2)
proof cases
  case (read_cas t c)
  then have "c \<noteq> 0" "t \<notin> readers s" using assms(1) by (auto simp: rw_inv_def readers_def)
  then have "writers s = {}" using assms(1) read_cas(4) by (auto simp: rw_inv_def split: if_splits)
  then show ?thesis using read_cas(1) \<open>t \<notin> readers s\<close> rw_spec.acquire_read [of t "readers s"] by (simp add: rw_abs_def)
next
  case (read_unlock t)
  then have tr: "t \<in> readers s" by (simp add: readers_def)
  then have "writers s = {}" using assms(1) by (auto simp: rw_inv_def split: if_splits)
  then show ?thesis using read_unlock(1) rw_spec.release_read [OF tr] by (simp add: rw_abs_def)
next
  case (write_cas t c)
  have "c = 1" using assms(1) write_cas by (auto simp: rw_inv_def)
  then have "writers s = {}" "card (readers s) = 0" using assms(1) write_cas(4) by (auto simp: rw_inv_def split: if_splits)
  then have "readers s = {}" "writers s = {}" using rw_inv_readers(1) [OF assms(1)] by simp_all
  then show ?thesis using write_cas(1) rw_spec.acquire_write [of t] by (simp add: rw_abs_def)
next
  case (write_unlock t)
  then have "t \<in> writers s" by (simp add: writers_def)
  then have "writers s = {t}" "readers s = {}" using assms(1) by (auto simp: rw_inv_def split: if_splits)
  then show ?thesis using write_unlock(1) rw_spec.release_write [of t] by (simp add: rw_abs_def)
qed (auto simp: rw_abs_goto)

section \<open>Properties\<close>

text \<open>
  C27. The spin lock gives mutual exclusion: however the threads interleave, at most one of them
  is between \<^verbatim>\<open>lock()\<close> and \<^verbatim>\<open>unlock()\<close>, and the flag tells whether one is.
\<close>

theorem SpinLock_exclusive:
  assumes "spin_init s" "spin_step\<^sup>*\<^sup>* s s'"
  shows "(spin_at s' t = Inside \<and> spin_at s' u = Inside \<longrightarrow> t = u) \<and> (flag s' \<longleftrightarrow> (\<exists>t. spin_at s' t = Inside))"
proof -
  have "spin_inv s'" using spin.reachable_inv [OF assms(2,1)] .
  then show ?thesis
    using spin.reachable_exclusive [OF assms(2,1), of t u] by (auto simp: spin_inv_def insiders_def split: if_splits)
qed

theorem SpinLock_exclusive_witness:
  "\<exists>s s'. spin_init s \<and> spin_step\<^sup>*\<^sup>* s s' \<and> spin_at s' 4 = Inside \<and> flag s' \<and> (\<forall>u. spin_at s' u = Inside \<longrightarrow> 4 = u)"
proof -
  let ?s = "\<lparr>flag = False, spin_at = (\<lambda>_. Outside)\<rparr>"
  let ?s1 = "?s\<lparr>spin_at := (spin_at ?s)(4 := Locking)\<rparr>"
  let ?s2 = "?s1\<lparr>flag := True, spin_at := (spin_at ?s1)(4 := Inside)\<rparr>"
  have "spin_step ?s ?s1" by (rule lock_call) simp
  moreover have "spin_step ?s1 ?s2" by (rule lock_done) (simp_all add: test_and_set_def)
  ultimately have reach: "spin_step\<^sup>*\<^sup>* ?s ?s2" by (meson rtranclp.rtrancl_into_rtrancl rtranclp.rtrancl_refl)
  have init: "spin_init ?s" by (simp add: spin_init_def)
  have w: "spin_at ?s2 4 = Inside" "flag ?s2" by simp_all
  have "4 = u" if "spin_at ?s2 u = Inside" for u
    using SpinLock_exclusive [OF init reach, of 4 u] w(1) that by blast
  then show ?thesis using init reach w by blast
qed

text \<open>
  C15. The readers-writer lock refines its specification: every step of every interleaving of
  fewer than \<open>2 ^ 64 - 1\<close> threads either leaves the readers and the writer as they are or is a
  step of the specification, in which a reader enters only without a writer and a writer only
  without anyone inside. So writers exclude each other and the readers, and the word never
  overflows: it is 0 with a writer inside and one more than the number of readers otherwise.
\<close>

theorem RWLock_refines_spec:
  assumes "rw_init s0" "n < 2 ^ 64 - 1" "(rw_step n)\<^sup>*\<^sup>* s0 s"
  shows "(\<forall>s'. rw_step n s s' \<longrightarrow> rw_abs s' = rw_abs s \<or> rw_spec (rw_abs s) (rw_abs s')) \<and>
    (t \<in> writers s \<longrightarrow> writers s = {t} \<and> readers s = {} \<and> rw_count s = 0) \<and>
    (writers s = {} \<longrightarrow> unat (rw_count s) = 1 + card (readers s))"
proof -
  have inv: "rw_inv n s" using rw.reachable_inv [OF assms(3)] assms(1,2) by simp
  then show ?thesis using rw_step_spec [OF inv] by (auto simp: rw_inv_def split: if_splits)
qed

theorem RWLock_refines_spec_witness:
  "\<exists>s. (rw_step 2)\<^sup>*\<^sup>* \<lparr>rw_count = 1, rw_at = (\<lambda>_. Idle)\<rparr> s \<and> rw_at s 1 = Writing \<and> writers s = {1} \<and> readers s = {} \<and> rw_count s = 0"
proof -
  let ?s = "\<lparr>rw_count = 1, rw_at = (\<lambda>_. Idle)\<rparr>"
  let ?s1 = "goto ?s 1 Write_load" let ?s2 = "goto ?s1 1 (Write_cas (rw_count ?s1))"
  let ?s3 = "goto (?s2\<lparr>rw_count := 0\<rparr>) 1 Writing"
  have "rw_step 2 ?s ?s1" by (rule rw_step.write_lock) simp_all
  moreover have "rw_step 2 ?s1 ?s2" using rw_step.write_load [of 1 2 ?s1] by simp
  moreover have "rw_step 2 ?s2 ?s3" by (rule rw_step.write_cas [of _ _ _ 1]) simp_all
  ultimately have reach: "(rw_step 2)\<^sup>*\<^sup>* ?s ?s3" by (meson rtranclp.rtrancl_into_rtrancl rtranclp.rtrancl_refl)
  have w: "1 \<in> writers ?s3" by (simp add: writers_def)
  have "rw_init ?s" by (simp add: rw_init_def)
  from RWLock_refines_spec [OF this _ reach, of 1] w show ?thesis using reach by (intro exI [of _ ?s3]) simp
qed

text \<open>
  A free readers-writer lock can be taken: if no thread is inside, a thread that tries to
  write, or to read, succeeds with its next load and exchange.
\<close>

lemma RWLock_free_is_taken:
  assumes "rw_init s0" "n < 2 ^ 64 - 1" "(rw_step n)\<^sup>*\<^sup>* s0 s" "readers s = {}" "writers s = {}" "t < n"
  shows "(rw_at s t = Write_load \<longrightarrow> (\<exists>s1 s2. rw_step n s s1 \<and> rw_step n s1 s2 \<and> rw_at s2 t = Writing)) \<and>
    (rw_at s t = Read_load \<longrightarrow> (\<exists>s1 s2. rw_step n s s1 \<and> rw_step n s1 s2 \<and> rw_at s2 t = Reading))"
proof -
  have "rw_inv n s" using rw.reachable_inv [OF assms(3)] assms(1,2) by simp
  then have "unat (rw_count s) = 1" using assms(4,5) by (simp add: rw_inv_def)
  then have c: "rw_count s = 1" by (simp add: word_unat_eq_iff)
  have "\<exists>s1 s2. rw_step n s s1 \<and> rw_step n s1 s2 \<and> rw_at s2 t = Writing" if w: "rw_at s t = Write_load"
  proof -
    let ?s1 = "goto s t (Write_cas 1)" let ?s2 = "goto (?s1\<lparr>rw_count := 0\<rparr>) t Writing"
    have "rw_step n s ?s1" using rw_step.write_load [OF assms(6) w] c by simp
    moreover have "rw_step n ?s1 ?s2" by (rule rw_step.write_cas [OF assms(6), of _ 1]) (simp_all add: c)
    moreover have "rw_at ?s2 t = Writing" by simp
    ultimately show ?thesis by blast
  qed
  moreover have "\<exists>s1 s2. rw_step n s s1 \<and> rw_step n s1 s2 \<and> rw_at s2 t = Reading" if r: "rw_at s t = Read_load"
  proof -
    let ?s1 = "goto s t (Read_cas 1)" let ?s2 = "goto (?s1\<lparr>rw_count := 1 + 1\<rparr>) t Reading"
    have "rw_step n s ?s1" using rw_step.read_load [OF assms(6) r] c by simp
    moreover have "rw_step n ?s1 ?s2" by (rule rw_step.read_cas [OF assms(6), of _ 1]) (simp_all add: c)
    moreover have "rw_at ?s2 t = Reading" by simp
    ultimately show ?thesis by blast
  qed
  ultimately show ?thesis by blast
qed

end
