(* ===== verification/Primitive_Type.thy ===== *)
theory Primitive_Type
  imports Prelude
begin

text \<open>
  The primitive types (\<^verbatim>\<open>src/vm/PrimitiveType.h\<close>, \<^verbatim>\<open>PrimitiveType.cpp\<close>). The code
  keeps one heap record per primitive type and compares them by address; a constructor of
  \<open>PrimitiveType\<close> stands for that address. \<open>type_id\<close> and \<open>type_name\<close> are the fields that
  \<^verbatim>\<open>setup_primitive_types\<close> gives each record and \<open>all_types\<close> is the list it builds.
\<close>

datatype PrimitiveType = type_void | i8 | i16 | i32 | i64 | u8 | u16 | u32 | u64

primrec type_id :: "PrimitiveType \<Rightarrow> nat" where
  "type_id type_void = 0"
| "type_id i8 = 1"
| "type_id i16 = 2"
| "type_id i32 = 3"
| "type_id i64 = 4"
| "type_id u8 = 5"
| "type_id u16 = 6"
| "type_id u32 = 7"
| "type_id u64 = 8"

primrec primitive_name :: "PrimitiveType \<Rightarrow> string" where
  "primitive_name type_void = ''void''"
| "primitive_name i8 = ''i8''"
| "primitive_name i16 = ''i16''"
| "primitive_name i32 = ''i32''"
| "primitive_name i64 = ''i64''"
| "primitive_name u8 = ''u8''"
| "primitive_name u16 = ''u16''"
| "primitive_name u32 = ''u32''"
| "primitive_name u64 = ''u64''"

definition all_types :: "PrimitiveType list" where
  "all_types = [type_void, i8, i16, i32, i64, u8, u16, u32, u64]"

lemma set_all_types: "set all_types = UNIV"
proof -
  have "p \<in> set all_types" for p by (cases p) (simp_all add: all_types_def)
  then show ?thesis by blast
qed

lemma type_id_inject [simp]: "type_id p = type_id q \<longleftrightarrow> p = q"
  by (cases p; cases q) simp_all

lemma primitive_name_inject [simp]: "primitive_name p = primitive_name q \<longleftrightarrow> p = q"
  by (cases p; cases q) simp_all

lemma all_types_sorted: "map type_id all_types = [0..<9]"
  by (simp add: all_types_def upt_conv_Cons)

text \<open>The types are ordered by their id.\<close>

instantiation PrimitiveType :: linorder
begin

definition less_eq_PrimitiveType :: "PrimitiveType \<Rightarrow> PrimitiveType \<Rightarrow> bool" where
  "less_eq_PrimitiveType p q \<longleftrightarrow> type_id p \<le> type_id q"

definition less_PrimitiveType :: "PrimitiveType \<Rightarrow> PrimitiveType \<Rightarrow> bool" where
  "less_PrimitiveType p q \<longleftrightarrow> type_id p < type_id q"

instance
  by standard (auto simp: less_eq_PrimitiveType_def less_PrimitiveType_def)

end

text \<open>The width in bits of the integers of a primitive type.\<close>

primrec width :: "PrimitiveType \<Rightarrow> nat" where
  "width type_void = 0"
| "width i8 = 8"
| "width i16 = 16"
| "width i32 = 32"
| "width i64 = 64"
| "width u8 = 8"
| "width u16 = 16"
| "width u32 = 32"
| "width u64 = 64"

lemma width_le_64: "width p \<le> 64"
  by (cases p) simp_all

end
