(* ===== verification/Heap_Object.thy ===== *)
theory Heap_Object
  imports Primitive_Type
begin

text \<open>
  Heap objects (\<^verbatim>\<open>src/heap/HeapAllocator.h\<close>): the header the allocator and the
  collector read and write, the per-object spin lock and the raw field accessors.

  The heap maps the address of a cell to the object header in that cell together with the
  array of field slots that follows it in memory (\<open>slots\<close>; the code reaches it as
  \<^verbatim>\<open>(HeapObject**) (object + 1)\<close>). Addresses that are not a cell are not in the domain
  of the map, and using one is undefined behaviour, as is a field index outside the array.
\<close>

section \<open>The data\<close>

datatype object_state = dead | live | process_gc | waiting_for_gc

text \<open>
  A \<^verbatim>\<open>Type*\<close> points to one of the primitive types or to a class that some module
  defines; \<open>DefT m i\<close> is the \<open>i\<close>-th type definition of module \<open>m\<close>.
\<close>

datatype type_ptr = PrimT PrimitiveType | DefT string nat

record HeapObject =
  count :: u64
  crc :: u64
  state :: object_state
  async_release :: bool
  is_cyclic_type :: bool
  lock_flag :: bool
  field_length :: u64
  type_info :: "type_ptr option"
  slots :: "u64 list"

type_synonym heap = "addr \<rightharpoonup> HeapObject"

text \<open>The header of a cell in memory fresh from \<^verbatim>\<open>calloc\<close>: all bytes are zero.\<close>

definition zero_object :: HeapObject where
  "zero_object = \<lparr>count = 0, crc = 0, state = dead, async_release = False, is_cyclic_type = False,
     lock_flag = False, field_length = 0, type_info = None, slots = []\<rparr>"

text \<open>\<^verbatim>\<open>sizeof(HeapObject)\<close> and \<^verbatim>\<open>sizeof(BlockInfo)\<close> on a 64-bit target.\<close>

definition sizeof_HeapObject :: nat where
  "sizeof_HeapObject = 40"

definition in_use :: "heap \<Rightarrow> addr \<Rightarrow> bool" where
  "in_use h a \<longleftrightarrow> (\<exists>ob. h a = Some ob \<and> state ob \<noteq> dead)"

definition upd_obj :: "heap \<Rightarrow> addr \<Rightarrow> (HeapObject \<Rightarrow> HeapObject) \<Rightarrow> heap option" where
  "upd_obj h p f = do { ob \<leftarrow> h p; Some (h(p \<mapsto> f ob)) }"

lemma upd_obj_Some [heap_simps]: "h p = Some ob \<Longrightarrow> upd_obj h p f = Some (h(p \<mapsto> f ob))"
  by (simp add: upd_obj_def)

section \<open>The object lock\<close>

text \<open>
  The loop of \<^verbatim>\<open>object_lock\<close> spins on the flag. Run by itself, with no other thread that
  clears the flag, it returns only if the flag is clear when it is called.
\<close>

partial_function (option) object_lock :: "heap \<Rightarrow> addr \<Rightarrow> heap option" where
  "object_lock h p =
     do { ob \<leftarrow> h p;
          if lock_flag ob then object_lock h p
          else Some (h(p \<mapsto> ob\<lparr>lock_flag := True\<rparr>)) }"

definition object_unlock :: "heap \<Rightarrow> addr \<Rightarrow> heap option" where
  "object_unlock h p = upd_obj h p (\<lambda>ob. ob\<lparr>lock_flag := False\<rparr>)"

lemma object_lock_free [heap_simps]:
  "h p = Some ob \<Longrightarrow> \<not> lock_flag ob \<Longrightarrow>
     object_lock h p = Some (h(p \<mapsto> ob\<lparr>lock_flag := True\<rparr>))"
  by (simp add: object_lock.simps)

lemma object_lock_Some:
  assumes "object_lock h p = Some h'"
  shows "\<exists>ob. h p = Some ob \<and> \<not> lock_flag ob \<and> h' = h(p \<mapsto> ob\<lparr>lock_flag := True\<rparr>)"
proof (rule object_lock.raw_induct [where P = "\<lambda>h p h'. \<exists>ob. h p = Some ob \<and> \<not> lock_flag ob \<and>
    h' = h(p \<mapsto> ob\<lparr>lock_flag := True\<rparr>)", OF _ assms])
  fix lock :: "heap \<Rightarrow> addr \<Rightarrow> heap option" and h p h'
  assume IH: "\<And>h p h'. lock h p = Some h' \<Longrightarrow>
      \<exists>ob. h p = Some ob \<and> \<not> lock_flag ob \<and> h' = h(p \<mapsto> ob\<lparr>lock_flag := True\<rparr>)"
    and eq: "(h p \<bind> (\<lambda>ob. if lock_flag ob then lock h p
        else Some (h(p \<mapsto> ob\<lparr>lock_flag := True\<rparr>)))) = Some h'"
  show "\<exists>ob. h p = Some ob \<and> \<not> lock_flag ob \<and> h' = h(p \<mapsto> ob\<lparr>lock_flag := True\<rparr>)"
    using eq IH [of h p h'] by (cases "h p") (auto split: if_splits)
qed

lemma object_lock_held: "h p = Some ob \<Longrightarrow> lock_flag ob \<Longrightarrow> object_lock h p = None"
  using object_lock_Some [of h p] by (cases "object_lock h p") auto

section \<open>Field access\<close>

definition get_object_field :: "heap \<Rightarrow> addr \<Rightarrow> nat \<Rightarrow> u64 option" where
  "get_object_field h object field_index = do { ob \<leftarrow> h object; at (slots ob) field_index }"

definition set_object_field :: "heap \<Rightarrow> addr \<Rightarrow> nat \<Rightarrow> u64 \<Rightarrow> heap option" where
  "set_object_field h object field_index value =
     do { ob \<leftarrow> h object;
          fs \<leftarrow> put (slots ob) field_index value;
          Some (h(object \<mapsto> ob\<lparr>slots := fs\<rparr>)) }"

lemma get_set_object_field:
  assumes "set_object_field h p i v = Some h'"
  shows "get_object_field h' q j = (if q = p \<and> j = i then Some v else get_object_field h q j)"
  using assms by (auto simp: set_object_field_def get_object_field_def bind_Some_iff at_put)

end
