(* ===== verification/Modules.thy ===== *)
theory Modules
  imports Heap_Object BitSet
begin

text \<open>
  The data that the parser builds and the interpreter runs: constants, types, fields,
  functions, label blocks and orders (\<^verbatim>\<open>src/vm/modules\<close>, \<^verbatim>\<open>src/vm/parser/Structs.h\<close>).

  Pointers to shared objects are names or indices. A \<^verbatim>\<open>Module*\<close> is the module's name, by
  which the machine keeps it; a \<^verbatim>\<open>Type*\<close> is a \<open>type_ptr\<close>; a \<^verbatim>\<open>LabelBlock*\<close> is the index
  of the block in its function. The null pointer is \<open>None\<close>. An array of values and its
  length are one list.
\<close>

section \<open>Constants\<close>

text \<open>
  \<open>value_reference\<close> is the memory the pointer designates: the characters of a string, or the
  eight bytes of an integer or a double, least significant byte first.
\<close>

record ConstValue =
  const_byte_size :: u64
  const_type :: char
  value_reference :: "u8 list"

definition bytes_of_u64 :: "u64 \<Rightarrow> u8 list" where
  "bytes_of_u64 w = map (\<lambda>i. ucast (drop_bit (8 * i) w)) [0..<8]"

definition read_u64 :: "u8 list \<Rightarrow> u64 option" where
  "read_u64 bytes =
     (if length bytes < 8 then None
      else Some (foldr (\<lambda>b w. push_bit 8 w OR ucast b) (take 8 bytes) 0))"

section \<open>Types\<close>

record TypeInfo =
  import_index :: u64
  info_type_name :: string

record FieldInfo =
  info_field_name :: string
  field_primitive_type :: "PrimitiveType option"
  user_def_type :: TypeInfo

record ArgumentInfo =
  arg_primitive_type :: "PrimitiveType option"
  arg_type_index :: u64

record Field =
  field_name :: string
  field_type :: "type_ptr option"

record Type =
  primitive_type :: "PrimitiveType option"
  type_name :: string
  runtime_type_id :: u64
  field_infos :: "FieldInfo list"
  add_fields :: "Field list"
  all_fields :: "Field list"
  parent_info :: TypeInfo
  parent :: "type_ptr option"
  reference_fields :: "u8 list option"
  is_cycling_type :: bool

definition Type_new :: "PrimitiveType option \<Rightarrow> string \<Rightarrow> u64 \<Rightarrow> FieldInfo list \<Rightarrow> TypeInfo \<Rightarrow> Type" where
  "Type_new primitive name runtime_id infos parent' =
     \<lparr>primitive_type = primitive, type_name = name, runtime_type_id = runtime_id, field_infos = infos,
      add_fields = [], all_fields = [], parent_info = parent', parent = None,
      reference_fields = None, is_cycling_type = False\<rparr>"

text \<open>The \<^verbatim>\<open>Type\<close> that \<^verbatim>\<open>type::create\<close> makes for a primitive type.\<close>

definition primitive_Type :: "PrimitiveType \<Rightarrow> Type" where
  "primitive_Type p = Type_new (Some p) '''' 0 [] \<lparr>import_index = 0, info_type_name = ''''\<rparr>"

definition get_from_primitive_type :: "PrimitiveType option \<Rightarrow> type_ptr option" where
  "get_from_primitive_type type = (case type of None \<Rightarrow> None | Some p \<Rightarrow> Some (PrimT p))"

section \<open>Orders\<close>

datatype OwnershipOrder = clone | borrow | move

text \<open>
  One constructor per class of \<^verbatim>\<open>src/vm/modules/orders\<close>, with its data members. The member
  \<^verbatim>\<open>type\<close> of an integer order is never null (the parser passes an entry of \<open>all_types\<close>).
\<close>

datatype Order =
    GetConstInteger PrimitiveType (result_register: u64) (const_index: u64)
  | GetArgument (result_register: u64) (argument_index: u64)
  | AddInteger PrimitiveType (result_register: u64) u64 u64
  | JumpToLabel string (jump_label: "nat option")
  | ReturnFunction (result_register: u64)
  | NewClassObject (result_register: u64) (using_type_index: u64) "type_ptr option" u64
  | GetObjectFieldOwnership (target_register: u64) (result_register: u64)
      (using_type_index: u64) string (field_index: u64) OwnershipOrder
  | SetObjectFieldOwnership (target_register: u64) u64
      (using_type_index: u64) string (field_index: u64) bool

text \<open>The constructors that set a member the caller does not pass.\<close>

definition JumpToLabel_new :: "string \<Rightarrow> Order" where
  "JumpToLabel_new name = JumpToLabel name None"

definition NewClassObject_new :: "u64 \<Rightarrow> u64 \<Rightarrow> Order" where
  "NewClassObject_new result index = NewClassObject result index None 0"

section \<open>Functions\<close>

record LabelBlock =
  label_name :: string
  orders :: "Order list"

record Function =
  function_name :: string
  variables_size :: u64
  registers_size :: u64
  label_blocks :: "LabelBlock list"
  label_block_map :: "string \<rightharpoonup> nat"
  return_type_info :: ArgumentInfo
  return_type :: "type_ptr option"
  argument_type_infos :: "ArgumentInfo list"
  argument_types :: "type_ptr option list"

text \<open>
  The loop that fills an \<^verbatim>\<open>unordered_map\<close> from a vector: an entry overwrites an earlier one
  with the same key. The value is the position in the vector.
\<close>

fun index_by_name :: "string list \<Rightarrow> nat \<Rightarrow> (string \<rightharpoonup> nat) \<Rightarrow> (string \<rightharpoonup> nat)" where
  "index_by_name [] i m = m"
| "index_by_name (n # ns) i m = index_by_name ns (Suc i) (m(n \<mapsto> i))"

definition Function_new :: "string \<Rightarrow> u64 \<Rightarrow> u64 \<Rightarrow> LabelBlock list \<Rightarrow> ArgumentInfo \<Rightarrow>
    ArgumentInfo list \<Rightarrow> Function" where
  "Function_new name variables registers blocks return_info argument_infos =
     \<lparr>function_name = name, variables_size = variables, registers_size = registers, label_blocks = blocks,
      label_block_map = index_by_name (map label_name blocks) 0 Map.empty,
      return_type_info = return_info, return_type = None,
      argument_type_infos = argument_infos, argument_types = []\<rparr>"

section \<open>Modules\<close>

record Module =
  mod_name :: string
  const_values :: "ConstValue list"
  import_module_names :: "string list"
  import_modules :: "string list"
  type_define_map :: "string \<rightharpoonup> nat"
  type_defines :: "Type list"
  using_type_infos :: "TypeInfo list"
  using_types :: "type_ptr option list"
  mod_functions :: "Function list"
  module_fields :: addr

definition Module_new :: "string \<Rightarrow> ConstValue list \<Rightarrow> string list \<Rightarrow> Type list \<Rightarrow> TypeInfo list \<Rightarrow>
    Function list \<Rightarrow> Module" where
  "Module_new name consts imports types using funcs =
     \<lparr>mod_name = name, const_values = consts, import_module_names = imports, import_modules = [],
      type_define_map = index_by_name (map type_name types) 0 Map.empty, type_defines = types,
      using_type_infos = using, using_types = [], mod_functions = funcs, module_fields = nullptr\<rparr>"

text \<open>The loaded modules, and the type a pointer designates among them.\<close>

type_synonym modules = "string \<rightharpoonup> Module"

definition type_at :: "modules \<Rightarrow> type_ptr \<Rightarrow> Type option" where
  "type_at ms t =
     (case t of PrimT p \<Rightarrow> Some (primitive_Type p)
      | DefT m i \<Rightarrow> do { md \<leftarrow> ms m; at (type_defines md) i })"

text \<open>\<^verbatim>\<open>type_define_map[name]\<close>: the operator gives the null pointer for a missing name.\<close>

definition lookup_type :: "Module \<Rightarrow> string \<Rightarrow> type_ptr option" where
  "lookup_type md name = map_option (DefT (mod_name md)) (type_define_map md name)"

section \<open>Lemmas\<close>

lemma bit_foldr_bytes:
  "k < 8 * length bs \<Longrightarrow> k < 64 \<Longrightarrow>
     bit (foldr (\<lambda>b w. push_bit 8 w OR ucast (b :: u8)) bs (0 :: u64)) k =
     bit (bs ! (k div 8)) (k mod 8)"
proof (induction bs arbitrary: k)
  case Nil
  then show ?case by simp
next
  case (Cons b bs)
  show ?case
  proof (cases "k < 8")
    case True
    then show ?thesis using Cons.prems by (simp add: bit_or_iff bit_push_bit_iff bit_ucast_iff)
  next
    case False
    then have "k div 8 = Suc ((k - 8) div 8)" "k mod 8 = (k - 8) mod 8" by (simp_all add: le_div_geq le_mod_geq)
    then show ?thesis using Cons.IH [of "k - 8"] Cons.prems False
      by (auto simp: bit_or_iff bit_push_bit_iff bit_ucast_iff dest: bit_imp_le_length)
  qed
qed

lemma read_u64_bytes: "read_u64 (bytes_of_u64 w) = Some w"
proof -
  have l: "length (bytes_of_u64 w) = 8" by (simp add: bytes_of_u64_def)
  have "foldr (\<lambda>b w. push_bit 8 w OR ucast b) (bytes_of_u64 w) 0 = w"
  proof (rule bit_word_eqI)
    fix k assume "k < LENGTH(64)"
    then have k: "k < 64" "k div 8 < 8" by simp_all
    then have "bytes_of_u64 w ! (k div 8) = ucast (drop_bit (8 * (k div 8)) w)" by (simp add: bytes_of_u64_def)
    moreover have "bit (foldr (\<lambda>b w. push_bit 8 w OR ucast b) (bytes_of_u64 w) (0 :: u64)) k
        = bit (bytes_of_u64 w ! (k div 8)) (k mod 8)"
      using k l by (intro bit_foldr_bytes) simp_all
    ultimately show "bit (foldr (\<lambda>b w. push_bit 8 w OR ucast b) (bytes_of_u64 w) (0 :: u64)) k = bit w k"
      by (simp add: bit_ucast_iff bit_drop_bit_eq)
  qed
  then show ?thesis using l by (simp add: read_u64_def)
qed

lemma index_by_name_lookup:
  "index_by_name ns i m n =
     (if n \<in> set ns then Some (i + (GREATEST k. k < length ns \<and> ns ! k = n)) else m n)"
proof (induction ns arbitrary: i m)
  case Nil
  then show ?case by simp
next
  case (Cons x xs)
  let ?P = "\<lambda>ys k. k < length ys \<and> ys ! k = n"
  show ?case
  proof (cases "n \<in> set xs")
    case True
    then obtain k where k: "?P xs k" by (auto simp: in_set_conv_nth)
    have g: "?P xs (GREATEST k. ?P xs k)"
      by (rule GreatestI_nat [where P = "?P xs", OF k, of "length xs"]) simp
    have "(GREATEST k. ?P (x # xs) k) = Suc (GREATEST k. ?P xs k)"
    proof (rule Greatest_equality)
      show "?P (x # xs) (Suc (GREATEST k. ?P xs k))" using g by simp
      fix y assume y: "?P (x # xs) y"
      show "y \<le> Suc (GREATEST k. ?P xs k)"
      proof (cases y)
        case (Suc z)
        then have "z \<le> (GREATEST k. ?P xs k)" using y
          by (intro Greatest_le_nat [where P = "?P xs" and b = "length xs"]) auto
        then show ?thesis using Suc by simp
      qed simp
    qed
    then show ?thesis using True Cons.IH by simp
  next
    case False
    have "(GREATEST k. ?P (n # xs) k) = 0"
    proof (rule Greatest_equality)
      fix y assume "?P (n # xs) y"
      then show "y \<le> 0" using False by (cases y) auto
    qed simp
    then show ?thesis using False Cons.IH by auto
  qed
qed

lemma index_by_name_Some:
  assumes "index_by_name ns 0 Map.empty n = Some k"
  shows "k < length ns \<and> ns ! k = n"
proof -
  have "n \<in> set ns" using assms by (auto simp: index_by_name_lookup split: if_splits)
  then obtain j where "j < length ns \<and> ns ! j = n" by (auto simp: in_set_conv_nth)
  then have "(\<lambda>k. k < length ns \<and> ns ! k = n) (GREATEST k. k < length ns \<and> ns ! k = n)"
    by (rule GreatestI_nat [of _ _ "length ns"]) simp
  then show ?thesis using assms by (simp add: index_by_name_lookup split: if_splits)
qed

lemma index_by_name_distinct:
  assumes "distinct ns" "k < length ns"
  shows "index_by_name ns 0 Map.empty (ns ! k) = Some k"
proof -
  have "(GREATEST j. j < length ns \<and> ns ! j = ns ! k) = k"
    by (rule Greatest_equality) (use assms in \<open>auto simp: nth_eq_iff_index_eq\<close>)
  then show ?thesis using assms(2) by (simp add: index_by_name_lookup)
qed

end
