(* ===== verification/Heap_Allocator.thy ===== *)
theory Heap_Allocator
  imports Heap_Object
begin

text \<open>
  The segregated-fit allocator of \<^verbatim>\<open>src/heap/HeapAllocator.cpp\<close>. A chunk is one
  region of memory cut into thirteen blocks, each an array of \<open>cells_size\<close> cells of the
  block's size, followed by the table of block headers. An allocator owns a list of chunks
  and adds one when no chunk has a free cell for a request.

  Memory: \<open>heap\<close> holds the objects in the cells, \<open>chunk_at\<close> the chunk headers by address
  (allocators and the machine share them through pointers) and \<open>brk\<close> the end of the memory
  handed out so far: \<^verbatim>\<open>calloc\<close> returns fresh zeroed memory from there.
\<close>

section \<open>Data\<close>

record BlockInfo =
  entry_position :: addr
  empty :: bool
  current_location :: nat

record HeapChunk =
  cells_size :: nat
  block_info_list :: "BlockInfo list"

record HeapAllocator =
  is_thread_safe :: bool
  number_of_chunks :: nat
  chunks :: "addr list"
  chunks_cells_size :: nat

record memory =
  heap :: heap
  chunk_at :: "addr \<rightharpoonup> HeapChunk"
  brk :: addr
  heap_chunk_list :: "addr list"

definition BLOCK_SIZES :: "nat list" where
  "BLOCK_SIZES = [32, 40, 48, 56, 64, 72, 80, 88, 96, 128, 256, 384, 512]"

definition NUMBER_OF_BLOCKS :: nat where
  "NUMBER_OF_BLOCKS = 13"

definition BLOCKS_SIZE :: nat where
  "BLOCKS_SIZE = 1856"

definition sizeof_BlockInfo :: nat where
  "sizeof_BlockInfo = 24"

definition sizeof_HeapChunk :: nat where
  "sizeof_HeapChunk = 16"

definition calloc :: "nat \<Rightarrow> memory \<Rightarrow> addr \<times> memory" where
  "calloc n m = (brk m, m\<lparr>brk := brk m + of_nat n\<rparr>)"

section \<open>Chunks\<close>

text \<open>
  The entry positions \<^verbatim>\<open>position0 .. position12\<close>, each the previous one plus the
  previous block, and the cells they contain. Zeroed memory reads as a dead object in
  every cell.
\<close>

fun positions :: "nat list \<Rightarrow> addr \<Rightarrow> nat \<Rightarrow> addr list" where
  "positions [] p cells = []"
| "positions (b # bs) p cells = p # positions bs (p + of_nat b * of_nat cells) cells"

definition block_cells :: "addr \<Rightarrow> nat \<Rightarrow> nat \<Rightarrow> addr list" where
  "block_cells entry block_size cells = map (\<lambda>k. entry + of_nat (k * block_size)) [0..<cells]"

definition chunk_cells :: "addr \<Rightarrow> nat \<Rightarrow> addr list" where
  "chunk_cells position0 cells =
     concat (map2 (\<lambda>p b. block_cells p b cells) (positions BLOCK_SIZES position0 cells) BLOCK_SIZES)"

definition create_heap_chunk :: "addr \<Rightarrow> nat \<Rightarrow> memory \<Rightarrow> memory" where
  "create_heap_chunk chunk cells m =
     (let block_info_list_size = sizeof_BlockInfo * NUMBER_OF_BLOCKS;
          (position0, m) = calloc (cells * BLOCKS_SIZE + block_info_list_size) m;
          infos = map (\<lambda>p. \<lparr>entry_position = p, empty = True, current_location = 0\<rparr>)
                    (positions BLOCK_SIZES position0 cells)
      in m\<lparr>heap := (\<lambda>a. if a \<in> set (chunk_cells position0 cells) then Some zero_object else heap m a),
           chunk_at := (chunk_at m)(chunk \<mapsto> \<lparr>cells_size = cells, block_info_list = infos\<rparr>)\<rparr>)"

definition HeapChunk_new :: "nat \<Rightarrow> memory \<Rightarrow> addr \<times> memory" where
  "HeapChunk_new cells m =
     (let (this, m) = calloc sizeof_HeapChunk m in (this, create_heap_chunk this cells m))"

section \<open>\<open>HeapChunk::malloc\<close>\<close>

text \<open>The next block size, \<open>None\<close> where the code gives up.\<close>

definition next_block_size :: "nat \<Rightarrow> nat option" where
  "next_block_size block_size =
     (if block_size < 96 then Some (block_size + 8)
      else if block_size = 96 then Some 128
      else if block_size \<le> 512 then Some (block_size + 128)
      else None)"

definition next_cell :: "addr \<Rightarrow> nat \<Rightarrow> nat \<Rightarrow> addr \<times> nat \<Rightarrow> addr \<times> nat" where
  "next_cell block_entry block_size cells =
     (\<lambda>(current_entry, current_entry_index).
        if current_entry_index + 1 = cells then (block_entry, 0)
        else (current_entry + of_nat block_size, current_entry_index + 1))"

definition cas_state :: "heap \<Rightarrow> addr \<Rightarrow> object_state \<Rightarrow> object_state \<Rightarrow> (bool \<times> heap) option" where
  "cas_state h p expected desired =
     do { ob \<leftarrow> h p;
          Some (if state ob = expected then (True, h(p \<mapsto> ob\<lparr>state := desired\<rparr>)) else (False, h)) }"

text \<open>
  The search for a dead cell: at most \<open>cells_size\<close> steps around the block. A thread-safe
  allocator claims the cell with a compare-and-exchange, the other one reads the state again.
\<close>

fun scan_cells :: "bool \<Rightarrow> addr \<Rightarrow> nat \<Rightarrow> nat \<Rightarrow> nat \<Rightarrow> heap \<Rightarrow> addr \<Rightarrow> nat \<Rightarrow>
    (heap \<times> addr option \<times> nat) option" where
  "scan_cells ts entry bs cells 0 h ce ci = Some (h, None, ci)"
| "scan_cells ts entry bs cells (Suc n) h ce ci =
     do { ob \<leftarrow> h ce;
          let (ce', ci') = next_cell entry bs cells (ce, ci);
          if state ob \<noteq> dead then scan_cells ts entry bs cells n h ce' ci'
          else if ts then
            do { (ok, h') \<leftarrow> cas_state h ce dead live;
                 if ok then Some (h', Some ce, ci) else scan_cells ts entry bs cells n h' ce' ci' }
          else do { ob' \<leftarrow> h ce;
                    if state ob' \<noteq> dead then scan_cells ts entry bs cells n h ce' ci'
                    else Some (h, Some ce, ci) } }"

text \<open>
  Initialising the claimed cell. The loop that clears the fields writes
  \<open>field_length\<close> slots behind the header; past the end of the cell that is undefined.
\<close>

definition fresh_object :: "(type_ptr \<Rightarrow> bool) \<Rightarrow> type_ptr \<Rightarrow> u64 \<Rightarrow> HeapObject \<Rightarrow> HeapObject" where
  "fresh_object is_cycling_type type_info' field_length' ob =
     ob\<lparr>slots := replicate (unat field_length') nullptr, type_info := Some type_info',
        field_length := field_length', async_release := False, state := live,
        is_cyclic_type := is_cycling_type type_info', count := 1\<rparr>"

definition init_object :: "(type_ptr \<Rightarrow> bool) \<Rightarrow> type_ptr \<Rightarrow> nat \<Rightarrow> u64 \<Rightarrow> HeapObject \<Rightarrow> HeapObject option" where
  "init_object is_cycling_type type_info' block_size field_length' ob =
     (if sizeof_HeapObject + 8 * unat field_length' \<le> block_size
      then Some (fresh_object is_cycling_type type_info' field_length' ob) else None)"

text \<open>
  One round of the loop: the block at \<open>index\<close>, skipped when its \<open>empty\<close> flag is
  already cleared, searched otherwise; a block without a dead cell has its flag cleared.
\<close>

definition malloc_block :: "(type_ptr \<Rightarrow> bool) \<Rightarrow> type_ptr \<Rightarrow> u64 \<Rightarrow> bool \<Rightarrow> nat \<Rightarrow> nat \<Rightarrow>
    heap \<Rightarrow> HeapChunk \<Rightarrow> (heap \<times> HeapChunk \<times> addr option) option" where
  "malloc_block cyc ty field_length' ts index block_size h chunk =
     do { block_info \<leftarrow> at (block_info_list chunk) index;
          if \<not> empty block_info then Some (h, chunk, None)
          else do {
            let cells = cells_size chunk;
            let entry = entry_position block_info;
            let ci = current_location block_info;
            (h', found, ci') \<leftarrow>
              scan_cells ts entry block_size cells cells h (entry + of_nat (ci * block_size)) ci;
            case found of
              Some object \<Rightarrow> do {
                let ci'' = (if ci' + 1 = cells then 0 else ci' + 1);
                ob \<leftarrow> h' object;
                ob' \<leftarrow> init_object cyc ty block_size field_length' ob;
                Some (h'(object \<mapsto> ob'),
                      chunk\<lparr>block_info_list :=
                        (block_info_list chunk)[index := block_info\<lparr>current_location := ci''\<rparr>]\<rparr>,
                      Some object) }
            | None \<Rightarrow>
                Some (h', chunk\<lparr>block_info_list := (block_info_list chunk)
                  [index := block_info\<lparr>current_location := ci', empty := False\<rparr>]\<rparr>, None) } }"

lemma malloc_block_length:
  "malloc_block cyc ty fl ts index bs h chunk = Some (h', chunk', found) \<Longrightarrow>
     length (block_info_list chunk') = length (block_info_list chunk) \<and>
     index < length (block_info_list chunk)"
  by (auto simp: malloc_block_def bind_Some_iff at_Some_iff Let_def split: if_splits option.splits)

function HeapChunk_malloc :: "(type_ptr \<Rightarrow> bool) \<Rightarrow> type_ptr \<Rightarrow> u64 \<Rightarrow> bool \<Rightarrow> nat \<Rightarrow> nat \<Rightarrow>
    heap \<Rightarrow> HeapChunk \<Rightarrow> (heap \<times> HeapChunk \<times> addr) option" where
  "HeapChunk_malloc cyc ty field_length' ts index block_size h chunk =
     (case malloc_block cyc ty field_length' ts index block_size h chunk of
        None \<Rightarrow> None
      | Some (h', chunk', Some object) \<Rightarrow> Some (h', chunk', object)
      | Some (h', chunk', None) \<Rightarrow>
          (case next_block_size block_size of
             None \<Rightarrow> Some (h', chunk', nullptr)
           | Some block_size' \<Rightarrow>
               if index + 1 = 13 then Some (h', chunk', nullptr)
               else HeapChunk_malloc cyc ty field_length' ts (index + 1) block_size' h' chunk'))"
  by pat_completeness auto
termination
  by (relation "measure (\<lambda>(cyc, ty, fl, ts, index, bs, h, chunk). length (block_info_list chunk) - index)")
    (auto dest!: malloc_block_length)

declare HeapChunk_malloc.simps [simp del]

section \<open>\<open>HeapAllocator\<close>\<close>

definition create_new_chunk :: "nat \<Rightarrow> HeapAllocator \<Rightarrow> memory \<Rightarrow> HeapAllocator \<times> memory" where
  "create_new_chunk cells this m =
     (let (chunk, m) = HeapChunk_new cells m;
          m = m\<lparr>heap_chunk_list := heap_chunk_list m @ [chunk]\<rparr>
      in (this\<lparr>chunks := chunks this @ [chunk], number_of_chunks := number_of_chunks this + 1\<rparr>, m))"

fun create_chunks :: "nat \<Rightarrow> nat \<Rightarrow> addr \<Rightarrow> nat \<Rightarrow> nat list \<Rightarrow> memory \<Rightarrow> addr list \<times> memory" where
  "create_chunks cells chunk_size entry n [] m = ([], m)"
| "create_chunks cells chunk_size entry n (i # is) m =
     (let chunk = entry + of_nat (chunk_size * i);
          m = create_heap_chunk chunk cells m;
          (cs, m) = create_chunks cells chunk_size entry n is m
      in (chunk # cs, m))"

definition HeapAllocator_new :: "bool \<Rightarrow> nat \<Rightarrow> nat \<Rightarrow> memory \<Rightarrow> HeapAllocator \<times> memory" where
  "HeapAllocator_new ts cells n m =
     (let block_info_list_size = sizeof_BlockInfo * NUMBER_OF_BLOCKS;
          heap_size = cells * BLOCKS_SIZE + block_info_list_size;
          chunk_size = sizeof_HeapChunk + heap_size;
          (entry, m) = calloc (chunk_size * n) m;
          (cs, m) = create_chunks cells chunk_size entry n [0..<n] m
      in (\<lparr>is_thread_safe = ts, number_of_chunks = n, chunks = cs, chunks_cells_size = cells\<rparr>, m))"

text \<open>
  The size class of a request, computed on \<^verbatim>\<open>size_t\<close> as in the code: the pair of block
  index and block size, \<open>None\<close> for a request that no block can hold.
\<close>

definition byte_size :: "u64 \<Rightarrow> u64" where
  "byte_size fields_length = of_nat sizeof_HeapObject + push_bit 3 fields_length"

definition block_class :: "u64 \<Rightarrow> (u64 \<times> u64) option" where
  "block_class bytes =
     (if bytes < 96 then
        (let index = (if bytes \<le> 32 then 0
                      else let temp = bytes - 32
                           in if temp AND 7 = 0 then drop_bit 3 temp else drop_bit 3 temp + 1)
         in Some (index, 32 + push_bit 3 index))
      else if bytes \<le> 512 then
        (let index_temp = (if bytes \<le> 128 then 0
                           else let temp = bytes - 128
                                in if temp AND 127 = 0 then drop_bit 7 temp else drop_bit 7 temp + 1)
         in Some (index_temp + 9, 128 + push_bit 7 index_temp))
      else None)"

text \<open>One round over the chunks, starting at \<open>current_chunk_index\<close>.\<close>

fun search_chunks :: "(type_ptr \<Rightarrow> bool) \<Rightarrow> type_ptr \<Rightarrow> u64 \<Rightarrow> HeapAllocator \<Rightarrow> nat \<Rightarrow> nat \<Rightarrow>
    nat \<Rightarrow> nat \<Rightarrow> memory \<Rightarrow> (memory \<times> addr option \<times> nat) option" where
  "search_chunks cyc ty fl this index bs 0 cci m = Some (m, None, cci)"
| "search_chunks cyc ty fl this index bs (Suc n) cci m =
     do { c \<leftarrow> at (chunks this) cci;
          chunk \<leftarrow> chunk_at m c;
          (h', chunk', address) \<leftarrow> HeapChunk_malloc cyc ty fl (is_thread_safe this) index bs (heap m) chunk;
          let m' = m\<lparr>heap := h', chunk_at := (chunk_at m)(c \<mapsto> chunk')\<rparr>;
          if address \<noteq> nullptr then Some (m', Some address, cci)
          else search_chunks cyc ty fl this index bs n
                 (if cci + 1 = number_of_chunks this then 0 else cci + 1) m' }"

partial_function (option) malloc_loop :: "(type_ptr \<Rightarrow> bool) \<Rightarrow> type_ptr \<Rightarrow> u64 \<Rightarrow> nat \<Rightarrow> nat \<Rightarrow>
    HeapAllocator \<Rightarrow> nat \<Rightarrow> memory \<Rightarrow> (HeapAllocator \<times> memory \<times> addr \<times> nat) option" where
  "malloc_loop cyc ty fl index bs this cci m =
     do { (m', found, cci') \<leftarrow> search_chunks cyc ty fl this index bs (number_of_chunks this) cci m;
          case found of
            Some address \<Rightarrow> Some (this, m', address, cci')
          | None \<Rightarrow> (case create_new_chunk (chunks_cells_size this) this m' of
                       (this', m'') \<Rightarrow> malloc_loop cyc ty fl index bs this' cci' m'') }"

definition HeapAllocator_malloc :: "(type_ptr \<Rightarrow> bool) \<Rightarrow> type_ptr \<Rightarrow> u64 \<Rightarrow> HeapAllocator \<Rightarrow> nat \<Rightarrow>
    memory \<Rightarrow> (HeapAllocator \<times> memory \<times> addr \<times> nat) option" where
  "HeapAllocator_malloc cyc ty fields_length this start m =
     (case block_class (byte_size fields_length) of
        None \<Rightarrow> Some (this, m, nullptr, start)
      | Some (index, block_size) \<Rightarrow>
          malloc_loop cyc ty fields_length (unat index) (unat block_size) this start m)"

section \<open>\<open>~HeapChunk\<close>\<close>

text \<open>
  The destructor frees the address of the list of block infos, which \<^verbatim>\<open>create_heap_chunk\<close> puts
  behind the last block. The system's \<^verbatim>\<open>free\<close> takes back only what \<^verbatim>\<open>calloc\<close> returned, the
  position of the first block: any other pointer is an invalid access.
\<close>

definition HeapChunk_delete :: "addr \<Rightarrow> memory \<Rightarrow> memory option" where
  "HeapChunk_delete this m =
     do { ch \<leftarrow> chunk_at m this;
          first \<leftarrow> at (block_info_list ch) 0;
          last' \<leftarrow> at (block_info_list ch) 12;
          let freed = entry_position last' + of_nat (BLOCK_SIZES ! 12 * cells_size ch);
          if freed = entry_position first
          then Some (m\<lparr>heap := (heap m) |` (- set (chunk_cells freed (cells_size ch))),
                       chunk_at := (chunk_at m)(this := None)\<rparr>)
          else None }"

end
