(* ===== verification/Interpreter.thy ===== *)
theory Interpreter
  imports Modules Heap_Allocator
begin

text \<open>
  The interpreter: \<^verbatim>\<open>eval\<close> and \<^verbatim>\<open>link\<close> of every order class
  (\<^verbatim>\<open>src/vm/modules/orders\<close>), the thread record of \<^verbatim>\<open>src/vm/CatVM.h\<close> and
  \<^verbatim>\<open>CatVM::run_function\<close>.

  The state of a running function is the thread, its register and variable arrays and the
  memory. Two things that the C++ program reads without having written them are parameters:
  \<open>uninit\<close> gives the contents of the arrays that \<^verbatim>\<open>new uint64_t[n]\<close> leaves uninitialised,
  and \<open>junk\<close> the four bytes that lie above a 32-bit \<^verbatim>\<open>int\<close> on the stack, which
  \<^verbatim>\<open>AddInteger::eval\<close> reads together with it. Signed additions wrap, as the 64-bit targets'
  instructions do. \<open>None\<close> is an access outside an array or through a null pointer, or a run
  that never ends.
\<close>

section \<open>State\<close>

record VMThread =
  thread_id :: u64
  stack_size :: u64
  top_of_stack_address :: u64
  current_function :: "Function option"
  current_label_block :: "nat option"
  current_order_index :: u64
  return_function :: bool
  thread_allocator :: HeapAllocator
  allocator_search_start_index :: nat

record run_state =
  vm_thread :: VMThread
  registers :: "u64 list"
  variables :: "u64 list"
  run_memory :: memory

definition get_register :: "run_state \<Rightarrow> u64 \<Rightarrow> u64 option" where
  "get_register s i = at (registers s) (unat i)"

definition set_register :: "run_state \<Rightarrow> u64 \<Rightarrow> u64 \<Rightarrow> run_state option" where
  "set_register s i v = do { rs \<leftarrow> put (registers s) (unat i) v; Some (s\<lparr>registers := rs\<rparr>) }"

section \<open>Evaluation of orders\<close>

text \<open>
  The sum that \<^verbatim>\<open>AddInteger::eval\<close> stores. Integers narrower than 32 bits are promoted to
  \<^verbatim>\<open>int\<close> before the addition, so the result of every type but the 64-bit ones is a 4-byte
  object, read back as eight bytes.
\<close>

definition widen :: "u32 \<Rightarrow> u32 \<Rightarrow> u64" where
  "widen junk result = push_bit 32 (ucast junk) OR ucast result"

fun integer_sum :: "u32 \<Rightarrow> PrimitiveType \<Rightarrow> u64 \<Rightarrow> u64 \<Rightarrow> u64" where
  "integer_sum junk i8 l r = widen junk (scast (ucast l :: 8 word) + scast (ucast r :: 8 word))"
| "integer_sum junk i16 l r = widen junk (scast (ucast l :: 16 word) + scast (ucast r :: 16 word))"
| "integer_sum junk i32 l r = widen junk (ucast l + ucast r)"
| "integer_sum junk i64 l r = l + r"
| "integer_sum junk u8 l r = widen junk (ucast (ucast l :: 8 word) + ucast (ucast r :: 8 word))"
| "integer_sum junk u16 l r = widen junk (ucast (ucast l :: 16 word) + ucast (ucast r :: 16 word))"
| "integer_sum junk u32 l r = widen junk (ucast l + ucast r)"
| "integer_sum junk u64 l r = l + r"
| "integer_sum junk type_void l r = 0"

text \<open>
  The loop of \<^verbatim>\<open>GetObjectFieldOwnership::eval\<close>. On a borrowed field it starts over without
  giving the object's lock back.
\<close>

partial_function (option) take_field :: "heap \<Rightarrow> addr \<Rightarrow> nat \<Rightarrow> OwnershipOrder \<Rightarrow> (addr \<times> heap) option" where
  "take_field h parent_object index ownership =
     do { h \<leftarrow> object_lock h parent_object;
          field_object \<leftarrow> get_object_field h parent_object index;
          if field_object = 1 then take_field h parent_object index ownership
          else do {
            h \<leftarrow> (case ownership of
                    clone \<Rightarrow> (if field_object \<noteq> nullptr
                              then upd_obj h field_object (\<lambda>ob. ob\<lparr>count := count ob + 1\<rparr>)
                              else Some h)
                  | borrow \<Rightarrow> set_object_field h parent_object index 1
                  | move \<Rightarrow> set_object_field h parent_object index 0);
            h \<leftarrow> object_unlock h parent_object;
            Some (field_object, h) } }"

text \<open>The waiting loop of \<^verbatim>\<open>SetObjectFieldOwnership::eval\<close>, which does give it back.\<close>

partial_function (option) store_field_waiting :: "heap \<Rightarrow> addr \<Rightarrow> nat \<Rightarrow> addr \<Rightarrow> heap option" where
  "store_field_waiting h parent_object index object_ptr =
     do { h \<leftarrow> object_lock h parent_object;
          field_object \<leftarrow> get_object_field h parent_object index;
          if field_object \<noteq> 1 then
            do { h \<leftarrow> set_object_field h parent_object index object_ptr; object_unlock h parent_object }
          else
            do { h \<leftarrow> object_unlock h parent_object;
                 store_field_waiting h parent_object index object_ptr } }"

definition store_field :: "bool \<Rightarrow> heap \<Rightarrow> addr \<Rightarrow> nat \<Rightarrow> addr \<Rightarrow> heap option" where
  "store_field borrow_lock h parent_object index object_ptr =
     (if borrow_lock then store_field_waiting h parent_object index object_ptr
      else do { h \<leftarrow> object_lock h parent_object;
                h \<leftarrow> set_object_field h parent_object index object_ptr;
                object_unlock h parent_object })"

definition GetConstInteger_eval :: "Module \<Rightarrow> u64 \<Rightarrow> u64 \<Rightarrow> run_state \<Rightarrow> run_state option" where
  "GetConstInteger_eval md result index s =
     do { c \<leftarrow> at (const_values md) (unat index);
          v \<leftarrow> read_u64 (value_reference c);
          set_register s result v }"

definition GetArgument_eval :: "u64 list \<Rightarrow> u64 \<Rightarrow> u64 \<Rightarrow> run_state \<Rightarrow> run_state option" where
  "GetArgument_eval arguments result index s =
     do { v \<leftarrow> at arguments (unat index); set_register s result v }"

definition AddInteger_eval :: "u32 \<Rightarrow> PrimitiveType \<Rightarrow> u64 \<Rightarrow> u64 \<Rightarrow> u64 \<Rightarrow> run_state \<Rightarrow> run_state option" where
  "AddInteger_eval junk type result left right s =
     (if type = type_void then Some s
      else do { l \<leftarrow> get_register s left;
                r \<leftarrow> get_register s right;
                set_register s result (integer_sum junk type l r) })"

definition JumpToLabel_eval :: "nat option \<Rightarrow> run_state \<Rightarrow> run_state option" where
  "JumpToLabel_eval label s =
     Some (s\<lparr>vm_thread := (vm_thread s)\<lparr>current_label_block := label, current_order_index := 0\<rparr>\<rparr>)"

definition ReturnFunction_eval :: "u64 \<Rightarrow> run_state \<Rightarrow> run_state option" where
  "ReturnFunction_eval result s =
     do { function \<leftarrow> current_function (vm_thread s);
          v \<leftarrow> get_register s result;
          s \<leftarrow> set_register s (registers_size function) v;
          Some (s\<lparr>vm_thread := (vm_thread s)\<lparr>return_function := True\<rparr>\<rparr>) }"

definition NewClassObject_eval :: "(type_ptr \<Rightarrow> bool) \<Rightarrow> u64 \<Rightarrow> type_ptr option \<Rightarrow> u64 \<Rightarrow> run_state \<Rightarrow> run_state option" where
  "NewClassObject_eval cyc result using_type length' s =
     do { t \<leftarrow> using_type;
          let thread = vm_thread s;
          (al, m, object, start) \<leftarrow> HeapAllocator_malloc cyc t length' (thread_allocator thread)
            (allocator_search_start_index thread) (run_memory s);
          set_register (s\<lparr>vm_thread := thread\<lparr>thread_allocator := al, allocator_search_start_index := start\<rparr>,
                          run_memory := m\<rparr>) result object }"

definition GetObjectFieldOwnership_eval :: "u64 \<Rightarrow> u64 \<Rightarrow> u64 \<Rightarrow> OwnershipOrder \<Rightarrow> run_state \<Rightarrow> run_state option" where
  "GetObjectFieldOwnership_eval target result index ownership s =
     do { parent_object \<leftarrow> get_register s target;
          (field_object, h) \<leftarrow> take_field (heap (run_memory s)) parent_object (unat index) ownership;
          set_register (s\<lparr>run_memory := (run_memory s)\<lparr>heap := h\<rparr>\<rparr>) result field_object }"

definition SetObjectFieldOwnership_eval :: "u64 \<Rightarrow> u64 \<Rightarrow> u64 \<Rightarrow> bool \<Rightarrow> run_state \<Rightarrow> run_state option" where
  "SetObjectFieldOwnership_eval target object_register index borrow_lock s =
     do { parent_object \<leftarrow> get_register s target;
          object_ptr \<leftarrow> get_register s object_register;
          h \<leftarrow> store_field borrow_lock (heap (run_memory s)) parent_object (unat index) object_ptr;
          Some (s\<lparr>run_memory := (run_memory s)\<lparr>heap := h\<rparr>\<rparr>) }"

lemmas eval_defs [simp] = GetConstInteger_eval_def GetArgument_eval_def AddInteger_eval_def JumpToLabel_eval_def
  ReturnFunction_eval_def NewClassObject_eval_def GetObjectFieldOwnership_eval_def SetObjectFieldOwnership_eval_def

text \<open>The virtual call \<^verbatim>\<open>order->eval(...)\<close>.\<close>

fun eval :: "(type_ptr \<Rightarrow> bool) \<Rightarrow> u32 \<Rightarrow> Module \<Rightarrow> u64 list \<Rightarrow> Order \<Rightarrow> run_state \<Rightarrow> run_state option" where
  "eval cyc junk md arguments (GetConstInteger type result index) s = GetConstInteger_eval md result index s"
| "eval cyc junk md arguments (GetArgument result index) s = GetArgument_eval arguments result index s"
| "eval cyc junk md arguments (AddInteger type result left right) s = AddInteger_eval junk type result left right s"
| "eval cyc junk md arguments (JumpToLabel name label) s = JumpToLabel_eval label s"
| "eval cyc junk md arguments (ReturnFunction result) s = ReturnFunction_eval result s"
| "eval cyc junk md arguments (NewClassObject result index using_type length') s =
     NewClassObject_eval cyc result using_type length' s"
| "eval cyc junk md arguments (GetObjectFieldOwnership target result utype name index ownership) s =
     GetObjectFieldOwnership_eval target result index ownership s"
| "eval cyc junk md arguments (SetObjectFieldOwnership target object_register utype name index borrow_lock) s =
     SetObjectFieldOwnership_eval target object_register index borrow_lock s"

section \<open>Linking\<close>

text \<open>
  The search of the two field orders for their field's position. The message printed for a
  field that holds no reference is not part of the state; the flag is still read.
\<close>

fun find_field :: "u8 list \<Rightarrow> string \<Rightarrow> Field list \<Rightarrow> nat \<Rightarrow> u64 \<Rightarrow> u64 option" where
  "find_field flags name [] i old = Some old"
| "find_field flags name (field # rest) i old =
     (if field_name field = name then do { flag \<leftarrow> get_flag flags i; Some (of_nat i) }
      else find_field flags name rest (Suc i) old)"

definition link_field :: "modules \<Rightarrow> Module \<Rightarrow> u64 \<Rightarrow> string \<Rightarrow> u64 \<Rightarrow> u64 option" where
  "link_field ms md utype name index =
     (if name = '''' then Some index
      else do { p \<leftarrow> at (using_types md) (unat utype);
                t \<leftarrow> p;
                type \<leftarrow> type_at ms t;
                case reference_fields type of
                  None \<Rightarrow> find_field [] name (all_fields type) 0 index
                | Some flags \<Rightarrow> find_field flags name (all_fields type) 0 index })"

definition GetObjectFieldOwnership_link :: "modules \<Rightarrow> Module \<Rightarrow> u64 \<Rightarrow> u64 \<Rightarrow> u64 \<Rightarrow> string \<Rightarrow> u64 \<Rightarrow> OwnershipOrder \<Rightarrow>
    Order option" where [simp]:
  "GetObjectFieldOwnership_link ms md target result utype name index ownership =
     do { i \<leftarrow> link_field ms md utype name index;
          Some (GetObjectFieldOwnership target result utype name i ownership) }"

definition SetObjectFieldOwnership_link :: "modules \<Rightarrow> Module \<Rightarrow> u64 \<Rightarrow> u64 \<Rightarrow> u64 \<Rightarrow> string \<Rightarrow> u64 \<Rightarrow> bool \<Rightarrow>
    Order option" where [simp]:
  "SetObjectFieldOwnership_link ms md target object_register utype name index borrow_lock =
     do { i \<leftarrow> link_field ms md utype name index;
          Some (SetObjectFieldOwnership target object_register utype name i borrow_lock) }"

definition JumpToLabel_link :: "Function \<Rightarrow> string \<Rightarrow> Order option" where
  "JumpToLabel_link function name = Some (JumpToLabel name (label_block_map function name))"

definition NewClassObject_link :: "Module \<Rightarrow> u64 \<Rightarrow> u64 \<Rightarrow> u64 \<Rightarrow> Order option" where
  "NewClassObject_link md result index length' =
     do { t \<leftarrow> at (using_types md) (unat index); Some (NewClassObject result index t length') }"

fun link :: "modules \<Rightarrow> Module \<Rightarrow> Function \<Rightarrow> Order \<Rightarrow> Order option" where
  "link ms md function (JumpToLabel name label) = JumpToLabel_link function name"
| "link ms md function (NewClassObject result index using_type length') = NewClassObject_link md result index length'"
| "link ms md function (GetObjectFieldOwnership target result utype name index ownership) =
     GetObjectFieldOwnership_link ms md target result utype name index ownership"
| "link ms md function (SetObjectFieldOwnership target object_register utype name index borrow_lock) =
     SetObjectFieldOwnership_link ms md target object_register utype name index borrow_lock"
| "link ms md function (GetConstInteger type result index) = Some (GetConstInteger type result index)"
| "link ms md function (GetArgument result index) = Some (GetArgument result index)"
| "link ms md function (AddInteger type result left right) = Some (AddInteger type result left right)"
| "link ms md function (ReturnFunction result) = Some (ReturnFunction result)"

section \<open>Running a function\<close>

text \<open>The order the thread is about to execute: \<^verbatim>\<open>current_label_block->orders[current_order_index]\<close>.\<close>

definition block_of :: "VMThread \<Rightarrow> LabelBlock option" where
  "block_of t = do { f \<leftarrow> current_function t; b \<leftarrow> current_label_block t; at (label_blocks f) b }"

text \<open>
  One round of the loop, and whether it is the last. The index is advanced after every order,
  a jump included.
\<close>

definition run_round :: "(type_ptr \<Rightarrow> bool) \<Rightarrow> u32 \<Rightarrow> Module \<Rightarrow> u64 list \<Rightarrow> run_state \<Rightarrow>
    (bool \<times> run_state) option" where
  "run_round cyc junk md arguments s =
     do { block \<leftarrow> block_of (vm_thread s);
          order \<leftarrow> at (orders block) (unat (current_order_index (vm_thread s)));
          s \<leftarrow> eval cyc junk md arguments order s;
          let t = (vm_thread s)\<lparr>current_order_index := current_order_index (vm_thread s) + 1\<rparr>;
          block \<leftarrow> block_of t;
          if current_order_index t = of_nat (length (orders block)) \<or> return_function t
          then Some (True, s\<lparr>vm_thread := t\<lparr>return_function := False\<rparr>\<rparr>)
          else Some (False, s\<lparr>vm_thread := t\<rparr>) }"

partial_function (option) run_loop :: "(type_ptr \<Rightarrow> bool) \<Rightarrow> u32 \<Rightarrow> Module \<Rightarrow> u64 list \<Rightarrow> run_state \<Rightarrow>
    run_state option" where
  "run_loop cyc junk md arguments s =
     do { (finished, s) \<leftarrow> run_round cyc junk md arguments s;
          if finished then Some s else run_loop cyc junk md arguments s }"

definition run_function :: "(type_ptr \<Rightarrow> bool) \<Rightarrow> u32 \<Rightarrow> (nat \<Rightarrow> u64) \<Rightarrow> VMThread \<Rightarrow> Module \<Rightarrow> Function \<Rightarrow>
    u64 list \<Rightarrow> memory \<Rightarrow> (u64 \<times> VMThread \<times> memory) option" where
  "run_function cyc junk uninit thread md function arguments m =
     do { let regs = map uninit [0..<unat (registers_size function + 1)];
          let vars = map uninit [0..<unat (variables_size function)];
          block \<leftarrow> at (label_blocks function) 0;
          s \<leftarrow> run_loop cyc junk md arguments
                 \<lparr>vm_thread = thread\<lparr>current_function := Some function, current_label_block := Some 0,
                    current_order_index := 0\<rparr>, registers = regs, variables = vars, run_memory = m\<rparr>;
          result \<leftarrow> get_register s (registers_size function);
          Some (result, vm_thread s, run_memory s) }"

end
