(* ===== verification/Interpreter_Correct.thy ===== *)
theory Interpreter_Correct
  imports Interpreter
begin

text \<open>
  Correctness of the interpreter: integer addition at every width, the run loop against a
  big-step semantics of label blocks, termination of functions without backward jumps, and
  the field orders.
\<close>

section \<open>Integer addition\<close>

lemma take_bit_widen: "k \<le> 32 \<Longrightarrow> take_bit k (widen junk w) = take_bit k (ucast w)"
  by (rule bit_word_eqI) (auto simp: widen_def bit_take_bit_iff bit_or_iff bit_push_bit_iff bit_ucast_iff)

lemma unat_low: "unat (take_bit k w) = unat (w :: 'a::len word) mod 2 ^ k"
  using take_bit_eq_mod [of k "unat w"] by (simp add: unsigned_take_bit_eq)

lemma unat_take_bit_add:
  fixes a b :: "'a::len word"
  assumes "k \<le> LENGTH('a)"
  shows "unat (take_bit k (a + b)) = (unat (take_bit k a) + unat (take_bit k b)) mod 2 ^ k"
proof -
  have "(unat a + unat b) mod 2 ^ LENGTH('a) mod 2 ^ k = (unat a + unat b) mod 2 ^ k"
    by (rule mod_mod_cancel) (simp add: assms le_imp_power_dvd)
  then show ?thesis by (simp add: unat_low unat_word_ariths mod_simps)
qed

lemma low_bits_ucast:
  fixes w :: "'a::len word"
  assumes "k \<le> LENGTH('b)"
  shows "unat (take_bit k (ucast w :: 'b::len word)) = unat (take_bit k w)"
  using assms by (simp add: unsigned_take_bit_eq unsigned_ucast_eq min_def)

text \<open>The low bits of a sum depend on the low bits of its arguments only, at any width.\<close>

lemma low_bits_add:
  fixes a b :: u32 and l r :: u64
  assumes "k \<le> 32" "unat (take_bit k a) = unat (take_bit k l)" "unat (take_bit k b) = unat (take_bit k r)"
  shows "take_bit k (ucast (a + b)) = take_bit k (l + r)"
proof -
  have "unat (take_bit k (ucast (a + b) :: u64)) = unat (take_bit k (a + b))"
    using assms(1) by (simp add: low_bits_ucast)
  also have "\<dots> = unat (take_bit k (l + r))" using assms by (simp add: unat_take_bit_add)
  finally show ?thesis by (simp add: word_unat_eq_iff)
qed

lemma low_bits_scast:
  fixes w :: "'a::len word"
  assumes "k \<le> LENGTH('a)" "k \<le> LENGTH('b)"
  shows "unat (take_bit k (scast w :: 'b::len word)) = unat (take_bit k w)"
proof -
  have "take_bit k (scast w :: 'b word) = ucast (take_bit k w)"
    using assms by (intro bit_word_eqI) (auto simp: bit_take_bit_iff bit_signed_iff bit_ucast_iff dest: bit_imp_le_length)
  then show ?thesis using assms
    by (metis low_bits_ucast take_bit_tightened unsigned_take_bit_eq)
qed

lemma integer_sum_low_bits: "take_bit (width t) (integer_sum junk t l r) = take_bit (width t) (l + r)"
  by (cases t) (simp_all add: take_bit_widen low_bits_add low_bits_ucast low_bits_scast)

section \<open>A big-step semantics of label blocks\<close>

text \<open>
  What an order that only computes does to the registers.
\<close>

fun data_step :: "u32 \<Rightarrow> Module \<Rightarrow> u64 list \<Rightarrow> Order \<Rightarrow> u64 list \<Rightarrow> u64 list option" where
  "data_step junk md args (GetConstInteger t r i) rs =
     do { c \<leftarrow> at (const_values md) (unat i); v \<leftarrow> read_u64 (value_reference c); put rs (unat r) v }"
| "data_step junk md args (GetArgument r i) rs = do { v \<leftarrow> at args (unat i); put rs (unat r) v }"
| "data_step junk md args (AddInteger t r a b) rs =
     (if t = type_void then Some rs
      else do { x \<leftarrow> at rs (unat a); y \<leftarrow> at rs (unat b); put rs (unat r) (integer_sum junk t x y) })"
| "data_step junk md args _ rs = None"

text \<open>
  \<open>block_exec \<dots> os rs rs'\<close>: from registers \<open>rs\<close> the orders \<open>os\<close>, the rest of a block, end with
  registers \<open>rs'\<close>. The end of a block ends the function, and so does a return, which leaves its
  value in the last register. A jump continues with the orders of its target from the second
  one on.
\<close>

inductive block_exec :: "u32 \<Rightarrow> Module \<Rightarrow> u64 list \<Rightarrow> Function \<Rightarrow> Order list \<Rightarrow> u64 list \<Rightarrow> u64 list \<Rightarrow> bool"
  for junk md args f where
  End: "block_exec junk md args f [] rs rs"
| Data: "data_step junk md args ord rs = Some rs' \<Longrightarrow> block_exec junk md args f os rs' rs'' \<Longrightarrow>
    block_exec junk md args f (ord # os) rs rs''"
| Jump: "at (label_blocks f) b = Some blk \<Longrightarrow> orders blk = o1 # os' \<Longrightarrow>
    block_exec junk md args f os' rs rs' \<Longrightarrow> block_exec junk md args f (JumpToLabel n (Some b) # os) rs rs'"
| Return: "at rs (unat r) = Some v \<Longrightarrow> put rs (unat (registers_size f)) v = Some rs' \<Longrightarrow>
    block_exec junk md args f (ReturnFunction r # os) rs rs'"

inductive_cases block_exec_NilE: "block_exec junk md args f [] rs rs'"
inductive_cases block_exec_ConsE: "block_exec junk md args f (ord # os) rs rs'"

text \<open>Functions that use no heap order, with blocks of a representable length.\<close>

fun pure_order :: "Order \<Rightarrow> bool" where
  "pure_order (GetConstInteger t r i) = True"
| "pure_order (GetArgument r i) = True"
| "pure_order (AddInteger t r a b) = True"
| "pure_order (JumpToLabel n l) = True"
| "pure_order (ReturnFunction r) = True"
| "pure_order _ = False"

definition pure_function :: "Function \<Rightarrow> bool" where
  "pure_function f = (\<forall>blk \<in> set (label_blocks f). length (orders blk) < 2 ^ 64 \<and> (\<forall>ord \<in> set (orders blk). pure_order ord))"

text \<open>The state of the loop before the \<open>k\<close>-th order of block \<open>b\<close>.\<close>

definition at_order :: "Function \<Rightarrow> nat \<Rightarrow> nat \<Rightarrow> VMThread \<Rightarrow> VMThread" where
  "at_order f b k t = t\<lparr>current_function := Some f, current_label_block := Some b, current_order_index := of_nat k,
     return_function := False\<rparr>"

lemma at_order_simps [simp]:
  "block_of (at_order f b k t) = at (label_blocks f) b"
  "current_order_index (at_order f b k t) = of_nat k"
  "current_function (at_order f b k t) = Some f"
  "\<not> return_function (at_order f b k t)"
  by (simp_all add: at_order_def block_of_def)

abbreviation head :: "Function \<Rightarrow> nat \<Rightarrow> nat \<Rightarrow> run_state \<Rightarrow> u64 list \<Rightarrow> run_state" where
  "head f b k s rs \<equiv> s\<lparr>vm_thread := at_order f b k (vm_thread s), registers := rs\<rparr>"

lemma data_step_eval:
  assumes "pure_order ord" "\<forall>n l. ord \<noteq> JumpToLabel n l" "\<forall>r. ord \<noteq> ReturnFunction r"
  shows "eval cyc junk md args ord s = map_option (\<lambda>rs. s\<lparr>registers := rs\<rparr>) (data_step junk md args ord (registers s))"
  using assms by (cases ord) (auto simp: set_register_def get_register_def map_option_case bind_eq_Some_conv
      split: option.splits Option.bind_splits)

lemma of_nat_eq_length:
  assumes "k < length xs" "length xs < 2 ^ 64"
  shows "unat (of_nat k :: u64) = k" "(of_nat k + 1 = (of_nat (length xs) :: u64)) \<longleftrightarrow> Suc k = length xs"
proof -
  show "unat (of_nat k :: u64) = k" using assms by (intro unat_of_nat_id) simp
  have "of_nat k + 1 = (of_nat (Suc k) :: u64)" by simp
  moreover have "unat (of_nat (Suc k) :: u64) = Suc k" "unat (of_nat (length xs) :: u64) = length xs"
    using assms by (intro unat_of_nat_id; simp)+
  ultimately show "(of_nat k + 1 = (of_nat (length xs) :: u64)) \<longleftrightarrow> Suc k = length xs"
    by (metis word_unat_eq_iff)
qed

lemma round_data:
  assumes "at (label_blocks f) b = Some blk" "k < length (orders blk)" "length (orders blk) < 2 ^ 64"
    and "orders blk ! k = ord" "pure_order ord" "\<forall>n l. ord \<noteq> JumpToLabel n l" "\<forall>r. ord \<noteq> ReturnFunction r"
  shows "run_round cyc junk md args (head f b k s rs) =
    map_option (\<lambda>rs'. (Suc k = length (orders blk), head f b (Suc k) s rs')) (data_step junk md args ord rs)"
  using assms of_nat_eq_length [OF assms(2,3)]
  by (cases "data_step junk md args ord rs")
    (simp_all add: run_round_def data_step_eval at_def [of "orders blk"] Let_def at_order_def block_of_def add.commute)

lemma round_jump:
  assumes "at (label_blocks f) b = Some blk" "k < length (orders blk)" "length (orders blk) < 2 ^ 64"
    and "orders blk ! k = JumpToLabel n (Some b')" "at (label_blocks f) b' = Some blk'" "length (orders blk') < 2 ^ 64"
  shows "run_round cyc junk md args (head f b k s rs) = Some (length (orders blk') = 1, head f b' 1 s rs)"
proof -
  have "unat (of_nat (length (orders blk')) :: u64) = length (orders blk')"
    using assms(6) by (intro unat_of_nat_id) simp
  then have "(1 = (of_nat (length (orders blk')) :: u64)) \<longleftrightarrow> length (orders blk') = 1"
    by (metis of_nat_1 unat_1)
  then show ?thesis using assms of_nat_eq_length [OF assms(2,3)]
    by (simp add: run_round_def at_def [of "orders blk"] Let_def at_order_def block_of_def)
qed

lemma round_bad_jump:
  assumes "at (label_blocks f) b = Some blk" "k < length (orders blk)" "length (orders blk) < 2 ^ 64"
    and "orders blk ! k = JumpToLabel n l" "Option.bind l (at (label_blocks f)) = None"
  shows "run_round cyc junk md args (head f b k s rs) = None"
  using assms of_nat_eq_length [OF assms(2,3)]
  by (cases l) (simp_all add: run_round_def at_def [of "orders blk"] Let_def at_order_def block_of_def)

lemma round_return:
  assumes "at (label_blocks f) b = Some blk" "k < length (orders blk)" "length (orders blk) < 2 ^ 64"
    and "orders blk ! k = ReturnFunction r"
  shows "run_round cyc junk md args (head f b k s rs) =
    do { v \<leftarrow> at rs (unat r); rs' \<leftarrow> put rs (unat (registers_size f)) v; Some (True, head f b (Suc k) s rs') }"
  using assms of_nat_eq_length [OF assms(2,3)]
  by (simp add: run_round_def at_def [of "orders blk"] Let_def at_order_def block_of_def get_register_def
      set_register_def add.commute split: Option.bind_splits)

lemma round_end:
  assumes "at (label_blocks f) b = Some blk" "length (orders blk) \<le> k" "k < 2 ^ 64"
  shows "run_round cyc junk md args (head f b k s rs) = None"
  using assms by (simp add: run_round_def at_order_def block_of_def at_def [of "orders blk"] unat_of_nat_id)

lemma pure_functionD:
  assumes "pure_function f" "at (label_blocks f) b = Some blk"
  shows "length (orders blk) < 2 ^ 64" "k < length (orders blk) \<Longrightarrow> pure_order (orders blk ! k)"
  using assms at_in_set by (fastforce simp: pure_function_def)+

text \<open>The loop runs what the semantics derives \<dots>\<close>

lemma run_loop_complete:
  assumes "block_exec junk md args f os rs rs'" "pure_function f" "at (label_blocks f) b = Some blk"
    "os = drop k (orders blk)" "k < length (orders blk)"
  shows "\<exists>b' k'. run_loop cyc junk md args (head f b k s rs) = Some (head f b' k' s rs')"
  using assms
proof (induction arbitrary: b blk k rule: block_exec.induct)
  case (End rs)
  then show ?case by simp
next
  case (Data ord rs rs1 os rs2)
  have at_k: "orders blk ! k = ord" "os = drop (Suc k) (orders blk)"
    using Data.prems(3,4) by (metis nth_via_drop, metis drop_Suc list.sel(3) tl_drop)
  have "\<forall>n l. ord \<noteq> JumpToLabel n l" "\<forall>r. ord \<noteq> ReturnFunction r" "pure_order ord"
    using Data.hyps(1) pure_functionD(2) [OF Data.prems(1,2,4)] at_k(1) by auto
  then have round: "run_round cyc junk md args (head f b k s rs) =
      Some (Suc k = length (orders blk), head f b (Suc k) s rs1)"
    using round_data [OF Data.prems(2,4) pure_functionD(1) [OF Data.prems(1,2)] at_k(1)] Data.hyps(1) by simp
  show ?case
  proof (cases "Suc k = length (orders blk)")
    case True
    then have "rs2 = rs1" using Data.hyps(2) at_k(2) by (auto elim: block_exec_NilE)
    then show ?thesis using True round by (subst run_loop.simps) auto
  next
    case False
    then have "Suc k < length (orders blk)" using Data.prems(4) by simp
    from Data.IH [OF Data.prems(1,2) at_k(2) this] show ?thesis
      using False round by (subst run_loop.simps) auto
  qed
next
  case (Jump b1 blk1 o1 os' rs rs' n os)
  have at_k: "orders blk ! k = JumpToLabel n (Some b1)" using Jump.prems(3) by (metis nth_via_drop)
  have round: "run_round cyc junk md args (head f b k s rs) = Some (length (orders blk1) = 1, head f b1 1 s rs)"
    using round_jump [OF Jump.prems(2,4) pure_functionD(1) [OF Jump.prems(1,2)] at_k Jump.hyps(1)]
      pure_functionD(1) [OF Jump.prems(1) Jump.hyps(1)] by simp
  show ?case
  proof (cases "os' = []")
    case True
    then have "rs' = rs" using Jump.hyps(3) by (auto elim: block_exec_NilE)
    then show ?thesis using True round Jump.hyps(2) by (subst run_loop.simps) auto
  next
    case False
    have "os' = drop 1 (orders blk1)" "1 < length (orders blk1)" using Jump.hyps(2) False by auto
    from Jump.IH [OF Jump.prems(1) Jump.hyps(1) this] show ?thesis
      using False round Jump.hyps(2) by (subst run_loop.simps) auto
  qed
next
  case (Return rs r v rs' os)
  have at_k: "orders blk ! k = ReturnFunction r" using Return.prems(3) by (metis nth_via_drop)
  then show ?case
    using round_return [OF Return.prems(2,4) pure_functionD(1) [OF Return.prems(1,2)] at_k] Return.hyps
    by (subst run_loop.simps) auto
qed

text \<open>\<dots> and nothing else.\<close>

lemma drop_nth_Cons: "k < length xs \<Longrightarrow> drop k xs = xs ! k # drop (Suc k) xs"
  by (simp add: Cons_nth_drop_Suc)

lemma round_sound:
  assumes "run_round cyc junk md args (head f b k s rs) = Some (finished, s1)" "pure_function f"
    "at (label_blocks f) b = Some blk" "k < 2 ^ 64"
  shows "k < length (orders blk) \<and> (\<exists>b1 k1 rs1 blk1. s1 = head f b1 k1 s rs1 \<and> k1 < 2 ^ 64 \<and>
    at (label_blocks f) b1 = Some blk1 \<and>
    (if finished then block_exec junk md args f (drop k (orders blk)) rs rs1
     else k1 < length (orders blk1) \<longrightarrow> (\<forall>rs'. block_exec junk md args f (drop k1 (orders blk1)) rs1 rs' \<longrightarrow>
       block_exec junk md args f (drop k (orders blk)) rs rs')))"
proof -
  have k: "k < length (orders blk)"
    using round_end [OF assms(3) _ assms(4), where cyc = cyc and junk = junk and md = md and args = args and s = s and rs = rs] assms(1) by (cases "k < length (orders blk)") auto
  note bounds = assms(3) k pure_functionD(1) [OF assms(2,3)]
  have pure: "pure_order (orders blk ! k)" using pure_functionD(2) [OF assms(2,3) k] .
  note dk = drop_nth_Cons [OF k]
  show ?thesis
  proof (cases "\<exists>n l. orders blk ! k = JumpToLabel n l")
    case True
    then obtain n l where nl: "orders blk ! k = JumpToLabel n l" by blast
    then obtain b1 blk1 where l: "l = Some b1" "at (label_blocks f) b1 = Some blk1"
      using round_bad_jump [OF bounds nl, where cyc = cyc and junk = junk and md = md and args = args and s = s and rs = rs] assms(1)
      by (cases l; cases "Option.bind l (at (label_blocks f))") auto
    have r: "finished = (length (orders blk1) = 1)" "s1 = head f b1 1 s rs"
      using round_jump [OF bounds nl [unfolded l(1)] l(2) pure_functionD(1) [OF assms(2) l(2)], where cyc = cyc and junk = junk and md = md and args = args and s = s and rs = rs]
        assms(1) by auto
    have e: "block_exec junk md args f (drop k (orders blk)) rs rs'"
      if "block_exec junk md args f (drop 1 (orders blk1)) rs rs'" "orders blk1 \<noteq> []" for rs'
      using that nl l dk by (cases "orders blk1") (auto intro: block_exec.Jump)
    then have "block_exec junk md args f (drop k (orders blk)) rs rs" if "length (orders blk1) = 1"
      using that block_exec.End [of junk md args f rs] by (cases "orders blk1") auto
    moreover have "\<forall>rs'. block_exec junk md args f (drop 1 (orders blk1)) rs rs' \<longrightarrow>
        block_exec junk md args f (drop k (orders blk)) rs rs'" if "1 < length (orders blk1)"
      using that e by (cases "orders blk1") auto
    ultimately show ?thesis using r l(2)
      by - (rule conjI [OF k], rule exI [of _ b1], rule exI [of _ 1], rule exI [of _ rs], rule exI [of _ blk1], auto)
  next
    case no_jump: False
    show ?thesis
    proof (cases "\<exists>r. orders blk ! k = ReturnFunction r")
      case True
      then obtain r where r: "orders blk ! k = ReturnFunction r" by blast
      obtain v rs1 where "at rs (unat r) = Some v" "put rs (unat (registers_size f)) v = Some rs1"
        "finished" "s1 = head f b (Suc k) s rs1"
        using round_return [OF bounds r, where cyc = cyc and junk = junk and md = md and args = args and s = s and rs = rs] assms(1)
        by (fastforce simp: bind_Some_iff dest: sym [of "Some _"])
      moreover from this have "block_exec junk md args f (drop k (orders blk)) rs rs1"
        using r dk by (auto intro: block_exec.Return)
      ultimately show ?thesis using assms(3) k bounds(3)
        by - (rule conjI [OF k], rule exI [of _ b], rule exI [of _ "Suc k"], rule exI [of _ rs1], rule exI [of _ blk], auto)
    next
      case False
      then obtain rs1 where d: "data_step junk md args (orders blk ! k) rs = Some rs1"
        "finished = (Suc k = length (orders blk))" "s1 = head f b (Suc k) s rs1"
        using round_data [OF bounds refl pure, where cyc = cyc and junk = junk and md = md and args = args and s = s and rs = rs] no_jump assms(1)
        by (cases "data_step junk md args (orders blk ! k) rs") auto
      have e: "block_exec junk md args f (drop k (orders blk)) rs rs'"
        if "block_exec junk md args f (drop (Suc k) (orders blk)) rs1 rs'" for rs'
        using that d(1) dk by (auto intro: block_exec.Data)
      then have "block_exec junk md args f (drop k (orders blk)) rs rs1" if "Suc k = length (orders blk)"
        using that block_exec.End by simp
      then show ?thesis using d e assms(3) k bounds(3)
        by - (rule conjI [OF k], rule exI [of _ b], rule exI [of _ "Suc k"], rule exI [of _ rs1], rule exI [of _ blk], auto)
    qed
  qed
qed

lemma run_loop_sound:
  assumes "run_loop cyc junk md args (head f b k s rs) = Some s'" "pure_function f"
    "at (label_blocks f) b = Some blk" "k < 2 ^ 64"
  shows "\<exists>b' k' rs'. s' = head f b' k' s rs' \<and> k < length (orders blk) \<and>
    block_exec junk md args f (drop k (orders blk)) rs rs'"
proof -
  let ?P = "\<lambda>cyc junk md args st s'. \<forall>b k rs blk. st = head f b k s rs \<longrightarrow> at (label_blocks f) b = Some blk \<longrightarrow> k < 2 ^ 64 \<longrightarrow>
    (\<exists>b' k' rs'. s' = head f b' k' s rs' \<and> k < length (orders blk) \<and>
      block_exec junk md args f (drop k (orders blk)) rs rs')"
  have "?P cyc junk md args (head f b k s rs) s'"
  proof (rule run_loop.raw_induct [where P = ?P, OF _ assms(1)], intro allI impI)
    fix loop cyc junk md args st s' b k rs blk
    assume IH: "\<And>cyc junk md args st s'. loop cyc junk md args st = Some s' \<Longrightarrow> ?P cyc junk md args st s'"
      and body: "(run_round cyc junk md args st \<bind> (\<lambda>(finished, s). if finished then Some s else loop cyc junk md args s)) = Some s'"
      and st: "st = head f b k s rs" "at (label_blocks f) b = Some blk" "k < 2 ^ 64"
    from body obtain finished s1 where r: "run_round cyc junk md args st = Some (finished, s1)"
      and next': "if finished then s' = s1 else loop cyc junk md args s1 = Some s'"
      by (cases "run_round cyc junk md args st") (auto split: if_splits)
    from round_sound [OF r [unfolded st(1)] assms(2) st(2,3)] obtain b1 k1 rs1 blk1 where
      k: "k < length (orders blk)" and s1: "s1 = head f b1 k1 s rs1" "k1 < 2 ^ 64" "at (label_blocks f) b1 = Some blk1"
      and e: "if finished then block_exec junk md args f (drop k (orders blk)) rs rs1
        else k1 < length (orders blk1) \<longrightarrow> (\<forall>rs'. block_exec junk md args f (drop k1 (orders blk1)) rs1 rs' \<longrightarrow>
          block_exec junk md args f (drop k (orders blk)) rs rs')" by blast
    show "\<exists>b' k' rs'. s' = head f b' k' s rs' \<and> k < length (orders blk) \<and>
        block_exec junk md args f (drop k (orders blk)) rs rs'"
    proof (cases finished)
      case True
      then show ?thesis using next' e k s1(1) by auto
    next
      case False
      then have "loop cyc junk md args s1 = Some s'" using next' by simp
      from IH [OF this] s1 obtain b' k' rs' where "s' = head f b' k' s rs'" "k1 < length (orders blk1)"
        "block_exec junk md args f (drop k1 (orders blk1)) rs1 rs'" by blast
      then show ?thesis using False e k by auto
    qed
  qed
  then show ?thesis using assms(3,4) by blast
qed

lemma run_function_unfold:
  assumes "\<not> return_function t" "label_blocks f = blk # blks"
  shows "run_function cyc junk uninit t md f args m =
    do { s \<leftarrow> run_loop cyc junk md args (head f 0 0
           \<lparr>vm_thread = t, registers = [], variables = map uninit [0..<unat (variables_size f)], run_memory = m\<rparr>
           (map uninit [0..<unat (registers_size f + 1)]));
         v \<leftarrow> get_register s (registers_size f);
         Some (v, vm_thread s, run_memory s) }"
proof -
  have "t\<lparr>current_function := Some f, current_label_block := Some 0, current_order_index := 0\<rparr> = at_order f 0 0 t"
    using assms(1) by (cases t) (simp add: at_order_def)
  then show ?thesis using assms(2) by (simp add: run_function_def at_def)
qed

lemma run_function_spec:
  assumes "pure_function f" "\<not> return_function t" "label_blocks f = blk # blks" "orders blk \<noteq> []"
  shows "(\<exists>t'. run_function cyc junk uninit t md f args m = Some (v, t', m') \<and> \<not> return_function t' \<and>
      thread_id t' = thread_id t \<and> thread_allocator t' = thread_allocator t \<and>
      allocator_search_start_index t' = allocator_search_start_index t) \<longleftrightarrow>
    m' = m \<and> (\<exists>rs. block_exec junk md args f (orders blk) (map uninit [0..<unat (registers_size f + 1)]) rs \<and>
      at rs (unat (registers_size f)) = Some v)"
  (is "?run \<longleftrightarrow> ?sem")
proof -
  let ?s = "\<lparr>vm_thread = t, registers = [], variables = map uninit [0..<unat (variables_size f)], run_memory = m\<rparr>"
  let ?rs = "map uninit [0..<unat (registers_size f + 1)]"
  have blk: "at (label_blocks f) 0 = Some blk" using assms(3) by (simp add: at_def)
  note unfold = run_function_unfold [OF assms(2,3)]
  show ?thesis
  proof
    assume ?run
    then obtain s' where s': "run_loop cyc junk md args (head f 0 0 ?s ?rs) = Some s'"
      "get_register s' (registers_size f) = Some v" "m' = run_memory s'"
      unfolding unfold by (auto simp: bind_Some_iff)
    from run_loop_sound [OF s'(1) assms(1) blk] obtain b k rs where
      "s' = head f b k ?s rs" "block_exec junk md args f (orders blk) ?rs rs" by auto
    then show ?sem using s' by (auto simp: get_register_def)
  next
    assume sem: ?sem
    then obtain rs where rs: "block_exec junk md args f (orders blk) ?rs rs" "at rs (unat (registers_size f)) = Some v" by blast
    from run_loop_complete [OF rs(1) assms(1) blk, of 0 cyc ?s] obtain b k where
      "run_loop cyc junk md args (head f 0 0 ?s ?rs) = Some (head f b k ?s rs)" using assms(4) by auto
    then show ?run using rs(2) sem unfolding unfold by (auto simp: get_register_def at_order_def)
  qed
qed

section \<open>Termination\<close>

text \<open>
  A static check under which every run returns: indices inside their arrays, and jumps that
  only go to later, non-empty blocks.
\<close>

fun order_ok :: "Module \<Rightarrow> nat \<Rightarrow> Function \<Rightarrow> nat \<Rightarrow> Order \<Rightarrow> bool" where
  "order_ok md n f b (GetConstInteger t r i) =
     (r \<le> registers_size f \<and> unat i < length (const_values md) \<and> 8 \<le> length (value_reference (const_values md ! unat i)))"
| "order_ok md n f b (GetArgument r i) = (r \<le> registers_size f \<and> unat i < n)"
| "order_ok md n f b (AddInteger t r x y) = (r \<le> registers_size f \<and> x \<le> registers_size f \<and> y \<le> registers_size f)"
| "order_ok md n f b (JumpToLabel name l) =
     (case l of None \<Rightarrow> False | Some b' \<Rightarrow> b < b' \<and> b' < length (label_blocks f) \<and> orders (label_blocks f ! b') \<noteq> [])"
| "order_ok md n f b (ReturnFunction r) = (r \<le> registers_size f)"
| "order_ok md n f b _ = False"

definition function_ok :: "Module \<Rightarrow> nat \<Rightarrow> Function \<Rightarrow> bool" where
  "function_ok md n f = (registers_size f \<noteq> SIZE_MAX \<and> label_blocks f \<noteq> [] \<and> orders (label_blocks f ! 0) \<noteq> [] \<and>
     (\<forall>b < length (label_blocks f). length (orders (label_blocks f ! b)) < 2 ^ 64 \<and>
       list_all (order_ok md n f b) (orders (label_blocks f ! b))))"

lemma order_ok_pure: "order_ok md n f b ord \<Longrightarrow> pure_order ord"
  by (cases ord) auto

lemma function_ok_pure: "function_ok md n f \<Longrightarrow> pure_function f"
  unfolding pure_function_def function_ok_def list_all_iff using order_ok_pure by (metis in_set_conv_nth)

lemma data_step_total:
  assumes "order_ok md (length args) f b ord" "length rs = unat (registers_size f) + 1"
    "\<forall>n l. ord \<noteq> JumpToLabel n l" "\<forall>r. ord \<noteq> ReturnFunction r"
  shows "\<exists>rs'. data_step junk md args ord rs = Some rs' \<and> length rs' = length rs"
  using assms by (cases ord) (auto simp: at_def put_def read_u64_def word_le_nat_alt less_Suc_eq_le)

lemma block_exec_total:
  assumes "function_ok md (length args) f" "list_all (order_ok md (length args) f b) os"
    "length rs = unat (registers_size f) + 1"
  shows "\<exists>rs'. block_exec junk md args f os rs rs' \<and> length rs' = length rs"
  using assms(2,3)
proof (induction "length (label_blocks f) - b" arbitrary: b os rs rule: less_induct)
  case less
  show ?case using less.prems
  proof (induction os arbitrary: rs)
    case Nil
    then show ?case using block_exec.End by blast
  next
    case (Cons ord os)
    then have ok: "order_ok md (length args) f b ord" "list_all (order_ok md (length args) f b) os" by simp_all
    consider (jump) n l where "ord = JumpToLabel n l" | (ret) r where "ord = ReturnFunction r"
      | (data) "\<forall>n l. ord \<noteq> JumpToLabel n l" "\<forall>r. ord \<noteq> ReturnFunction r" by blast
    then show ?case
    proof cases
      case jump
      then obtain b' where b': "l = Some b'" "b < b'" "b' < length (label_blocks f)" "orders (label_blocks f ! b') \<noteq> []"
        using ok(1) by (cases l) auto
      then obtain o1 os' where os': "orders (label_blocks f ! b') = o1 # os'" by (cases "orders (label_blocks f ! b')") auto
      have "list_all (order_ok md (length args) f b') os'"
        using assms(1) b'(3) os' by (fastforce simp: function_ok_def)
      from less.hyps [OF _ this Cons.prems(2)] b'(2,3) show ?thesis
        using jump b'(1) os' block_exec.Jump [of f b' _ o1 os'] b'(3) by (fastforce simp: at_def)
    next
      case ret
      have "block_exec junk md args f (ReturnFunction r # os) rs (rs[unat (registers_size f) := rs ! unat r])"
        using ret ok(1) Cons.prems(2)
        by (intro block_exec.Return [of _ _ "rs ! unat r"]) (auto simp: at_def put_def word_le_nat_alt less_Suc_eq_le)
      then show ?thesis using ret by (metis length_list_update)
    next
      case data
      from data_step_total [OF ok(1) Cons.prems(2) data] obtain rs1 where
        "data_step junk md args ord rs = Some rs1" "length rs1 = length rs" by blast
      with Cons.IH [OF ok(2), of rs1] Cons.prems(2) show ?thesis by (metis block_exec.Data)
    qed
  qed
qed

lemma run_function_total_spec:
  assumes "function_ok md (length args) f" "\<not> return_function t"
  shows "\<exists>v t'. run_function cyc junk uninit t md f args m = Some (v, t', m) \<and> \<not> return_function t'"
proof -
  obtain blk blks where blk: "label_blocks f = blk # blks" "orders blk \<noteq> []"
    using assms(1) by (cases "label_blocks f") (auto simp: function_ok_def)
  have "unat (registers_size f) \<noteq> unat SIZE_MAX" using assms(1) by (simp add: function_ok_def word_unat_eq_iff)
  then have "unat (registers_size f) + 1 < 2 ^ LENGTH(64)"
    using unsigned_less [where 'a = nat, of "registers_size f"] by (simp add: unsigned_minus_1_eq_mask mask_eq_exp_minus_1)
  then have len: "length (map uninit [0..<unat (registers_size f + 1)]) = unat (registers_size f) + 1"
    by (simp add: unat_inc)
  have "list_all (order_ok md (length args) f 0) (orders blk)" using assms(1) blk(1) by (auto simp: function_ok_def)
  from block_exec_total [OF assms(1) this len, of junk] obtain rs where
    "block_exec junk md args f (orders blk) (map uninit [0..<unat (registers_size f + 1)]) rs"
    "length rs = unat (registers_size f) + 1" using len by auto
  then show ?thesis
    using run_function_spec [OF function_ok_pure [OF assms(1)] assms(2) blk, of cyc junk uninit md args m "rs ! unat (registers_size f)" m]
    by (auto simp: at_def)
qed

section \<open>The field orders\<close>

text \<open>What each kind of access leaves behind, as an update of the whole heap.\<close>

fun after_take :: "OwnershipOrder \<Rightarrow> heap \<Rightarrow> addr \<Rightarrow> HeapObject \<Rightarrow> nat \<Rightarrow> addr \<Rightarrow> heap" where
  "after_take clone h p ob i v = (if v = nullptr then h else h(v \<mapsto> (the (h v))\<lparr>count := count (the (h v)) + 1\<rparr>))"
| "after_take borrow h p ob i v = h(p \<mapsto> ob\<lparr>slots := (slots ob)[i := 1]\<rparr>)"
| "after_take move h p ob i v = h(p \<mapsto> ob\<lparr>slots := (slots ob)[i := nullptr]\<rparr>)"

lemma lock_flag_restored:
  assumes "\<not> lock_flag ob"
  shows "ob\<lparr>lock_flag := False\<rparr> = ob" "ob\<lparr>slots := fs, lock_flag := False\<rparr> = ob\<lparr>slots := fs\<rparr>"
    "ob\<lparr>count := c, lock_flag := False\<rparr> = ob\<lparr>count := c\<rparr>"
  using assms by (cases ob; simp)+

lemma heap_same: "h p = Some ob \<Longrightarrow> h(p \<mapsto> ob) = h"
  by (rule fun_upd_idem)

lemmas field_simps' = object_lock_free get_object_field_def set_object_field_def object_unlock_def upd_obj_def put_def
  lock_flag_restored

lemma take_field_clone:
  assumes "h p = Some ob" "\<not> lock_flag ob" "at (slots ob) i = Some v" "v \<noteq> 1" "v \<noteq> nullptr" "h v = Some obv"
  shows "take_field h p i clone = Some (v, h(v \<mapsto> obv\<lparr>count := count obv + 1\<rparr>))"
proof (cases "v = p")
  case True
  then have "obv = ob" using assms by simp
  then show ?thesis using True assms by (subst take_field.simps) (simp add: field_simps')
next
  case False
  have "h(p \<mapsto> ob\<lparr>lock_flag := True\<rparr>, v \<mapsto> obv\<lparr>count := count obv + 1\<rparr>, p \<mapsto> ob) = h(v \<mapsto> obv\<lparr>count := count obv + 1\<rparr>)"
    using False assms(1) by (intro ext) simp
  then show ?thesis using False assms by (subst take_field.simps) (simp add: field_simps')
qed

lemma take_field_spec:
  assumes "h p = Some ob" "\<not> lock_flag ob" "at (slots ob) i = Some v" "v \<noteq> 1"
    "own = clone \<Longrightarrow> v \<noteq> nullptr \<Longrightarrow> h v \<noteq> None"
  shows "take_field h p i own = Some (v, after_take own h p ob i v)"
proof -
  have i: "i < length (slots ob)" using assms(3) by (simp add: at_Some_iff)
  show ?thesis
  proof (cases own)
    case clone
    show ?thesis
    proof (cases "v = nullptr")
      case True
      then show ?thesis using assms clone by (subst take_field.simps) (simp add: field_simps' heap_same)
    next
      case False
      then obtain obv where "h v = Some obv" using assms(5) clone by auto
      then show ?thesis using take_field_clone [of h p ob i v obv] assms clone False by simp
    qed
  qed (use assms i in \<open>subst take_field.simps; simp add: field_simps'\<close>)+
qed

lemma take_field_locked:
  assumes "h p = Some ob" "lock_flag ob"
  shows "take_field h p i own = None"
  by (subst take_field.simps) (simp add: object_lock_held [of h p ob] assms)

lemma take_field_borrowed:
  assumes "h p = Some ob" "\<not> lock_flag ob" "at (slots ob) i = Some 1"
  shows "take_field h p i own = take_field (h(p \<mapsto> ob\<lparr>lock_flag := True\<rparr>)) p i own"
  using assms by (subst take_field.simps) (simp add: object_lock_free get_object_field_def)

lemma store_field_spec:
  assumes "h p = Some ob" "\<not> lock_flag ob" "at (slots ob) i = Some v" "lock \<Longrightarrow> v \<noteq> 1"
  shows "store_field lock h p i w = Some (h(p \<mapsto> ob\<lparr>slots := (slots ob)[i := w]\<rparr>))"
proof -
  have "i < length (slots ob)" using assms(3) by (simp add: at_Some_iff)
  then show ?thesis using assms
    by (cases lock; subst store_field_def; (subst store_field_waiting.simps)?) (simp_all add: field_simps')
qed

section \<open>Properties\<close>

text \<open>
  C30. The addition order. For every integer type it stores, modulo two to the type's width, the
  sum of its two operand registers, and changes no other register.
\<close>

theorem add_integer_correct:
  assumes "type \<noteq> type_void" "eval cyc junk md arguments (AddInteger type result left right) s = Some s'"
  shows "\<exists>x y v. get_register s left = Some x \<and> get_register s right = Some y \<and> get_register s' result = Some v \<and>
    take_bit (width type) v = take_bit (width type) (x + y) \<and>
    (\<forall>i. i \<noteq> result \<longrightarrow> get_register s' i = get_register s i) \<and> run_memory s' = run_memory s \<and> vm_thread s' = vm_thread s"
proof -
  from assms obtain x y rs where "get_register s left = Some x" "get_register s right = Some y"
    "put (registers s) (unat result) (integer_sum junk type x y) = Some rs" "s' = s\<lparr>registers := rs\<rparr>"
    by (auto simp: bind_Some_iff set_register_def)
  moreover from this have "get_register s' i = (if i = result then Some (integer_sum junk type x y) else get_register s i)" for i
    using at_put [of "registers s" "unat result" _ rs "unat i"] by (auto simp: get_register_def word_unat_eq_iff [of i])
  ultimately show ?thesis by (simp add: integer_sum_low_bits)
qed

definition demo_state :: run_state where
  "demo_state = \<lparr>vm_thread = \<lparr>thread_id = 0, stack_size = 0, top_of_stack_address = 0, current_function = None,
     current_label_block = None, current_order_index = 0, return_function = False,
     thread_allocator = \<lparr>is_thread_safe = False, number_of_chunks = 0, chunks = [], chunks_cells_size = 1024\<rparr>,
     allocator_search_start_index = 0\<rparr>, registers = [250, 10, 0], variables = [],
     run_memory = \<lparr>heap = Map.empty, chunk_at = Map.empty, brk = 0, heap_chunk_list = []\<rparr>\<rparr>"

definition demo_module :: Module where
  "demo_module = Module_new ''demo'' [] [] [] [] []"

theorem add_integer_correct_witness:
  "\<exists>s' v. eval (\<lambda>_. False) 7 demo_module [] (AddInteger u8 2 0 1) demo_state = Some s' \<and>
     get_register s' 2 = Some v \<and> take_bit 8 v = 4"
proof -
  obtain s' where s': "eval (\<lambda>_. False) 7 demo_module [] (AddInteger u8 2 0 1) demo_state = Some s'"
    by (simp add: demo_state_def get_register_def set_register_def at_def put_def)
  have regs: "get_register demo_state 0 = Some 250" "get_register demo_state 1 = Some 10"
    by (simp_all add: demo_state_def get_register_def at_def)
  from add_integer_correct [OF _ s'] regs obtain v where
    "get_register s' 2 = Some v" "take_bit 8 v = take_bit 8 (260 :: u64)" by auto
  moreover have "take_bit 8 (260 :: u64) = 4" by simp
  ultimately show ?thesis using s' by auto
qed

text \<open>
  The result of an addition narrower than 64 bits is an \<^verbatim>\<open>int\<close> of four bytes, read as
  eight: the upper half of the result register is whatever lies above it on the stack.
\<close>

lemma narrow_add_upper_half:
  assumes "type \<noteq> type_void" "width type < 64"
  shows "drop_bit 32 (integer_sum junk type x y) = ucast junk"
proof -
  have "drop_bit 32 (widen junk w) = ucast junk" for w
    by (rule bit_word_eqI) (auto simp: widen_def bit_drop_bit_eq bit_or_iff bit_push_bit_iff bit_ucast_iff
        dest: bit_imp_le_length)
  then show ?thesis using assms by (cases type) simp_all
qed

text \<open>
  C8. The run loop implements the semantics. A function that uses no heap order returns \<open>v\<close>
  exactly if the semantics of its first block leaves \<open>v\<close> in the result register; the memory is
  untouched and the thread can run another function.
\<close>

theorem run_function_correct:
  assumes "pure_function f" "\<not> return_function t" "label_blocks f = blk # blks" "orders blk \<noteq> []"
  shows "(\<exists>t'. run_function cyc junk uninit t md f args m = Some (v, t', m') \<and> \<not> return_function t' \<and>
      thread_id t' = thread_id t \<and> thread_allocator t' = thread_allocator t \<and>
      allocator_search_start_index t' = allocator_search_start_index t) \<longleftrightarrow>
    m' = m \<and> (\<exists>rs. block_exec junk md args f (orders blk) (map uninit [0..<unat (registers_size f + 1)]) rs \<and>
      at rs (unat (registers_size f)) = Some v)"
  by (rule run_function_spec [OF assms])

definition demo_function :: Function where
  "demo_function = Function_new ''add'' 0 2
     [\<lparr>label_name = ''entry'', orders = [GetArgument 0 0, GetArgument 1 1, JumpToLabel ''sum'' (Some 1)]\<rparr>,
      \<lparr>label_name = ''sum'', orders = [ReturnFunction 0, AddInteger i64 0 0 1, ReturnFunction 0]\<rparr>]
     \<lparr>arg_primitive_type = Some i64, arg_type_index = 0\<rparr> []"

lemma demo_function_blocks:
  "label_blocks demo_function =
     [\<lparr>label_name = ''entry'', orders = [GetArgument 0 0, GetArgument 1 1, JumpToLabel ''sum'' (Some 1)]\<rparr>,
      \<lparr>label_name = ''sum'', orders = [ReturnFunction 0, AddInteger i64 0 0 1, ReturnFunction 0]\<rparr>]"
  "registers_size demo_function = 2"
  by (simp_all add: demo_function_def Function_new_def)

theorem run_function_correct_witness:
  "\<exists>t'. run_function (\<lambda>_. False) 7 (\<lambda>_. 99) (vm_thread demo_state) demo_module demo_function [20, 30]
     (run_memory demo_state) = Some (50, t', run_memory demo_state)"
proof -
  let ?os = "[GetArgument 0 0, GetArgument 1 1, JumpToLabel ''sum'' (Some 1)]"
  have "block_exec 7 demo_module [20, 30] demo_function [AddInteger i64 0 0 1, ReturnFunction 0] [20, 30, 99] [50, 30, 50]"
    by (rule block_exec.Data [of _ _ _ _ _ "[50, 30, 99]"], simp add: at_def put_def,
        rule block_exec.Return [of _ _ 50]) (simp_all add: at_def put_def demo_function_blocks)
  then have "block_exec 7 demo_module [20, 30] demo_function [JumpToLabel ''sum'' (Some 1)] [20, 30, 99] [50, 30, 50]"
    by (rule block_exec.Jump [rotated 2, where blk = "label_blocks demo_function ! 1"]) (simp_all add: at_def demo_function_blocks)
  then have "block_exec 7 demo_module [20, 30] demo_function [GetArgument 1 1, JumpToLabel ''sum'' (Some 1)] [20, 99, 99] [50, 30, 50]"
    by (rule block_exec.Data [rotated]) (simp add: at_def put_def)
  then have run: "block_exec 7 demo_module [20, 30] demo_function ?os [99, 99, 99] [50, 30, 50]"
    by (rule block_exec.Data [rotated]) (simp add: at_def put_def)
  have start: "map (\<lambda>_. 99 :: u64) [0..<unat (registers_size demo_function + 1)] = [99, 99, 99]"
    by (simp add: demo_function_blocks upt_conv_Cons)
  have pure: "pure_function demo_function" by (simp add: pure_function_def demo_function_blocks)
  from run_function_correct [OF pure _ demo_function_blocks(1), of "vm_thread demo_state" "\<lambda>_. False" 7 "\<lambda>_. 99"
      demo_module "[20, 30]" "run_memory demo_state" 50 "run_memory demo_state"]
  show ?thesis using run start by (auto simp: demo_state_def at_def demo_function_blocks)
qed

text \<open>
  C18. Every run of a checked function returns: if the indices of its orders lie inside the
  arrays and its jumps lead to later, non-empty blocks, the interpreter reaches a result from
  any contents of the uninitialised registers, without touching the memory.
\<close>

theorem run_function_total:
  assumes "function_ok md (length args) f" "\<not> return_function t"
  shows "\<exists>v t'. run_function cyc junk uninit t md f args m = Some (v, t', m) \<and> \<not> return_function t'"
  by (rule run_function_total_spec [OF assms])

theorem run_function_total_witness:
  "\<exists>v t'. run_function (\<lambda>_. False) 7 (\<lambda>_. 99) (vm_thread demo_state) demo_module demo_function [20, 30]
     (run_memory demo_state) = Some (v, t', run_memory demo_state)"
proof -
  have "function_ok demo_module (length [20, 30 :: u64]) demo_function"
    by (simp add: function_ok_def demo_function_blocks less_Suc_eq)
  from run_function_total [OF this, of "vm_thread demo_state" "\<lambda>_. False" 7 "\<lambda>_. 99" "run_memory demo_state"]
  show ?thesis by (auto simp: demo_state_def)
qed

text \<open>
  C31. The field read order on an unlocked object whose field is not borrowed: it returns the
  field; a clone adds one to the reference count of the object in the field, a borrow leaves
  the mark 1 behind, a move leaves null, and nothing else changes.
\<close>

theorem take_field_correct:
  assumes "h p = Some ob" "\<not> lock_flag ob" "at (slots ob) i = Some v" "v \<noteq> 1"
    "own = clone \<Longrightarrow> v \<noteq> nullptr \<Longrightarrow> h v \<noteq> None"
  shows "take_field h p i own = Some (v,
    case own of
      clone \<Rightarrow> (if v = nullptr then h else h(v \<mapsto> (the (h v))\<lparr>count := count (the (h v)) + 1\<rparr>))
    | borrow \<Rightarrow> h(p \<mapsto> ob\<lparr>slots := (slots ob)[i := 1]\<rparr>)
    | move \<Rightarrow> h(p \<mapsto> ob\<lparr>slots := (slots ob)[i := nullptr]\<rparr>))"
  using take_field_spec [of h p ob i v own] assms by (cases own) simp_all

definition demo_heap :: heap where
  "demo_heap = [4096 \<mapsto> zero_object\<lparr>slots := [8192]\<rparr>, 8192 \<mapsto> zero_object\<lparr>count := 1\<rparr>]"

theorem take_field_correct_witness:
  "take_field demo_heap 4096 0 borrow = Some (8192, demo_heap(4096 \<mapsto> zero_object\<lparr>slots := [1]\<rparr>))"
  using take_field_correct [of demo_heap 4096 "zero_object\<lparr>slots := [8192]\<rparr>" 0 8192 borrow]
  by (simp add: demo_heap_def zero_object_def at_def)

text \<open>
  C33. The field write order replaces the field of an unlocked object and changes nothing
  else; in particular the object whose reference it overwrites keeps its count.
\<close>

theorem store_field_correct:
  assumes "h p = Some ob" "\<not> lock_flag ob" "at (slots ob) i = Some v" "borrow_lock \<Longrightarrow> v \<noteq> 1"
  shows "store_field borrow_lock h p i w = Some (h(p \<mapsto> ob\<lparr>slots := (slots ob)[i := w]\<rparr>)) \<and>
    (\<forall>q oq. h q = Some oq \<longrightarrow>
      (\<exists>oq'. (h(p \<mapsto> ob\<lparr>slots := (slots ob)[i := w]\<rparr>)) q = Some oq' \<and> count oq' = count oq))"
  using store_field_spec [of h p ob i v borrow_lock w] assms by auto

theorem store_field_correct_witness:
  "store_field True demo_heap 4096 0 nullptr = Some (demo_heap(4096 \<mapsto> zero_object\<lparr>slots := [nullptr]\<rparr>))"
  using store_field_correct [of demo_heap 4096 "zero_object\<lparr>slots := [8192]\<rparr>" 0 8192 True nullptr]
  by (simp add: demo_heap_def zero_object_def at_def)

end
