(* ===== verification/Field_Locking.thy ===== *)
theory Field_Locking
  imports Interpreter_Correct
begin

text \<open>
  The loops of \<^verbatim>\<open>GetObjectFieldOwnership::eval\<close> and \<^verbatim>\<open>SetObjectFieldOwnership::eval\<close>
  (\<^verbatim>\<open>src/vm/modules/orders\<close>) run by any number of threads on one field of one object. A step is
  one access to shared memory by one thread: a test-and-set or a clear of the object's lock flag, a
  load or a store of the field, an increment of a count. \<open>Interpreter.take_field\<close> and
  \<open>Interpreter.store_field\<close> are the same loops run by one thread alone.
\<close>

section \<open>The points of the code\<close>

text \<open>
  A thread is about to: take the lock, load the field, act on the value loaded, clear the lock.
  \<open>Set_retry\<close> is the clearing of the lock before the next round of the store loop. The order to
  read a field has no such point: after it has loaded the marker it is at \<open>Get_lock\<close> again.
\<close>

datatype access_point = Idle
  | Get_lock OwnershipOrder | Get_load OwnershipOrder | Get_take OwnershipOrder u64 | Get_unlock u64 | Got u64
  | Set_lock bool u64 | Set_load u64 | Set_store u64 | Set_unlock | Set_retry u64 | Stored

record access_state =
  shared :: heap
  point :: "nat \<Rightarrow> access_point"

abbreviation move_to :: "access_state \<Rightarrow> nat \<Rightarrow> access_point \<Rightarrow> access_state" where
  "move_to s t x \<equiv> s\<lparr>point := (point s)(t := x)\<rparr>"

definition take_effect :: "OwnershipOrder \<Rightarrow> heap \<Rightarrow> addr \<Rightarrow> nat \<Rightarrow> u64 \<Rightarrow> heap option" where
  "take_effect ownership h parent_object index field_object = (case ownership of
       clone \<Rightarrow> (if field_object \<noteq> nullptr then upd_obj h field_object (\<lambda>ob. ob\<lparr>count := count ob + 1\<rparr>) else Some h)
     | borrow \<Rightarrow> set_object_field h parent_object index 1
     | move \<Rightarrow> set_object_field h parent_object index 0)"

inductive access_step :: "addr \<Rightarrow> nat \<Rightarrow> access_state \<Rightarrow> access_state \<Rightarrow> bool" for p i where
  get_call: "point s t \<in> {Idle, Stored} \<union> range Got \<Longrightarrow> access_step p i s (move_to s t (Get_lock own))"
| get_wait: "point s t = Get_lock own \<Longrightarrow> shared s p = Some ob \<Longrightarrow> lock_flag ob \<Longrightarrow> access_step p i s s"
| get_lock: "point s t = Get_lock own \<Longrightarrow> shared s p = Some ob \<Longrightarrow> \<not> lock_flag ob \<Longrightarrow>
    access_step p i s (move_to (s\<lparr>shared := (shared s)(p \<mapsto> ob\<lparr>lock_flag := True\<rparr>)\<rparr>) t (Get_load own))"
| get_continue: "point s t = Get_load own \<Longrightarrow> get_object_field (shared s) p i = Some 1 \<Longrightarrow>
    access_step p i s (move_to s t (Get_lock own))"
| get_load: "point s t = Get_load own \<Longrightarrow> get_object_field (shared s) p i = Some v \<Longrightarrow> v \<noteq> 1 \<Longrightarrow>
    access_step p i s (move_to s t (Get_take own v))"
| get_take: "point s t = Get_take own v \<Longrightarrow> take_effect own (shared s) p i v = Some h \<Longrightarrow>
    access_step p i s (move_to (s\<lparr>shared := h\<rparr>) t (Get_unlock v))"
| get_unlock: "point s t = Get_unlock v \<Longrightarrow> object_unlock (shared s) p = Some h \<Longrightarrow>
    access_step p i s (move_to (s\<lparr>shared := h\<rparr>) t (Got v))"
| set_call: "point s t \<in> {Idle, Stored} \<union> range Got \<Longrightarrow> access_step p i s (move_to s t (Set_lock borrow_lock w))"
| set_wait: "point s t = Set_lock borrow_lock w \<Longrightarrow> shared s p = Some ob \<Longrightarrow> lock_flag ob \<Longrightarrow> access_step p i s s"
| set_lock: "point s t = Set_lock borrow_lock w \<Longrightarrow> shared s p = Some ob \<Longrightarrow> \<not> lock_flag ob \<Longrightarrow>
    access_step p i s (move_to (s\<lparr>shared := (shared s)(p \<mapsto> ob\<lparr>lock_flag := True\<rparr>)\<rparr>) t
      (if borrow_lock then Set_load w else Set_store w))"
| set_load: "point s t = Set_load w \<Longrightarrow> get_object_field (shared s) p i = Some v \<Longrightarrow>
    access_step p i s (move_to s t (if v \<noteq> 1 then Set_store w else Set_retry w))"
| set_store: "point s t = Set_store w \<Longrightarrow> set_object_field (shared s) p i w = Some h \<Longrightarrow>
    access_step p i s (move_to (s\<lparr>shared := h\<rparr>) t Set_unlock)"
| set_unlock: "point s t = Set_unlock \<Longrightarrow> object_unlock (shared s) p = Some h \<Longrightarrow>
    access_step p i s (move_to (s\<lparr>shared := h\<rparr>) t Stored)"
| set_retry: "point s t = Set_retry w \<Longrightarrow> object_unlock (shared s) p = Some h \<Longrightarrow>
    access_step p i s (move_to (s\<lparr>shared := h\<rparr>) t (Set_lock True w))"

inductive_cases access_stepE: "access_step p i s s'"

section \<open>At most one thread is past the lock\<close>

fun past_lock :: "access_point \<Rightarrow> bool" where
  "past_lock (Get_load own) \<longleftrightarrow> True"
| "past_lock (Get_take own v) \<longleftrightarrow> True"
| "past_lock (Get_unlock v) \<longleftrightarrow> True"
| "past_lock (Set_load w) \<longleftrightarrow> True"
| "past_lock (Set_store w) \<longleftrightarrow> True"
| "past_lock Set_unlock \<longleftrightarrow> True"
| "past_lock (Set_retry w) \<longleftrightarrow> True"
| "past_lock _ \<longleftrightarrow> False"

definition access_init :: "addr \<Rightarrow> access_state \<Rightarrow> bool" where
  "access_init p s \<longleftrightarrow> (\<exists>ob. shared s p = Some ob \<and> \<not> lock_flag ob) \<and> (\<forall>t. point s t = Idle)"

definition lock_set :: "addr \<Rightarrow> heap \<Rightarrow> bool" where
  "lock_set p h \<longleftrightarrow> (\<exists>ob. h p = Some ob \<and> lock_flag ob)"

definition access_inv :: "addr \<Rightarrow> access_state \<Rightarrow> bool" where
  "access_inv p s \<longleftrightarrow> (\<forall>t. past_lock (point s t) \<longrightarrow> lock_set p (shared s)) \<and>
     (\<forall>t u. past_lock (point s t) \<and> past_lock (point s u) \<longrightarrow> t = u)"

lemma lock_set_take: "take_effect own h p i v = Some h' \<Longrightarrow> lock_set p h' \<longleftrightarrow> lock_set p h"
  by (auto simp: take_effect_def lock_set_def upd_obj_def set_object_field_def bind_Some_iff
      split: OwnershipOrder.splits if_splits)

lemma lock_set_store: "set_object_field h p i w = Some h' \<Longrightarrow> lock_set p h' \<longleftrightarrow> lock_set p h"
  by (auto simp: lock_set_def set_object_field_def bind_Some_iff upd_obj_def)

lemma access_inv_inside:
  assumes "access_inv p s" "past_lock (point s t)" "lock_set p h \<longleftrightarrow> lock_set p (shared s)"
  shows "access_inv p (move_to (s\<lparr>shared := h\<rparr>) t x)"
  using assms unfolding access_inv_def by (auto split: if_splits)

lemma access_inv_leave:
  assumes "access_inv p s" "past_lock (point s t)" "\<not> past_lock x"
  shows "access_inv p (move_to (s\<lparr>shared := h\<rparr>) t x)"
  using assms unfolding access_inv_def by (auto split: if_splits)

lemma access_inv_enter:
  assumes "access_inv p s" "\<not> lock_set p (shared s)" "lock_set p h"
  shows "access_inv p (move_to (s\<lparr>shared := h\<rparr>) t x)"
  using assms unfolding access_inv_def by (auto split: if_splits)

lemma access_inv_wait:
  assumes "access_inv p s" "\<not> past_lock x"
  shows "access_inv p (move_to s t x)"
  using assms unfolding access_inv_def by (auto split: if_splits)

lemma access_step_inv:
  assumes "access_inv p s" "access_step p i s s'"
  shows "access_inv p s'"
  using assms(2)
proof cases
  case (get_lock t own ob)
  then show ?thesis using access_inv_enter [OF assms(1)] by (simp add: lock_set_def)
next
  case (set_lock t borrow_lock w ob)
  then show ?thesis using access_inv_enter [OF assms(1)] by (simp add: lock_set_def)
next
  case (get_load t own v)
  then show ?thesis using access_inv_inside [OF assms(1), of t "shared s"] by simp
next
  case (get_take t own v h)
  then show ?thesis using access_inv_inside [OF assms(1), of t h] lock_set_take by simp
next
  case (set_load t w v)
  then show ?thesis using access_inv_inside [OF assms(1), of t "shared s"] by simp
next
  case (set_store t w h)
  then show ?thesis using access_inv_inside [OF assms(1), of t h] lock_set_store by simp
qed (use assms(1) access_inv_leave access_inv_wait in auto)

interpretation access: exclusive_system "access_init p" "access_step p i" "access_inv p" "\<lambda>s t. past_lock (point s t)" for p i
proof unfold_locales
  show "access_inv p s" if "access_init p s" for s using that by (simp add: access_init_def access_inv_def)
  show "access_inv p s'" if "access_inv p s" "access_step p i s s'" for s s' using that by (rule access_step_inv)
  show "t = u" if "access_inv p s" "past_lock (point s t)" "past_lock (point s u)" for s t u
    using that by (auto simp: access_inv_def)
qed

section \<open>The steps of one thread are the loops of the interpreter\<close>

lemma take_field_steps:
  assumes "shared s p = Some ob" "\<not> lock_flag ob" "at (slots ob) i = Some v" "v \<noteq> 1" "point s t = Get_lock own"
    "take_field (shared s) p i own = Some (v, h)"
  shows "(access_step p i)\<^sup>*\<^sup>* s (move_to (s\<lparr>shared := h\<rparr>) t (Got v))"
proof -
  let ?h = "(shared s)(p \<mapsto> ob\<lparr>lock_flag := True\<rparr>)"
  let ?s1 = "move_to (s\<lparr>shared := ?h\<rparr>) t (Get_load own)"
  have run: "object_lock (shared s) p = Some ?h" using assms(1,2) by (rule object_lock_free)
  have load: "get_object_field ?h p i = Some v" using assms(3) by (simp add: get_object_field_def)
  obtain h1 where h1: "take_effect own ?h p i v = Some h1" "object_unlock h1 p = Some h"
    using assms(6) run load assms(4)
    by (subst (asm) take_field.simps) (auto simp: take_effect_def bind_Some_iff split: OwnershipOrder.splits)
  have "access_step p i s ?s1" using assms(5,1,2) by (rule access_step.get_lock)
  moreover have "access_step p i ?s1 (move_to ?s1 t (Get_take own v))"
    using load assms(4) by (intro access_step.get_load) simp_all
  moreover have "access_step p i (move_to ?s1 t (Get_take own v)) (move_to (s\<lparr>shared := h1\<rparr>) t (Get_unlock v))"
    using access_step.get_take [of "move_to ?s1 t (Get_take own v)" t own v p i h1] h1(1) by simp
  moreover have "access_step p i (move_to (s\<lparr>shared := h1\<rparr>) t (Get_unlock v)) (move_to (s\<lparr>shared := h\<rparr>) t (Got v))"
    using access_step.get_unlock [of "move_to (s\<lparr>shared := h1\<rparr>) t (Get_unlock v)" t v p h i] h1(2) by simp
  ultimately show ?thesis by (meson converse_rtranclp_into_rtranclp rtranclp.rtrancl_refl)
qed

section \<open>A borrowed field\<close>

text \<open>The lock is set and no thread is past it: nobody can clear it any more.\<close>

definition stuck :: "addr \<Rightarrow> access_state \<Rightarrow> bool" where
  "stuck p s \<longleftrightarrow> lock_set p (shared s) \<and> (\<forall>t. \<not> past_lock (point s t))"

fun at_lock :: "access_point \<Rightarrow> bool" where
  "at_lock (Get_lock own) \<longleftrightarrow> True"
| "at_lock (Set_lock b w) \<longleftrightarrow> True"
| "at_lock _ \<longleftrightarrow> False"

lemma stuck_step:
  assumes "stuck p s" "access_step p i s s'"
  shows "shared s' = shared s \<and> (\<forall>t. point s' t = point s t \<or> \<not> at_lock (point s t) \<and> at_lock (point s' t)) \<and> stuck p s'"
  using assms(2,1)
proof cases
  case (get_call t own)
  then show ?thesis using assms(1) by (auto simp: stuck_def)
next
  case (set_call t b w)
  then show ?thesis using assms(1) by (auto simp: stuck_def)
qed (auto simp: stuck_def lock_set_def, (metis past_lock.simps)+)

lemma stuck_steps:
  assumes "(access_step p i)\<^sup>*\<^sup>* s s'" "stuck p s"
  shows "shared s' = shared s \<and> (\<forall>t. point s' t = point s t \<or> \<not> at_lock (point s t) \<and> at_lock (point s' t)) \<and> stuck p s'"
  using assms(1)
proof (induction rule: rtranclp_induct)
  case base
  then show ?case using assms(2) by simp
next
  case (step y z)
  then show ?case using stuck_step [of p y i z] by (metis (full_types))
qed

text \<open>
  C32. The order to read a field does not give the object's lock back before it starts over. Let
  any number of threads read and write a field of an object, in any interleaving of their accesses
  to memory. As soon as one of them has taken the lock and finds the field borrowed, nothing
  happens to the object any more: whatever steps follow, memory stays as it is, the lock set, no
  thread that waits for the lock ever gets it, the reader and the thread that wants to give the
  field back among them, and no thread completes a read or a write.
\<close>

theorem borrowed_field_deadlock:
  assumes "access_init p s0" "(access_step p i)\<^sup>*\<^sup>* s0 s" "point s t = Get_load own" "get_object_field (shared s) p i = Some 1"
    "access_step p i s s1" "point s1 t \<noteq> point s t" "(access_step p i)\<^sup>*\<^sup>* s1 s2"
  shows "point s1 t = Get_lock own \<and> shared s2 = shared s \<and> (\<exists>ob. shared s2 p = Some ob \<and> lock_flag ob) \<and>
    (\<forall>u. point s2 u = point s1 u \<or> \<not> at_lock (point s1 u) \<and> at_lock (point s2 u)) \<and> (\<forall>u. \<not> past_lock (point s2 u))"
proof -
  have inv: "access_inv p s" using access.reachable_inv [OF assms(2,1)] .
  have s1: "s1 = move_to s t (Get_lock own)"
    using assms(5)
  proof cases
    case (get_continue u own')
    then have "u = t" using assms(6) by (auto split: if_splits)
    then show ?thesis using get_continue assms(3) by simp
  qed (use assms(3,4,6) in \<open>auto split: if_splits\<close>)
  have "past_lock (point s t)" using assms(3) by simp
  then have "lock_set p (shared s)" "\<not> past_lock (point s u)" if "u \<noteq> t" for u
    using inv that unfolding access_inv_def by blast+
  moreover have "lock_set p (shared s)" using inv \<open>past_lock (point s t)\<close> unfolding access_inv_def by blast
  ultimately have "stuck p s1" by (auto simp: stuck_def s1)
  from stuck_steps [OF assms(7) this] show ?thesis by (auto simp: s1 stuck_def lock_set_def)
qed

text \<open>
  One thread reads the field of \<open>demo_field\<close>, which is borrowed; another one wants to give the
  reference back, by a store that does not look at the field.
\<close>

definition demo_field :: heap where
  "demo_field = [4096 \<mapsto> zero_object\<lparr>slots := [1]\<rparr>]"

theorem borrowed_field_deadlock_witness:
  "\<exists>s0 s1 s2. access_init 4096 s0 \<and> (access_step 4096 0)\<^sup>*\<^sup>* s0 s1 \<and> (access_step 4096 0)\<^sup>*\<^sup>* s1 s2 \<and>
     point s1 1 = Idle \<and> point s2 1 = Set_lock False 8192 \<and> (\<exists>ob. shared s2 4096 = Some ob \<and> lock_flag ob)"
proof -
  let ?ob = "zero_object\<lparr>slots := [1]\<rparr>"
  let ?h = "demo_field(4096 \<mapsto> ?ob\<lparr>lock_flag := True\<rparr>)"
  let ?start = "\<lparr>shared = demo_field, point = (\<lambda>_. Idle)\<rparr>"
  let ?called = "move_to ?start 0 (Get_lock clone)"
  let ?loading = "move_to (?called\<lparr>shared := ?h\<rparr>) 0 (Get_load clone)"
  let ?again = "move_to ?loading 0 (Get_lock clone)"
  let ?given = "move_to ?again 1 (Set_lock False 8192)"
  have init: "access_init 4096 ?start" unfolding access_init_def demo_field_def zero_object_def by simp
  have "access_step 4096 0 ?start ?called" by (rule access_step.get_call) simp
  moreover have "access_step 4096 0 ?called ?loading"
    using access_step.get_lock [of ?called 0 clone 4096 ?ob 0] by (simp add: demo_field_def zero_object_def)
  ultimately have run: "(access_step 4096 0)\<^sup>*\<^sup>* ?start ?loading" by simp
  have load: "get_object_field (shared ?loading) 4096 0 = Some 1" by (simp add: get_object_field_def at_def)
  have retry: "access_step 4096 0 ?loading ?again" using access_step.get_continue [of ?loading 0 clone 4096 0] load by simp
  have gives: "(access_step 4096 0)\<^sup>*\<^sup>* ?again ?given" by (intro r_into_rtranclp access_step.set_call) simp
  have "\<exists>ob. shared ?given 4096 = Some ob \<and> lock_flag ob"
    using borrowed_field_deadlock [OF init run _ load retry _ gives, of 0 clone] by simp
  moreover have "(access_step 4096 0)\<^sup>*\<^sup>* ?start ?again" using run retry by (rule rtranclp.rtrancl_into_rtrancl)
  ultimately show ?thesis using init gives by (intro exI [of _ ?start] exI [of _ ?again] exI [of _ ?given]) simp
qed

end
