(* ===== verification/Parser_Text.thy ===== *)
theory Parser_Text
  imports Prelude
begin

text \<open>
  The text layer below \<^verbatim>\<open>src/vm/parser/VMParser.cpp\<close>: results with their error cases, the
  line scanner, and the parts of the C++ standard library that the parser uses (number
  conversion, regular expression matching with capture groups, splitting at commas).

  The parser keeps a position in the code; here it is the rest of the code from that position
  on. A position past the end has no rest: a read there is undefined behaviour.
\<close>

section \<open>Results\<close>

text \<open>
  \<open>ParseException\<close> is the exception the parser catches itself; the exceptions of the number
  conversions are not caught; \<open>undefined_behaviour\<close> stands for an access outside an array or
  a string.
\<close>

datatype parse_error = ParseException | invalid_argument | out_of_range | undefined_behaviour

type_synonym 'a result = "parse_error + 'a"

fun and_then :: "'a result \<Rightarrow> ('a \<Rightarrow> 'b result) \<Rightarrow> 'b result" where
  "and_then (Inl e) f = Inl e"
| "and_then (Inr x) f = f x"

lemma and_then_cong [fundef_cong]:
  "x = y \<Longrightarrow> (\<And>v. y = Inr v \<Longrightarrow> f v = g v) \<Longrightarrow> and_then x f = and_then y g"
  by (cases y) auto

lemma and_then_Inr_iff: "and_then x f = Inr r \<longleftrightarrow> (\<exists>v. x = Inr v \<and> f v = Inr r)"
  by (cases x) auto

definition guard :: "bool \<Rightarrow> parse_error \<Rightarrow> unit result" where
  "guard b e = (if b then Inr () else Inl e)"

lemma guard_simps [simp]: "guard True e = Inr ()" "guard False e = Inl e"
  by (simp_all add: guard_def)

text \<open>Array access.\<close>

definition nth_or :: "'a list \<Rightarrow> nat \<Rightarrow> 'a result" where
  "nth_or xs i = (if i < length xs then Inr (xs ! i) else Inl undefined_behaviour)"

section \<open>Lines\<close>

text \<open>
  \<^verbatim>\<open>move_until_next_line\<close> and \<^verbatim>\<open>move_until\<close>: the text read, without its spaces, and the
  rest of the code. The first stops behind a line break or at the end of the code, the second
  on one of the given characters; at the end of the code the second does not move.
\<close>

definition newline :: char where
  "newline = CHR 0x0A"

fun move_until_next_line :: "string \<Rightarrow> string \<times> string" where
  "move_until_next_line [] = ([], [])"
| "move_until_next_line (c # cs) =
     (if c = newline then ([], cs)
      else case move_until_next_line cs of (line, rest) \<Rightarrow> (if c \<noteq> CHR '' '' then c # line else line, rest))"

fun move_until_from :: "char list \<Rightarrow> string \<Rightarrow> string \<Rightarrow> string \<times> string" where
  "move_until_from chars start [] = ([], start)"
| "move_until_from chars start (c # cs) =
     (if c \<in> set chars then ([], c # cs)
      else case move_until_from chars start cs of (word, rest) \<Rightarrow> (if c \<noteq> CHR '' '' then c # word else word, rest))"

definition move_until :: "char list \<Rightarrow> string \<Rightarrow> string \<times> string" where
  "move_until chars rest = move_until_from chars rest rest"

definition HASH_MARK :: "char list" where
  "HASH_MARK = [CHR ''#'', newline, CHR 0x00]"

lemma move_until_next_line_shorter:
  "move_until_next_line code = (line, rest) \<Longrightarrow> code \<noteq> [] \<Longrightarrow> length rest < length code"
proof (induction code arbitrary: line rest)
  case (Cons c cs)
  then show ?case by (cases "cs = []") (auto split: if_splits prod.splits intro: less_SucI)
qed simp

lemma move_until_next_line_le:
  "move_until_next_line code = (line, rest) \<Longrightarrow> length rest \<le> length code"
  using move_until_next_line_shorter [of code line rest] by (cases "code = []") auto

lemma move_until_from_le:
  "move_until_from chars start code = (word, rest) \<Longrightarrow> length code \<le> length start \<Longrightarrow> length rest \<le> length start"
  by (induction chars start code arbitrary: word rest rule: move_until_from.induct) (auto split: if_splits prod.splits)

lemma move_until_le: "move_until chars code = (word, rest) \<Longrightarrow> length rest \<le> length code"
  unfolding move_until_def by (erule move_until_from_le) (rule le_refl)

text \<open>
  The head of every section loop: skip empty lines, stop at the end mark or at the end of the
  code (\<open>None\<close>), otherwise deliver the next line.
\<close>

function next_entry :: "string \<Rightarrow> string \<Rightarrow> string option \<times> string" where
  "next_entry end_mark code =
     (if code = [] then (None, [])
      else case move_until_next_line code of (line, code') \<Rightarrow>
        if line = end_mark then (None, code')
        else if line = [] then next_entry end_mark code'
        else (Some line, code'))"
  by pat_completeness auto
termination
  by (relation "measure (\<lambda>(m, code). length code)") (auto dest: move_until_next_line_shorter [OF sym])

declare next_entry.simps [simp del]

lemma next_entry_le: "next_entry m code = (x, rest) \<Longrightarrow> length rest \<le> length code"
proof (induction m code arbitrary: x rest rule: next_entry.induct)
  case (1 m code)
  obtain line code' where l: "move_until_next_line code = (line, code')" by fastforce
  then show ?case using 1 move_until_next_line_le [OF l]
    by (auto simp: next_entry.simps [of m code] split: if_splits dest: order_trans)
qed

lemma next_entry_shorter: "next_entry m code = (Some line, rest) \<Longrightarrow> length rest < length code"
proof -
  assume e: "next_entry m code = (Some line, rest)"
  obtain l code' where l: "move_until_next_line code = (l, code')" by fastforce
  have "code \<noteq> []" using e by (auto simp: next_entry.simps [of m code])
  from move_until_next_line_shorter [OF l this] show ?thesis
    using e l \<open>code \<noteq> []\<close> next_entry_le [of m code' _ rest]
    by (auto simp: next_entry.simps [of m code] split: if_splits)
qed

section \<open>Numbers\<close>

definition is_digit :: "char \<Rightarrow> bool" where
  "is_digit c \<longleftrightarrow> 48 \<le> (of_char c :: nat) \<and> (of_char c :: nat) \<le> 57"

definition digit_value :: "char \<Rightarrow> nat" where
  "digit_value c = of_char c - 48"

definition is_space :: "char \<Rightarrow> bool" where
  "is_space c \<longleftrightarrow> (of_char c :: nat) = 32 \<or> 9 \<le> (of_char c :: nat) \<and> (of_char c :: nat) \<le> 13"

definition decimal :: "string \<Rightarrow> nat" where
  "decimal ds = foldl (\<lambda>n c. 10 * n + digit_value c) 0 ds"

text \<open>
  \<^verbatim>\<open>std::stoull\<close> and \<^verbatim>\<open>std::stoll\<close> in base ten: white space, a sign, then the longest
  run of digits; what follows is ignored.
\<close>

definition number_prefix :: "string \<Rightarrow> (bool \<times> nat) result" where
  "number_prefix s =
     (let t = dropWhile is_space s;
          neg = (t \<noteq> [] \<and> hd t = CHR ''-'');
          u = (if t \<noteq> [] \<and> (hd t = CHR ''-'' \<or> hd t = CHR ''+'') then tl t else t);
          ds = takeWhile is_digit u
      in if ds = [] then Inl invalid_argument else Inr (neg, decimal ds))"

definition stoull :: "string \<Rightarrow> u64 result" where
  "stoull s = and_then (number_prefix s) (\<lambda>(neg, n).
     if 2 ^ 64 \<le> n then Inl out_of_range else Inr (if neg then - of_nat n else of_nat n))"

definition stoll :: "string \<Rightarrow> u64 result" where
  "stoll s = and_then (number_prefix s) (\<lambda>(neg, n).
     if (if neg then 2 ^ 63 < n else 2 ^ 63 \<le> n) then Inl out_of_range
     else Inr (if neg then - of_nat n else of_nat n))"

section \<open>Regular expressions\<close>

text \<open>
  Every expression of the parser is a sequence of literal texts and capture groups; a group
  is one alternative of several texts, or a repetition of a class of characters with a lower
  and possibly an upper bound. \<open>regex_match\<close> is the backtracking match of the whole string:
  a repetition takes as many characters as it can, and gives back one at a time while the
  rest of the expression does not match. The result is the list of captured texts.
\<close>

datatype char_class = Digit | Word_char | Any

definition is_word :: "char \<Rightarrow> bool" where
  "is_word c \<longleftrightarrow> is_digit c \<or> c = CHR ''_'' \<or> 65 \<le> (of_char c :: nat) \<and> (of_char c :: nat) \<le> 90 \<or>
     97 \<le> (of_char c :: nat) \<and> (of_char c :: nat) \<le> 122"

fun in_class :: "char_class \<Rightarrow> char \<Rightarrow> bool" where
  "in_class Digit c = is_digit c"
| "in_class Word_char c = is_word c"
| "in_class Any c = (c \<noteq> newline \<and> c \<noteq> CHR 0x0D)"

datatype regex_item = Lit string | Rep char_class nat "nat option" | Alt "string list"

definition strip :: "string \<Rightarrow> string \<Rightarrow> string option" where
  "strip l s = (if take (length l) s = l then Some (drop (length l) s) else None)"

text \<open>The first success among the candidate lengths \<open>n, n - 1, \<dots>, lo\<close>, resp. the alternatives.\<close>

fun try_lengths :: "(string \<Rightarrow> string list option) \<Rightarrow> nat \<Rightarrow> string \<Rightarrow> nat \<Rightarrow> string list option" where
  "try_lengths k lo s n =
     (if n < lo then None
      else case k (drop n s) of
             Some caps \<Rightarrow> Some (take n s # caps)
           | None \<Rightarrow> (if n = 0 then None else try_lengths k lo s (n - 1)))"

declare try_lengths.simps [simp del]

fun try_texts :: "(string \<Rightarrow> string list option) \<Rightarrow> string \<Rightarrow> string list \<Rightarrow> string list option" where
  "try_texts k s [] = None"
| "try_texts k s (l # ls) =
     (case Option.bind (strip l s) k of Some caps \<Rightarrow> Some (l # caps) | None \<Rightarrow> try_texts k s ls)"

fun regex_match :: "regex_item list \<Rightarrow> string \<Rightarrow> string list option" where
  "regex_match [] s = (if s = [] then Some [] else None)"
| "regex_match (Lit l # is) s = Option.bind (strip l s) (regex_match is)"
| "regex_match (Rep c lo hi # is) s =
     (let run = length (takeWhile (in_class c) s)
      in try_lengths (regex_match is) lo s (case hi of None \<Rightarrow> run | Some h \<Rightarrow> min h run))"
| "regex_match (Alt ls # is) s = try_texts (regex_match is) s ls"

abbreviation number :: regex_item where
  "number \<equiv> Rep Digit 1 None"

abbreviation name_chars :: regex_item where
  "name_chars \<equiv> Rep Word_char 1 None"

section \<open>Splitting at commas\<close>

text \<open>
  \<^verbatim>\<open>sregex_token_iterator(s, ",", -1)\<close>: the texts between the commas. A string without a
  comma is its own only token, even when it is empty; after the last comma an empty text is
  not a token.
\<close>

fun comma_parts :: "string \<Rightarrow> string list" where
  "comma_parts [] = [[]]"
| "comma_parts (c # cs) =
     (if c = CHR '','' then [] # comma_parts cs
      else case comma_parts cs of p # ps \<Rightarrow> (c # p) # ps | [] \<Rightarrow> [[c]])"

definition tokens :: "string \<Rightarrow> string list" where
  "tokens s =
     (let ps = comma_parts s in if CHR '','' \<in> set s \<and> last ps = [] then butlast ps else ps)"

section \<open>Collecting an index map\<close>

text \<open>
  The parser reads numbered entries into an \<^verbatim>\<open>unordered_map\<close> and then copies the entries
  \<open>0, 1, \<dots>\<close> into a vector. The map is a list of entries, the latest first.
\<close>

fun gather :: "(u64 \<times> 'a) list \<Rightarrow> nat list \<Rightarrow> 'a list result" where
  "gather m [] = Inr []"
| "gather m (i # is) =
     (case map_of m (of_nat i) of
        None \<Rightarrow> Inl ParseException
      | Some v \<Rightarrow> and_then (gather m is) (\<lambda>vs. Inr (v # vs)))"

definition collect :: "(u64 \<times> 'a) list \<Rightarrow> u64 \<Rightarrow> 'a list result" where
  "collect m max_index = (if m = [] then Inr [] else gather m [0..<unat (max_index + 1)])"

definition max_of :: "u64 \<Rightarrow> u64 \<Rightarrow> u64" where
  "max_of index max_index = (if index > max_index then index else max_index)"

end
