(* ===== verification/Parser.thy ===== *)
theory Parser
  imports Parser_Text Modules
begin

text \<open>
  The parser of \<^verbatim>\<open>src/vm/parser/VMParser.cpp\<close>, function by function. \<^verbatim>\<open>stod\<close> (the
  conversion of a decimal fraction to the bits of a double) is a parameter.
\<close>

section \<open>Constants and small parsers\<close>

definition chars_of :: "u8 list \<Rightarrow> string" where
  "chars_of bytes = map (\<lambda>b. char_of (unat b)) bytes"

definition bytes_of :: "string \<Rightarrow> u8 list" where
  "bytes_of s = map (\<lambda>c. of_nat (of_char c)) s"

definition get_const_value_as_string :: "ConstValue list \<Rightarrow> u64 \<Rightarrow> string result" where
  "get_const_value_as_string cvs index =
     and_then (nth_or cvs (unat index)) (\<lambda>c.
       if unat (const_byte_size c) \<le> length (value_reference c)
       then Inr (chars_of (take (unat (const_byte_size c)) (value_reference c)))
       else Inl undefined_behaviour)"

definition get_const_value_as_int64 :: "ConstValue list \<Rightarrow> u64 \<Rightarrow> u64 result" where
  "get_const_value_as_int64 cvs index =
     and_then (nth_or cvs (unat index)) (\<lambda>c.
       case read_u64 (value_reference c) of Some v \<Rightarrow> Inr v | None \<Rightarrow> Inl undefined_behaviour)"

definition get_const_value_as_double :: "ConstValue list \<Rightarrow> u64 \<Rightarrow> u64 result" where
  "get_const_value_as_double cvs index =
     and_then (nth_or cvs (unat index)) (\<lambda>c.
       case read_u64 (value_reference c) of Some v \<Rightarrow> Inr v | None \<Rightarrow> Inl undefined_behaviour)"

text \<open>\<^verbatim>\<open>strcmp\<close> compares the text before the first null character.\<close>

definition c_str :: "string \<Rightarrow> string" where
  "c_str s = takeWhile (\<lambda>c. c \<noteq> CHR 0x00) s"

definition parse_primitive_type :: "string \<Rightarrow> PrimitiveType result" where
  "parse_primitive_type type =
     (case List.find (\<lambda>it. primitive_name it = c_str type) all_types of
        Some it \<Rightarrow> Inr it
      | None \<Rightarrow> Inl ParseException)"

definition parse_argument_type :: "string \<Rightarrow> ArgumentInfo result" where
  "parse_argument_type type =
     (case regex_match [Lit ''type#'', number] type of
        Some [i] \<Rightarrow> and_then (stoull i) (\<lambda>type_index. Inr \<lparr>arg_primitive_type = None, arg_type_index = type_index\<rparr>)
      | _ \<Rightarrow> and_then (parse_primitive_type type) (\<lambda>p. Inr \<lparr>arg_primitive_type = Some p, arg_type_index = 0\<rparr>))"

definition parse_register_or_variable_number :: "string \<Rightarrow> u64 result" where
  "parse_register_or_variable_number str =
     (case regex_match [Alt [''reg'', ''var''], Lit ''#'', number] str of
        Some [kind, i] \<Rightarrow> stoull i
      | _ \<Rightarrow> (if str = ''@void'' then Inr SIZE_MAX else Inl ParseException))"

definition parse_using_type_index :: "string \<Rightarrow> u64 result" where
  "parse_using_type_index str =
     (case regex_match [Lit ''type#'', number] str of
        Some [i] \<Rightarrow> stoull i
      | _ \<Rightarrow> (case regex_match [number] str of Some [i] \<Rightarrow> stoull i | _ \<Rightarrow> Inl ParseException))"

definition parse_const_value_index :: "string \<Rightarrow> u64 result" where
  "parse_const_value_index str =
     (case regex_match [Lit ''const#'', number] str of
        Some [i] \<Rightarrow> stoull i
      | _ \<Rightarrow> (case regex_match [number] str of Some [i] \<Rightarrow> stoull i | _ \<Rightarrow> Inl ParseException))"

definition parse_bool :: "string \<Rightarrow> bool result" where
  "parse_bool str = (if str = ''true'' then Inr True else if str = ''false'' then Inr False else Inl ParseException)"

section \<open>Orders\<close>

definition parse_order :: "u64 \<Rightarrow> string \<Rightarrow> string list \<Rightarrow> ConstValue list \<Rightarrow> Order result" where
  "parse_order assignment_register order_name args cvs =
     (if assignment_register = SIZE_MAX then
        if order_name = ''jump_to'' then
          and_then (guard (args \<noteq> []) ParseException) (\<lambda>_. Inr (JumpToLabel_new (args ! 0)))
        else if order_name = ''ret'' then
          and_then (guard (args \<noteq> []) ParseException) (\<lambda>_.
          and_then (parse_register_or_variable_number (args ! 0)) (\<lambda>result. Inr (ReturnFunction result)))
        else if order_name = ''set_field'' then
          and_then (guard (5 \<le> length args) ParseException) (\<lambda>_.
          and_then (parse_register_or_variable_number (args ! 0)) (\<lambda>parent_object.
          and_then (parse_register_or_variable_number (args ! 1)) (\<lambda>field_object.
          and_then (parse_bool (args ! 2)) (\<lambda>borrow_lock.
          and_then (parse_using_type_index (args ! 3)) (\<lambda>using_type.
          and_then (parse_const_value_index (args ! 4)) (\<lambda>field_name_const.
          and_then (get_const_value_as_string cvs field_name_const) (\<lambda>field_name'.
          Inr (SetObjectFieldOwnership parent_object field_object using_type field_name' 0 borrow_lock))))))))
        else Inl ParseException
      else
        if order_name = ''const'' then
          and_then (guard (2 \<le> length args) ParseException) (\<lambda>_.
          and_then (parse_primitive_type (args ! 0)) (\<lambda>type.
          and_then (stoull (args ! 1)) (\<lambda>index.
          Inr (GetConstInteger type assignment_register index))))
        else if order_name = ''arg'' then
          and_then (guard (args \<noteq> []) ParseException) (\<lambda>_.
          and_then (stoull (args ! 0)) (\<lambda>index.
          Inr (GetArgument assignment_register index)))
        else if order_name = ''iadd'' then
          and_then (guard (2 \<le> length args) ParseException) (\<lambda>_.
          and_then (parse_primitive_type (args ! 0)) (\<lambda>type.
          and_then (parse_register_or_variable_number (args ! 1)) (\<lambda>left.
          and_then (nth_or args 2) (\<lambda>right_text.
          and_then (parse_register_or_variable_number right_text) (\<lambda>right.
          Inr (AddInteger type assignment_register left right))))))
        else Inl ParseException)"

text \<open>One line of a block: an assignment or a bare order.\<close>

definition parse_order_line :: "ConstValue list \<Rightarrow> string \<Rightarrow> Order result" where
  "parse_order_line cvs line =
     (case regex_match [Rep Any 1 None, Lit ''='', Rep Any 1 None] line of
        Some [target, order_str] \<Rightarrow>
          and_then (parse_register_or_variable_number target) (\<lambda>assignment_register.
            case tokens order_str of
              [] \<Rightarrow> parse_order assignment_register [] [] cvs
            | order_name # args \<Rightarrow> parse_order assignment_register order_name args cvs)
      | _ \<Rightarrow>
          (case tokens line of
             [] \<Rightarrow> parse_order SIZE_MAX [] [] cvs
           | order_name # args \<Rightarrow> parse_order SIZE_MAX order_name args cvs))"

function parse_orders :: "ConstValue list \<Rightarrow> string \<Rightarrow> (Order list \<times> string) result" where
  "parse_orders cvs code =
     (case next_entry ''label:end'' code of
        (None, rest) \<Rightarrow> Inr ([], rest)
      | (Some line, code') \<Rightarrow>
          and_then (parse_order_line cvs line) (\<lambda>order.
          and_then (parse_orders cvs code') (\<lambda>(os, rest).
          Inr (order # os, rest))))"
  by pat_completeness auto
termination
  by (relation "measure (\<lambda>(cvs, code). length code)") (auto dest: next_entry_shorter [OF sym])

declare parse_orders.simps [simp del]

lemma parse_orders_le: "parse_orders cvs code = Inr (os, rest) \<Longrightarrow> length rest \<le> length code"
proof (induction cvs code arbitrary: os rest rule: parse_orders.induct)
  case (1 cvs code)
  obtain x code' where e: "next_entry ''label:end'' code = (x, code')" by fastforce
  then show ?case using 1 next_entry_le [OF e]
    by (cases x) (fastforce simp: parse_orders.simps [of cvs code] and_then_Inr_iff)+
qed

section \<open>Functions\<close>

function parse_label_blocks :: "ConstValue list \<Rightarrow> string \<Rightarrow> (LabelBlock list \<times> string) result" where
  "parse_label_blocks cvs code =
     (case next_entry ''}'' code of
        (None, rest) \<Rightarrow> Inr ([], rest)
      | (Some line, code') \<Rightarrow>
          (case regex_match [Lit ''label:'', name_chars] line of
             Some [label] \<Rightarrow>
               and_then (parse_orders cvs code') (\<lambda>(os, code'').
               and_then (parse_label_blocks cvs code'') (\<lambda>(blocks, rest).
               Inr (\<lparr>label_name = label, orders = os\<rparr> # blocks, rest)))
           | _ \<Rightarrow> Inl ParseException))"
  by pat_completeness auto
termination
  by (relation "measure (\<lambda>(cvs, code). length code)")
    (auto dest!: next_entry_shorter [OF sym] parse_orders_le)

declare parse_label_blocks.simps [simp del]

lemma parse_label_blocks_le: "parse_label_blocks cvs code = Inr (bs, rest) \<Longrightarrow> length rest \<le> length code"
proof (induction cvs code arbitrary: bs rest rule: parse_label_blocks.induct)
  case (1 cvs code)
  obtain x code' where e: "next_entry ''}'' code = (x, code')" by fastforce
  show ?case
  proof (cases x)
    case None
    then show ?thesis using "1.prems" e next_entry_le [OF e] by (auto simp: parse_label_blocks.simps [of cvs code])
  next
    case (Some line)
    then obtain label os code'' blocks where r: "regex_match [Lit ''label:'', name_chars] line = Some [label]"
      "parse_orders cvs code' = Inr (os, code'')" "parse_label_blocks cvs code'' = Inr (blocks, rest)"
      using "1.prems" e by (auto simp: parse_label_blocks.simps [of cvs code] and_then_Inr_iff split: option.splits list.splits)
    have "length rest \<le> length code''" using "1.IH" [OF e [symmetric] Some r(1) refl refl r(2) refl r(3)] .
    then show ?thesis using parse_orders_le [OF r(2)] next_entry_le [OF e] by simp
  qed
qed

text \<open>
  The argument list of a function header: an empty token ends it, a malformed one is an error.
  The result is the map from argument index to type and the largest index.
\<close>

fun parse_arguments :: "string list \<Rightarrow> (u64 \<times> ArgumentInfo) list \<Rightarrow> u64 \<Rightarrow> ((u64 \<times> ArgumentInfo) list \<times> u64) result" where
  "parse_arguments [] arg_map max_arg_index = Inr (arg_map, max_arg_index)"
| "parse_arguments (arg # rest) arg_map max_arg_index =
     (case regex_match [number, Lit '':'', Rep Any 1 None] arg of
        Some [i, type] \<Rightarrow>
          and_then (stoull i) (\<lambda>arg_index.
          and_then (parse_argument_type type) (\<lambda>type_info.
          parse_arguments rest ((arg_index, type_info) # arg_map) (max_of arg_index max_arg_index)))
      | _ \<Rightarrow> (if arg = [] then Inr (arg_map, max_arg_index) else Inl ParseException))"

definition argument_list :: "(u64 \<times> ArgumentInfo) list \<Rightarrow> u64 \<Rightarrow> ArgumentInfo list result" where
  "argument_list arg_map max_arg_index =
     gather arg_map [0..<unat (if arg_map \<noteq> [] then max_arg_index + 1 else max_arg_index)]"

text \<open>
  The header of a function up to its opening brace: its index, name, sizes, argument types and
  return type.
\<close>

definition parse_function_header :: "ConstValue list \<Rightarrow> string \<Rightarrow>
    (u64 \<times> (LabelBlock list \<Rightarrow> Function)) result" where
  "parse_function_header cvs line =
     (case regex_match [number, Lit '':'', number, Lit '':var:'', number, Lit '':reg:'', number, Lit ''('',
         Rep Any 0 None, Lit '')->'', Rep Any 1 None, Lit ''{''] line of
        Some [i, name_const, vars, regs, args_str, ret] \<Rightarrow>
          and_then (stoull i) (\<lambda>index.
          and_then (stoull name_const) (\<lambda>name_index.
          and_then (get_const_value_as_string cvs name_index) (\<lambda>name.
          and_then (stoull vars) (\<lambda>variables'.
          and_then (stoull regs) (\<lambda>registers'.
          and_then (parse_arguments (tokens args_str) [] 0) (\<lambda>(arg_map, max_arg_index).
          and_then (parse_argument_type ret) (\<lambda>return_info.
          and_then (argument_list arg_map max_arg_index) (\<lambda>argument_infos.
          Inr (index, \<lambda>blocks. Function_new name variables' registers' blocks return_info argument_infos)))))))))
      | _ \<Rightarrow> Inl ParseException)"

function parse_function_loop :: "ConstValue list \<Rightarrow> string \<Rightarrow> (u64 \<times> Function) list \<Rightarrow> u64 \<Rightarrow>
    ((u64 \<times> Function) list \<times> u64 \<times> string) result" where
  "parse_function_loop cvs code function_map max_index =
     (case next_entry ''$end'' code of
        (None, rest) \<Rightarrow> Inr (function_map, max_index, rest)
      | (Some line, code') \<Rightarrow>
          and_then (parse_function_header cvs line) (\<lambda>(index, make).
          and_then (parse_label_blocks cvs code') (\<lambda>(blocks, code'').
          parse_function_loop cvs code'' ((index, make blocks) # function_map) (max_of index max_index))))"
  by pat_completeness auto
termination
  by (relation "measure (\<lambda>(cvs, code, m, i). length code)")
    (auto dest!: next_entry_shorter [OF sym] parse_label_blocks_le)

declare parse_function_loop.simps [simp del]

definition parse_function :: "ConstValue list \<Rightarrow> string \<Rightarrow> (Function list \<times> string) result" where
  "parse_function cvs code =
     and_then (parse_function_loop cvs code [] 0) (\<lambda>(function_map, max_index, rest).
     and_then (collect function_map max_index) (\<lambda>fs. Inr (fs, rest)))"

section \<open>Types in use\<close>

text \<open>The last number of an entry is taken over as the name of the type, as text.\<close>

definition parse_type_line :: "string \<Rightarrow> (u64 \<times> TypeInfo) result" where
  "parse_type_line line =
     (case regex_match [number, Lit '':'', number, Lit '':'', number] line of
        Some [i, j, type_name'] \<Rightarrow>
          and_then (stoull i) (\<lambda>index.
          and_then (stoull j) (\<lambda>import_index'.
          Inr (index, \<lparr>import_index = import_index', info_type_name = type_name'\<rparr>)))
      | _ \<Rightarrow> Inl ParseException)"

text \<open>
  The loop that three sections share, over the parser for one line of the section.
\<close>

function parse_entries :: "(string \<Rightarrow> (u64 \<times> 'a) result) \<Rightarrow> string \<Rightarrow> (u64 \<times> 'a) list \<Rightarrow> u64 \<Rightarrow>
    ((u64 \<times> 'a) list \<times> u64 \<times> string) result" where
  "parse_entries entry code entry_map max_index =
     (case next_entry ''$end'' code of
        (None, rest) \<Rightarrow> Inr (entry_map, max_index, rest)
      | (Some line, code') \<Rightarrow>
          and_then (entry line) (\<lambda>(index, v).
          parse_entries entry code' ((index, v) # entry_map) (max_of index max_index)))"
  by pat_completeness auto
termination
  by (relation "measure (\<lambda>(e, code, m, i). length code)") (auto dest: next_entry_shorter [OF sym])

declare parse_entries.simps [simp del]

definition parse_type :: "string \<Rightarrow> (TypeInfo list \<times> string) result" where
  "parse_type code =
     and_then (parse_entries parse_type_line code [] 0) (\<lambda>(type_map, max_index, rest).
     and_then (collect type_map max_index) (\<lambda>type_infos. Inr (type_infos, rest)))"

section \<open>Imports\<close>

definition parse_import_line :: "string \<Rightarrow> ConstValue list \<Rightarrow> string \<Rightarrow> (u64 \<times> string) result" where
  "parse_import_line this_module cvs line =
     (case regex_match [number, Lit '':'', name_chars, Lit ''#'', number] line of
        Some [i, target, j] \<Rightarrow>
          and_then (stoull i) (\<lambda>index.
          and_then (stoull j) (\<lambda>target_index.
          if target = ''const''
          then and_then (get_const_value_as_string cvs target_index) (\<lambda>imported. Inr (index, imported))
          else Inr (index, [])))
      | _ \<Rightarrow>
          (case regex_match [number, Lit '':this''] line of
             Some [i] \<Rightarrow> and_then (stoull i) (\<lambda>index. Inr (index, this_module))
           | _ \<Rightarrow> Inl ParseException))"

definition parse_import :: "string \<Rightarrow> ConstValue list \<Rightarrow> string \<Rightarrow> (string list \<times> string) result" where
  "parse_import this_module cvs code =
     and_then (parse_entries (parse_import_line this_module cvs) code [] 0) (\<lambda>(module_map, max_index, rest).
     and_then (collect module_map max_index) (\<lambda>names. Inr (names, rest)))"

section \<open>Type definitions\<close>

text \<open>The name of a field is the text of its number.\<close>

definition parse_field :: "ConstValue list \<Rightarrow> string \<Rightarrow> FieldInfo result" where
  "parse_field cvs field_str =
     (case regex_match [number, Lit '':'', name_chars] field_str of
        Some [field, type] \<Rightarrow>
          and_then (parse_primitive_type type) (\<lambda>p.
          Inr \<lparr>info_field_name = field, field_primitive_type = Some p,
               user_def_type = \<lparr>import_index = 0, info_type_name = []\<rparr>\<rparr>)
      | _ \<Rightarrow>
          (case regex_match [number, Lit '':'', number, Lit '':'', number] field_str of
             Some [field, i, j] \<Rightarrow>
               and_then (stoull i) (\<lambda>import_index'.
               and_then (stoull j) (\<lambda>type_const.
               and_then (get_const_value_as_string cvs type_const) (\<lambda>type_name'.
               Inr \<lparr>info_field_name = field, field_primitive_type = None,
                    user_def_type = \<lparr>import_index = import_index', info_type_name = type_name'\<rparr>\<rparr>)))
           | _ \<Rightarrow> Inl ParseException))"

fun parse_fields :: "ConstValue list \<Rightarrow> string list \<Rightarrow> FieldInfo list result" where
  "parse_fields cvs [] = Inr []"
| "parse_fields cvs (field_str # rest) =
     and_then (parse_field cvs field_str) (\<lambda>field.
     and_then (parse_fields cvs rest) (\<lambda>fields'.
     Inr (field # fields')))"

definition parse_type_define_line :: "ConstValue list \<Rightarrow> string \<Rightarrow> Type result" where
  "parse_type_define_line cvs line =
     (let define = (\<lambda>name fields_str parent'.
            and_then (parse_fields cvs (tokens fields_str)) (\<lambda>infos. Inr (Type_new None name 0 infos parent')))
      in case regex_match [number, Lit '':('', Rep Any 0 None, Lit ''):'', number, Lit '':'', number] line of
           Some [n, fields_str, i, j] \<Rightarrow>
             and_then (stoull n) (\<lambda>name_const.
             and_then (get_const_value_as_string cvs name_const) (\<lambda>name.
             and_then (stoull i) (\<lambda>extends_import_index.
             and_then (stoull j) (\<lambda>extends_const.
             and_then (get_const_value_as_string cvs extends_const) (\<lambda>extends_type_name.
             define name fields_str \<lparr>import_index = extends_import_index, info_type_name = extends_type_name\<rparr>)))))
         | _ \<Rightarrow>
             (case regex_match [number, Lit '':('', Rep Any 0 None, Lit '')''] line of
                Some [n, fields_str] \<Rightarrow>
                  and_then (stoull n) (\<lambda>name_const.
                  and_then (get_const_value_as_string cvs name_const) (\<lambda>name.
                  define name fields_str \<lparr>import_index = 0, info_type_name = []\<rparr>))
              | _ \<Rightarrow> Inl ParseException))"

function parse_type_define :: "ConstValue list \<Rightarrow> string \<Rightarrow> (Type list \<times> string) result" where
  "parse_type_define cvs code =
     (case next_entry ''$end'' code of
        (None, rest) \<Rightarrow> Inr ([], rest)
      | (Some line, code') \<Rightarrow>
          and_then (parse_type_define_line cvs line) (\<lambda>type.
          and_then (parse_type_define cvs code') (\<lambda>(types, rest).
          Inr (type # types, rest))))"
  by pat_completeness auto
termination
  by (relation "measure (\<lambda>(cvs, code). length code)") (auto dest: next_entry_shorter [OF sym])

declare parse_type_define.simps [simp del]

section \<open>Constants\<close>

text \<open>
  The value of a constant from the text of its bytes.
\<close>

definition const_value :: "(string \<Rightarrow> u64 result) \<Rightarrow> u64 \<Rightarrow> char \<Rightarrow> string \<Rightarrow> ConstValue result" where
  "const_value stod bytes type text' =
     (if type = CHR ''s'' then
        Inr \<lparr>const_byte_size = bytes, const_type = type, value_reference = bytes_of text'\<rparr>
      else if type = CHR ''i'' then
        and_then (stoll text') (\<lambda>v.
        Inr \<lparr>const_byte_size = bytes, const_type = type, value_reference = bytes_of_u64 v\<rparr>)
      else if type = CHR ''f'' then
        and_then (stod text') (\<lambda>v.
        Inr \<lparr>const_byte_size = bytes, const_type = type, value_reference = bytes_of_u64 v\<rparr>)
      else Inl ParseException)"

text \<open>
  One entry: \<open>word\<close> is the text before the hash mark and \<open>code\<close> the code from that mark on (from
  the start of the entry, if the code ends before a mark). The byte behind the mark starts the
  value; the code's terminating null byte can be read, nothing behind it. One more byte, the
  line break, is skipped behind the value.
\<close>

definition parse_const_entry :: "(string \<Rightarrow> u64 result) \<Rightarrow> string \<Rightarrow> string \<Rightarrow>
    (u64 \<times> ConstValue \<times> string) result" where
  "parse_const_entry stod word code =
     (case regex_match [number, Lit '':'', number, Lit '':'', Rep Word_char 1 (Some 1)] word of
        Some [i, n, t] \<Rightarrow>
          and_then (stoull i) (\<lambda>index.
          and_then (stoull n) (\<lambda>bytes.
          and_then (guard (length t = 1) ParseException) (\<lambda>_.
          and_then (guard (tl code \<noteq> []) ParseException) (\<lambda>_.
          and_then (guard (unat bytes \<le> length (tl code) + 1) undefined_behaviour) (\<lambda>_.
          and_then (const_value stod bytes (hd t) (take (unat bytes) (tl code @ [CHR 0x00]))) (\<lambda>c.
          and_then (guard (drop (unat bytes) (tl code) \<noteq> []) undefined_behaviour) (\<lambda>_.
          Inr (index, c, tl (drop (unat bytes) (tl code))))))))))
      | _ \<Rightarrow> Inl ParseException)"

lemma parse_const_entry_shorter:
  assumes "parse_const_entry stod word code = Inr (index, c, rest)"
  shows "length rest < length code"
proof -
  obtain n where "rest = tl (drop n (tl code))" "drop n (tl code) \<noteq> []"
    using assms by (auto simp: parse_const_entry_def and_then_Inr_iff guard_def split: option.splits list.splits if_splits)
  then show ?thesis by (cases code) auto
qed

lemma parse_const_entry_moved:
  assumes "parse_const_entry stod word code' = Inr (index, c, rest)" "move_until HASH_MARK code = (word, code')"
  shows "length rest < length code"
  using parse_const_entry_shorter [OF assms(1)] move_until_le [OF assms(2)] by simp

function parse_const_loop :: "(string \<Rightarrow> u64 result) \<Rightarrow> string \<Rightarrow> (u64 \<times> ConstValue) list \<Rightarrow> u64 \<Rightarrow>
    ((u64 \<times> ConstValue) list \<times> u64 \<times> string) result" where
  "parse_const_loop stod code value_map max_index =
     (if code = [] then Inr (value_map, max_index, [])
      else case move_until_next_line code of (line, cp) \<Rightarrow>
        if line = ''$end'' then Inr (value_map, max_index, cp)
        else if line = [] then parse_const_loop stod cp value_map max_index
        else case move_until HASH_MARK code of (word, code') \<Rightarrow>
          and_then (parse_const_entry stod word code') (\<lambda>(index, c, rest).
          parse_const_loop stod rest ((index, c) # value_map) (max_of index max_index)))"
  by pat_completeness auto
termination
  by (relation "measure (\<lambda>(stod, code, m, i). length code)")
    (auto dest: move_until_next_line_shorter [OF sym] parse_const_entry_moved [OF _ sym])

declare parse_const_loop.simps [simp del]

definition parse_const :: "(string \<Rightarrow> u64 result) \<Rightarrow> string \<Rightarrow> (ConstValue list \<times> string) result" where
  "parse_const stod code =
     and_then (parse_const_loop stod code [] 0) (\<lambda>(value_map, max_index, rest).
     and_then (collect value_map max_index) (\<lambda>values. Inr (values, rest)))"

section \<open>Modules\<close>

record parser_state =
  p_const_values :: "ConstValue list"
  p_imports :: "string list"
  p_type_defines :: "Type list"
  p_using_types :: "TypeInfo list"
  p_functions :: "Function list"

text \<open>One section: the line that opens it has been read. Other lines are skipped.\<close>

definition parse_section :: "(string \<Rightarrow> u64 result) \<Rightarrow> string \<Rightarrow> string \<Rightarrow> string \<Rightarrow> parser_state \<Rightarrow>
    (parser_state \<times> string) result" where
  "parse_section stod name line code st =
     (if line = ''$const'' then
        and_then (parse_const stod code) (\<lambda>(v, rest). Inr (st\<lparr>p_const_values := v\<rparr>, rest))
      else if line = ''$import'' then
        and_then (parse_import name (p_const_values st) code) (\<lambda>(v, rest). Inr (st\<lparr>p_imports := v\<rparr>, rest))
      else if line = ''$typedef'' then
        and_then (parse_type_define (p_const_values st) code) (\<lambda>(v, rest). Inr (st\<lparr>p_type_defines := v\<rparr>, rest))
      else if line = ''$type'' then
        and_then (parse_type code) (\<lambda>(v, rest). Inr (st\<lparr>p_using_types := v\<rparr>, rest))
      else if line = ''$function'' then
        and_then (parse_function (p_const_values st) code) (\<lambda>(v, rest). Inr (st\<lparr>p_functions := v\<rparr>, rest))
      else Inr (st, code))"

lemma parse_entries_le: "parse_entries entry code m i = Inr (m', i', rest) \<Longrightarrow> length rest \<le> length code"
proof (induction entry code m i arbitrary: m' i' rest rule: parse_entries.induct)
  case (1 entry code m i)
  obtain x code' where e: "next_entry ''$end'' code = (x, code')" by fastforce
  then show ?case using 1 next_entry_le [OF e]
    by (cases x) (fastforce simp: parse_entries.simps [of entry code] and_then_Inr_iff)+
qed

lemma parse_type_define_le: "parse_type_define cvs code = Inr (ts, rest) \<Longrightarrow> length rest \<le> length code"
proof (induction cvs code arbitrary: ts rest rule: parse_type_define.induct)
  case (1 cvs code)
  obtain x code' where e: "next_entry ''$end'' code = (x, code')" by fastforce
  then show ?case using 1 next_entry_le [OF e]
    by (cases x) (fastforce simp: parse_type_define.simps [of cvs code] and_then_Inr_iff)+
qed

lemma parse_function_loop_le:
  "parse_function_loop cvs code m i = Inr (m', i', rest) \<Longrightarrow> length rest \<le> length code"
proof (induction cvs code m i arbitrary: m' i' rest rule: parse_function_loop.induct)
  case (1 cvs code m i)
  obtain x code' where e: "next_entry ''$end'' code = (x, code')" by fastforce
  show ?case
  proof (cases x)
    case None
    then show ?thesis using "1.prems" e next_entry_le [OF e] by (simp add: parse_function_loop.simps [of cvs code])
  next
    case (Some line)
    then obtain index make blocks code'' where r: "parse_function_header cvs line = Inr (index, make)"
      "parse_label_blocks cvs code' = Inr (blocks, code'')"
      "parse_function_loop cvs code'' ((index, make blocks) # m) (max_of index i) = Inr (m', i', rest)"
      using "1.prems" e by (auto simp: parse_function_loop.simps [of cvs code] and_then_Inr_iff)
    have "length rest \<le> length code''" using "1.IH" [OF e [symmetric] Some r(1) refl r(2) refl r(3)] .
    then show ?thesis using parse_label_blocks_le [OF r(2)] next_entry_le [OF e] by simp
  qed
qed

lemma parse_const_loop_le:
  "parse_const_loop stod code m i = Inr (m', i', rest) \<Longrightarrow> length rest \<le> length code"
proof (induction stod code m i arbitrary: m' i' rest rule: parse_const_loop.induct)
  case (1 stod code m i)
  obtain line cp where l: "move_until_next_line code = (line, cp)" by fastforce
  obtain word code' where w: "move_until HASH_MARK code = (word, code')" by fastforce
  note unfold = parse_const_loop.simps [of stod code]
  consider (stop) "code = [] \<or> line = ''$end''" | (skip) "code \<noteq> []" "line = []" | (entry) "code \<noteq> []" "line \<noteq> []" "line \<noteq> ''$end''"
    by blast
  then show ?case
  proof cases
    case stop
    then show ?thesis using "1.prems" l move_until_next_line_le [OF l] by (auto simp: unfold split: if_splits)
  next
    case skip
    then have "parse_const_loop stod cp m i = Inr (m', i', rest)" using "1.prems" l by (simp add: unfold)
    from "1.IH"(1) [OF skip(1) l [symmetric] _ skip(2) this] skip(2) show ?thesis
      using move_until_next_line_le [OF l] by simp
  next
    case entry
    then obtain index c rest' where r: "parse_const_entry stod word code' = Inr (index, c, rest')"
      "parse_const_loop stod rest' ((index, c) # m) (max_of index i) = Inr (m', i', rest)"
      using "1.prems" l w by (auto simp: unfold and_then_Inr_iff)
    have "length rest \<le> length rest'"
      by (rule "1.IH"(2) [OF _ l [symmetric] _ _ w [symmetric] r(1) refl refl r(2)]) (use entry in auto)
    then show ?thesis using parse_const_entry_moved [OF r(1) w] by simp
  qed
qed

lemma parse_section_le:
  assumes "parse_section stod name line code st = Inr (st', rest)"
  shows "length rest \<le> length code"
  using assms
  by (auto simp: parse_section_def parse_const_def parse_import_def parse_type_def parse_function_def and_then_Inr_iff
      split: if_splits dest!: parse_const_loop_le parse_entries_le parse_type_define_le parse_function_loop_le)

function parse_loop :: "(string \<Rightarrow> u64 result) \<Rightarrow> string \<Rightarrow> string \<Rightarrow> parser_state \<Rightarrow> parser_state result" where
  "parse_loop stod name code st =
     (if code = [] then Inr st
      else case move_until_next_line code of (line, code') \<Rightarrow>
        and_then (parse_section stod name line code' st) (\<lambda>(st', rest).
        parse_loop stod name rest st'))"
  by pat_completeness auto
termination
  by (relation "measure (\<lambda>(stod, name, code, st). length code)")
    (auto dest!: move_until_next_line_shorter [OF sym] parse_section_le)

declare parse_loop.simps [simp del]

text \<open>
  \<^verbatim>\<open>parser::parse\<close>: the null pointer (\<open>None\<close>) for a module whose text is not well-formed.
\<close>

definition parse :: "(string \<Rightarrow> u64 result) \<Rightarrow> string \<Rightarrow> string \<Rightarrow> Module option result" where
  "parse stod name code =
     (case parse_loop stod name code \<lparr>p_const_values = [], p_imports = [], p_type_defines = [], p_using_types = [],
         p_functions = []\<rparr> of
        Inr st \<Rightarrow> Inr (Some (Module_new name (p_const_values st) (p_imports st) (p_type_defines st)
                                (p_using_types st) (p_functions st)))
      | Inl ParseException \<Rightarrow> Inr None
      | Inl e \<Rightarrow> Inl e)"

end
