(* ===== verification/Loader.thy ===== *)
theory Loader
  imports Parser Interpreter "HOL-Library.AList"
begin

text \<open>
  The module tables of the machine and \<^verbatim>\<open>CatVM::load_module\<close> (\<^verbatim>\<open>src/vm/CatVM.cpp\<close>).

  \<^verbatim>\<open>load_module\<close> reads and parses the module and everything it imports, then runs over the new
  modules once per phase: resolve the imports, resolve parent and field types, lay out the
  fields of every class, resolve the types in use and the types of functions, allocate the
  module's fields and link the orders. The order in which the code visits an
  \<^verbatim>\<open>unordered_set\<close> is unspecified: \<open>pick\<close> is the first element of the set of names still to be
  read, \<open>iter\<close> the order of the set of new modules.

  A phase ends in three ways: it goes on (\<open>Next\<close>), \<^verbatim>\<open>load_module\<close> returns the null pointer
  (\<open>Return_null\<close>, with the machine as it is by then), or an exception of the parser or an
  undefined access ends it (\<open>Inl\<close>).
\<close>

section \<open>The machine\<close>

record CatVM =
  threads :: "VMThread list"
  next_thread_id :: u64
  pre_loaded_module_map :: "(string \<times> string) list"
  loaded_module_map :: modules
  vm_heap_allocator :: HeapAllocator
  vm_memory :: memory

definition get_module :: "CatVM \<Rightarrow> string \<Rightarrow> string option" where
  "get_module vm name = map_option (\<lambda>_. name) (loaded_module_map vm name)"

definition get_pre_loaded_module :: "CatVM \<Rightarrow> string \<Rightarrow> string" where
  "get_pre_loaded_module vm name = (case map_of (pre_loaded_module_map vm) name of Some code \<Rightarrow> code | None \<Rightarrow> '''')"

definition register_module :: "Module \<Rightarrow> CatVM \<Rightarrow> CatVM" where
  "register_module md vm = vm\<lparr>loaded_module_map := (loaded_module_map vm)(mod_name md \<mapsto> md)\<rparr>"

definition pre_load_module :: "string \<Rightarrow> string \<Rightarrow> CatVM \<Rightarrow> CatVM" where
  "pre_load_module name code vm = vm\<lparr>pre_loaded_module_map := AList.update name code (pre_loaded_module_map vm)\<rparr>"

definition create_thread :: "u64 \<Rightarrow> u64 \<Rightarrow> CatVM \<Rightarrow> VMThread \<times> CatVM" where
  "create_thread stack here vm =
     (let (al, m) = HeapAllocator_new False 1024 1 (vm_memory vm);
          thread = \<lparr>thread_id = next_thread_id vm, stack_size = stack, top_of_stack_address = here,
            current_function = None, current_label_block = None, current_order_index = 0,
            return_function = False, thread_allocator = al, allocator_search_start_index = 0\<rparr>
      in (thread, vm\<lparr>threads := threads vm @ [thread], next_thread_id := next_thread_id vm + 1, vm_memory := m\<rparr>))"

definition add_heap_allocator_chunk :: "addr \<Rightarrow> memory \<Rightarrow> memory" where
  "add_heap_allocator_chunk chunk m = m\<lparr>heap_chunk_list := heap_chunk_list m @ [chunk]\<rparr>"

text \<open>The new vector starts with as many null pointers as there are chunks.\<close>

definition clone_heap_chunk_list :: "memory \<Rightarrow> addr list" where
  "clone_heap_chunk_list m =
     fold (\<lambda>chunk new_chunk_list. new_chunk_list @ [chunk]) (heap_chunk_list m)
       (replicate (length (heap_chunk_list m)) nullptr)"

section \<open>Control flow of the loader\<close>

datatype 's flow = Next 's | Return_null 's

fun and_next :: "'s flow result \<Rightarrow> ('s \<Rightarrow> 's flow result) \<Rightarrow> 's flow result" where
  "and_next (Inr (Next s)) f = f s"
| "and_next (Inr (Return_null s)) f = Inr (Return_null s)"
| "and_next (Inl e) f = Inl e"

fun for_each :: "('x \<Rightarrow> 's \<Rightarrow> 's flow result) \<Rightarrow> 'x list \<Rightarrow> 's \<Rightarrow> 's flow result" where
  "for_each f [] s = Inr (Next s)"
| "for_each f (x # xs) s = and_next (f x s) (for_each f xs)"

definition defined :: "'a option \<Rightarrow> 'a result" where
  "defined x = (case x of None \<Rightarrow> Inl undefined_behaviour | Some v \<Rightarrow> Inr v)"

definition update_type :: "nat \<Rightarrow> (Type \<Rightarrow> Type) \<Rightarrow> Module \<Rightarrow> Module" where
  "update_type i f md = md\<lparr>type_defines := (type_defines md)[i := f (type_defines md ! i)]\<rparr>"

section \<open>Reading the modules\<close>

definition insert_name :: "string \<Rightarrow> string list \<Rightarrow> string list" where
  "insert_name n ns = (if n \<in> set ns then ns else ns @ [n])"

definition current_of :: "(string list \<Rightarrow> nat) \<Rightarrow> string list \<Rightarrow> string" where
  "current_of pick names = names ! (pick names mod length names)"

lemma current_of_in: "names \<noteq> [] \<Longrightarrow> current_of pick names \<in> set names"
  by (simp add: current_of_def)

text \<open>A null pointer from the parser is dereferenced at once, by the loop over its imports.\<close>

function read_modules :: "(string \<Rightarrow> u64 result) \<Rightarrow> (string list \<Rightarrow> nat) \<Rightarrow> (string \<times> string) list \<Rightarrow>
    string list \<Rightarrow> string list \<Rightarrow> modules \<Rightarrow> (string list \<times> modules) flow result" where
  "read_modules stod pick pre names new_modules ms =
     (if names = [] then Inr (Next (new_modules, ms))
      else let current_name = current_of pick names in
        if ms current_name \<noteq> None then
          read_modules stod pick pre (remove1 current_name names) new_modules ms
        else case map_of pre current_name of
          None \<Rightarrow> Inr (Return_null (new_modules, ms))
        | Some code \<Rightarrow>
            if code = [] then Inr (Return_null (new_modules, ms))
            else and_then (parse stod current_name code) (\<lambda>module_ptr.
              case module_ptr of
                None \<Rightarrow> Inl undefined_behaviour
              | Some md \<Rightarrow>
                  read_modules stod pick pre
                    (fold insert_name (import_module_names md) (remove1 current_name names))
                    (new_modules @ [current_name]) (ms(current_name \<mapsto> md))))"
  by pat_completeness auto
termination
proof (relation "measures [\<lambda>(stod, pick, pre, names, new, ms). card {n \<in> set (map fst pre). ms n = None},
    \<lambda>(stod, pick, pre, names, new, ms). length names]", goal_cases)
  case (2 stod pick pre names new ms cur)
  then show ?case using current_of_in [of names pick] by (auto simp: length_remove1 intro!: diff_less length_pos_if_in_set)
next
  case (3 stod pick pre names new ms cur code ptr md)
  let ?A = "{n \<in> set (map fst pre). ms n = None}"
  have "cur \<in> fst ` set pre" using 3 by (metis fst_conv imageI map_of_SomeD)
  then have cur: "cur \<in> ?A" using 3 by simp
  have "{n \<in> set (map fst pre). (ms(cur \<mapsto> md)) n = None} = ?A - {cur}" by auto
  then have "card {n \<in> set (map fst pre). (ms(cur \<mapsto> md)) n = None} < card ?A"
    using card_Diff1_less [OF _ cur] by simp
  then show ?case by simp
qed simp

declare read_modules.simps [simp del]

section \<open>Resolving imports and types\<close>

definition resolve_import :: "string \<Rightarrow> string \<Rightarrow> modules \<Rightarrow> modules flow result" where
  "resolve_import n imported ms =
     (case ms imported of
        None \<Rightarrow> Inr (Return_null ms)
      | Some _ \<Rightarrow> and_then (defined (ms n)) (\<lambda>md.
          Inr (Next (ms(n \<mapsto> md\<lparr>import_modules := import_modules md @ [imported]\<rparr>)))))"

definition resolve_imports :: "string \<Rightarrow> modules \<Rightarrow> modules flow result" where
  "resolve_imports n ms =
     and_then (defined (ms n)) (\<lambda>md. for_each (resolve_import n) (import_module_names md) ms)"

text \<open>\<^verbatim>\<open>mod->import_modules[index]->type_define_map[name]\<close>: null for an unknown name.\<close>

definition imported_type :: "modules \<Rightarrow> Module \<Rightarrow> u64 \<Rightarrow> string \<Rightarrow> type_ptr option result" where
  "imported_type ms md index name =
     and_then (nth_or (import_modules md) (unat index)) (\<lambda>m.
     and_then (defined (ms m)) (\<lambda>imported.
     Inr (lookup_type imported name)))"

definition resolve_field :: "modules \<Rightarrow> Module \<Rightarrow> FieldInfo \<Rightarrow> Field result" where
  "resolve_field ms md info =
     (case field_primitive_type info of
        Some p \<Rightarrow> Inr \<lparr>field_name = info_field_name info, field_type = get_from_primitive_type (Some p)\<rparr>
      | None \<Rightarrow>
          and_then (imported_type ms md (import_index (user_def_type info)) (info_type_name (user_def_type info))) (\<lambda>t.
          Inr \<lparr>field_name = info_field_name info, field_type = t\<rparr>))"

fun traverse :: "('a \<Rightarrow> 'b result) \<Rightarrow> 'a list \<Rightarrow> 'b list result" where
  "traverse f [] = Inr []"
| "traverse f (x # xs) = and_then (f x) (\<lambda>y. and_then (traverse f xs) (\<lambda>ys. Inr (y # ys)))"

definition resolve_type :: "string \<Rightarrow> nat \<Rightarrow> modules \<Rightarrow> modules flow result" where
  "resolve_type n i ms =
     and_then (defined (ms n)) (\<lambda>md.
     and_then (nth_or (type_defines md) i) (\<lambda>type.
     and_then (if info_type_name (parent_info type) \<noteq> ''''
               then imported_type ms md (import_index (parent_info type)) (info_type_name (parent_info type))
               else Inr (parent type)) (\<lambda>parent'.
     and_then (traverse (resolve_field ms md) (field_infos type)) (\<lambda>fs.
     Inr (Next (ms(n \<mapsto> update_type i (\<lambda>t. t\<lparr>parent := parent', add_fields := add_fields t @ fs\<rparr>) md)))))))"

definition for_types :: "(string \<Rightarrow> nat \<Rightarrow> modules \<Rightarrow> modules flow result) \<Rightarrow> string \<Rightarrow> modules \<Rightarrow> modules flow result" where
  "for_types f n ms = and_then (defined (ms n)) (\<lambda>md. for_each (f n) [0..<length (type_defines md)] ms)"

section \<open>Field layout\<close>

text \<open>
  The walk up the parents of a type: the types met, the type itself first, or \<open>Some None\<close> if it
  comes back to a type it has met.
\<close>

partial_function (option) parent_chain :: "modules \<Rightarrow> type_ptr option \<Rightarrow> type_ptr list \<Rightarrow> type_ptr list option option" where
  "parent_chain ms current_type found_types =
     (case current_type of
        None \<Rightarrow> Some (Some found_types)
      | Some t \<Rightarrow>
          if t \<in> set found_types then Some None
          else do { type \<leftarrow> type_at ms t; parent_chain ms (parent type) (found_types @ [t]) })"

text \<open>Append fields until a name occurs twice; whether all were appended.\<close>

fun append_fields :: "Field list \<Rightarrow> string list \<Rightarrow> Field list \<Rightarrow> bool \<times> Field list" where
  "append_fields [] found_field_names acc = (True, acc)"
| "append_fields (f # fs) found_field_names acc =
     (if field_name f \<in> set found_field_names then (False, acc)
      else append_fields fs (field_name f # found_field_names) (acc @ [f]))"

definition fields_of :: "modules \<Rightarrow> type_ptr \<Rightarrow> Field list" where
  "fields_of ms t = (case type_at ms t of Some type \<Rightarrow> add_fields type | None \<Rightarrow> [])"

text \<open>A field of unknown type is a null pointer, which the marking loop dereferences.\<close>

definition field_Type :: "modules \<Rightarrow> Field \<Rightarrow> Type option" where
  "field_Type ms f = Option.bind (field_type f) (type_at ms)"

definition is_reference :: "modules \<Rightarrow> Field \<Rightarrow> bool" where
  "is_reference ms f = (case field_Type ms f of Some type \<Rightarrow> primitive_type type = None | None \<Rightarrow> False)"

definition reference_bits :: "modules \<Rightarrow> Field list \<Rightarrow> u8 list result" where
  "reference_bits ms fs =
     (if list_all (\<lambda>f. field_Type ms f \<noteq> None) fs
      then defined (mark_flags set_flag (\<lambda>i. is_reference ms (fs ! i)) [0..<length fs] (create_bitset (length fs)))
      else Inl undefined_behaviour)"

definition layout_type :: "string \<Rightarrow> nat \<Rightarrow> modules \<Rightarrow> modules flow result" where
  "layout_type n i ms =
     and_then (defined (ms n)) (\<lambda>md.
     and_then (nth_or (type_defines md) i) (\<lambda>type.
     and_then (defined (parent_chain ms (Some (DefT n i)) [])) (\<lambda>parents.
     case parents of
       None \<Rightarrow> Inr (Return_null ms)
     | Some ts \<Rightarrow>
         (case append_fields (concat (map (fields_of ms) (rev ts))) [] (all_fields type) of
            (False, fs) \<Rightarrow> Inr (Return_null (ms(n \<mapsto> update_type i (\<lambda>t. t\<lparr>all_fields := fs\<rparr>) md)))
          | (True, fs) \<Rightarrow>
              and_then (reference_bits ms fs) (\<lambda>bits.
              Inr (Next (ms(n \<mapsto> update_type i (\<lambda>t. t\<lparr>all_fields := fs, reference_fields := Some bits\<rparr>) md))))))))"

section \<open>Types in use, function types, module fields, linking\<close>

definition resolve_using_types :: "string \<Rightarrow> modules \<Rightarrow> modules flow result" where
  "resolve_using_types n ms =
     and_then (defined (ms n)) (\<lambda>md.
     and_then (traverse (\<lambda>info. imported_type ms md (import_index info) (info_type_name info)) (using_type_infos md)) (\<lambda>ts.
     Inr (Next (ms(n \<mapsto> md\<lparr>using_types := using_types md @ ts\<rparr>)))))"

definition argument_type :: "Module \<Rightarrow> ArgumentInfo \<Rightarrow> type_ptr option result" where
  "argument_type md info =
     (case arg_primitive_type info of
        Some p \<Rightarrow> Inr (get_from_primitive_type (Some p))
      | None \<Rightarrow> nth_or (using_types md) (unat (arg_type_index info)))"

definition resolve_function :: "Module \<Rightarrow> Function \<Rightarrow> Function result" where
  "resolve_function md function =
     and_then (argument_type md (return_type_info function)) (\<lambda>ret.
     and_then (traverse (argument_type md) (argument_type_infos function)) (\<lambda>args.
     Inr (function\<lparr>return_type := ret, argument_types := argument_types function @ args\<rparr>)))"

definition resolve_functions :: "string \<Rightarrow> modules \<Rightarrow> modules flow result" where
  "resolve_functions n ms =
     and_then (defined (ms n)) (\<lambda>md.
     and_then (traverse (resolve_function md) (mod_functions md)) (\<lambda>fs.
     Inr (Next (ms(n \<mapsto> md\<lparr>mod_functions := fs\<rparr>)))))"

definition cycling :: "modules \<Rightarrow> type_ptr \<Rightarrow> bool" where
  "cycling ms t = (case type_at ms t of Some type \<Rightarrow> is_cycling_type type | None \<Rightarrow> False)"

definition allocate_module_fields :: "string \<Rightarrow> CatVM \<Rightarrow> CatVM flow result" where
  "allocate_module_fields n vm =
     and_then (defined (loaded_module_map vm n)) (\<lambda>md.
     case lookup_type md (mod_name md) of
       None \<Rightarrow> Inr (Next vm)
     | Some t \<Rightarrow>
         and_then (defined (type_at (loaded_module_map vm) t)) (\<lambda>type.
         and_then (defined (HeapAllocator_malloc (cycling (loaded_module_map vm)) t (of_nat (length (add_fields type)))
             (vm_heap_allocator vm) 0 (vm_memory vm))) (\<lambda>(al, m, object, start).
         Inr (Next (vm\<lparr>loaded_module_map := (loaded_module_map vm)(n \<mapsto> md\<lparr>module_fields := object\<rparr>),
                      vm_heap_allocator := al, vm_memory := m\<rparr>)))))"

definition link_block :: "modules \<Rightarrow> Module \<Rightarrow> Function \<Rightarrow> LabelBlock \<Rightarrow> LabelBlock result" where
  "link_block ms md function block =
     and_then (traverse (\<lambda>order. defined (link ms md function order)) (orders block)) (\<lambda>os.
     Inr (block\<lparr>orders := os\<rparr>))"

definition link_function :: "modules \<Rightarrow> Module \<Rightarrow> Function \<Rightarrow> Function result" where
  "link_function ms md function =
     and_then (traverse (link_block ms md function) (label_blocks function)) (\<lambda>blocks.
     Inr (function\<lparr>label_blocks := blocks\<rparr>))"

definition link_module :: "string \<Rightarrow> modules \<Rightarrow> modules flow result" where
  "link_module n ms =
     and_then (defined (ms n)) (\<lambda>md.
     and_then (traverse (link_function ms md) (mod_functions md)) (\<lambda>fs.
     Inr (Next (ms(n \<mapsto> md\<lparr>mod_functions := fs\<rparr>)))))"

section \<open>\<open>load_module\<close>\<close>

fun map_flow :: "('a \<Rightarrow> 'b) \<Rightarrow> 'a flow result \<Rightarrow> 'b flow result" where
  "map_flow f (Inr (Next s)) = Inr (Next (f s))"
| "map_flow f (Inr (Return_null s)) = Inr (Return_null (f s))"
| "map_flow f (Inl e) = Inl e"

definition on_modules :: "(modules \<Rightarrow> modules flow result) \<Rightarrow> CatVM \<Rightarrow> CatVM flow result" where
  "on_modules f vm = map_flow (\<lambda>ms. vm\<lparr>loaded_module_map := ms\<rparr>) (f (loaded_module_map vm))"

definition link_phases :: "string list \<Rightarrow> CatVM \<Rightarrow> CatVM flow result" where
  "link_phases new_modules vm =
     and_next (on_modules (for_each resolve_imports new_modules) vm) (\<lambda>vm.
     and_next (on_modules (for_each (for_types resolve_type) new_modules) vm) (\<lambda>vm.
     and_next (on_modules (for_each (for_types layout_type) new_modules) vm) (\<lambda>vm.
     and_next (on_modules (for_each resolve_using_types new_modules) vm) (\<lambda>vm.
     and_next (on_modules (for_each resolve_functions new_modules) vm) (\<lambda>vm.
     and_next (for_each allocate_module_fields new_modules vm) (\<lambda>vm.
     on_modules (for_each link_module new_modules) vm))))))"

text \<open>The result is the pointer to the first module read, null if that is already loaded.\<close>

definition load_module :: "(string \<Rightarrow> u64 result) \<Rightarrow> (string list \<Rightarrow> nat) \<Rightarrow> (string list \<Rightarrow> string list) \<Rightarrow> string \<Rightarrow>
    CatVM \<Rightarrow> (string option \<times> CatVM) result" where
  "load_module stod pick iter name vm =
     and_then (read_modules stod pick (pre_loaded_module_map vm) [name] [] (loaded_module_map vm)) (\<lambda>r.
     case r of
       Return_null (new_modules, ms) \<Rightarrow> Inr (None, vm\<lparr>loaded_module_map := ms\<rparr>)
     | Next (new_modules, ms) \<Rightarrow>
         and_then (link_phases (iter new_modules) (vm\<lparr>loaded_module_map := ms\<rparr>)) (\<lambda>r.
         case r of
           Return_null vm' \<Rightarrow> Inr (None, vm')
         | Next vm' \<Rightarrow> Inr (case new_modules of [] \<Rightarrow> None | n # _ \<Rightarrow> Some n, vm')))"

end
