(* ===== verification/Parser_Correct.thy ===== *)
theory Parser_Correct
  imports Parser
begin

text \<open>
  The parser inverts printing: a printer for modules, section by section, and the round trip
  through every function of the parser up to \<^verbatim>\<open>parser::parse\<close>.
\<close>

section \<open>Numbers as text\<close>

definition digit_char :: "nat \<Rightarrow> char" where
  "digit_char d = char_of (48 + d)"

fun show_nat :: "nat \<Rightarrow> string" where
  "show_nat n = (if n < 10 then [digit_char n] else show_nat (n div 10) @ [digit_char (n mod 10)])"

declare show_nat.simps [simp del]

lemma of_digit_char: "d < 10 \<Longrightarrow> (of_char (digit_char d) :: nat) = 48 + d"
  by (simp add: digit_char_def)

lemma digit_char_props:
  assumes "d < 10"
  shows "is_digit (digit_char d)" "digit_value (digit_char d) = d"
  using of_digit_char [OF assms] assms by (simp_all add: is_digit_def digit_value_def)

lemma show_nat_digits: "list_all is_digit (show_nat n)"
proof (induction n rule: show_nat.induct)
  case (1 n)
  then show ?case by (subst show_nat.simps) (simp add: digit_char_props)
qed

lemma show_nat_not_Nil [simp]: "show_nat n \<noteq> []"
  by (subst show_nat.simps) simp

lemma decimal_show_nat: "decimal (show_nat n) = n"
proof (induction n rule: show_nat.induct)
  case (1 n)
  show ?case
  proof (cases "n < 10")
    case True
    then show ?thesis by (subst show_nat.simps) (simp add: decimal_def digit_char_props)
  next
    case False
    then have "decimal (show_nat n) = 10 * decimal (show_nat (n div 10)) + n mod 10"
      by (subst show_nat.simps) (simp add: decimal_def digit_char_props)
    then show ?thesis using 1 False by simp
  qed
qed

lemma is_digit_not_space: "is_digit c \<Longrightarrow> \<not> is_space c \<and> c \<noteq> CHR ''-'' \<and> c \<noteq> CHR ''+''"
  by (auto simp: is_digit_def is_space_def)

lemma number_prefix_digits:
  assumes "list_all is_digit ds" "ds \<noteq> []"
  shows "number_prefix ds = Inr (False, decimal ds)"
proof -
  obtain c cs where ds: "ds = c # cs" using assms(2) by (cases ds) auto
  then have c: "\<not> is_space c" "c \<noteq> CHR ''-''" "c \<noteq> CHR ''+''" using assms(1) is_digit_not_space by auto
  have "takeWhile is_digit ds = ds" using assms(1) by (simp add: list_all_iff takeWhile_eq_all_conv)
  then show ?thesis using ds c by (simp add: number_prefix_def)
qed

lemma stoull_show [simp]: "stoull (show_nat (unat w)) = Inr (w :: u64)"
  using unsigned_less [where 'a = nat, of w] number_prefix_digits [OF show_nat_digits show_nat_not_Nil, of "unat w"]
  by (simp add: stoull_def decimal_show_nat)

lemma stoull_show_nat: "n < 2 ^ 64 \<Longrightarrow> stoull (show_nat n) = Inr (of_nat n)"
  using number_prefix_digits [OF show_nat_digits show_nat_not_Nil, of n] by (simp add: stoull_def decimal_show_nat)

section \<open>Matching\<close>

lemma strip_append [simp]: "strip l (l @ r) = Some r"
  by (simp add: strip_def)

lemma try_lengths_back:
  assumes "k (drop m s) = Some caps" "lo \<le> m" "m \<le> n" "\<forall>i. m < i \<and> i \<le> n \<longrightarrow> k (drop i s) = None"
  shows "try_lengths k lo s n = Some (take m s # caps)"
  using assms(3,4)
proof (induction n)
  case 0
  then show ?case using assms(1,2) by (subst try_lengths.simps) simp
next
  case (Suc n)
  show ?case
  proof (cases "m = Suc n")
    case True
    then show ?thesis using assms(1,2) by (subst try_lengths.simps) simp
  next
    case False
    then have "try_lengths k lo s n = Some (take m s # caps)" using Suc by auto
    moreover have "k (drop (Suc n) s) = None" using Suc.prems False by auto
    ultimately show ?thesis using assms(2) Suc.prems(1) by (subst try_lengths.simps) simp
  qed
qed

lemma try_lengths_None:
  assumes "\<forall>i. lo \<le> i \<and> i \<le> n \<longrightarrow> k (drop i s) = None"
  shows "try_lengths k lo s n = None"
  using assms
proof (induction n)
  case 0
  then show ?case by (subst try_lengths.simps) auto
next
  case (Suc n)
  then show ?case by (subst try_lengths.simps) auto
qed

text \<open>A repetition that is followed by a character outside its class takes exactly its run.\<close>

lemma match_Rep:
  assumes "list_all (in_class c) a" "r = [] \<or> \<not> in_class c (hd r)" "lo \<le> length a" "regex_match is r = Some caps"
  shows "regex_match (Rep c lo None # is) (a @ r) = Some (a # caps)"
proof -
  have "takeWhile (in_class c) (a @ r) = a"
    using assms(1,2) by (cases r) (auto simp: list_all_iff takeWhile_append takeWhile_eq_all_conv)
  then show ?thesis using try_lengths_back [of "regex_match is" "length a" "a @ r" caps lo "length a"] assms(3,4) by simp
qed

lemma match_number:
  assumes "r = [] \<or> \<not> is_digit (hd r)" "regex_match is r = Some caps"
  shows "regex_match (number # is) (show_nat n @ r) = Some (show_nat n # caps)"
  using match_Rep [of Digit "show_nat n" r 1 "is" caps] assms show_nat_digits [of n]
  by (simp add: Suc_le_eq list_all_iff)

lemma match_Lit: "regex_match is r = Some caps \<Longrightarrow> regex_match (Lit l # is) (l @ r) = Some caps"
  by simp

text \<open>
  A repetition of arbitrary characters in front of a literal takes everything up to the last
  position at which the rest of the expression matches.
\<close>

lemma match_Any_last:
  assumes "list_all (in_class Any) (a @ r)" "lo \<le> length a" "regex_match is r = Some caps"
    "\<forall>x y. r = x @ y \<and> x \<noteq> [] \<longrightarrow> regex_match is y = None"
  shows "regex_match (Rep Any lo None # is) (a @ r) = Some (a # caps)"
proof -
  have run: "takeWhile (in_class Any) (a @ r) = a @ r" using assms(1) by (simp only: list_all_iff takeWhile_eq_all_conv)
  have "regex_match is (drop i (a @ r)) = None" if "length a < i" "i \<le> length (a @ r)" for i
  proof -
    have "r = take (i - length a) r @ drop (i - length a) r" "take (i - length a) r \<noteq> []" using that by auto
    then show ?thesis using assms(4) that(1) by (metis drop_append drop_all less_imp_le_nat append_Nil)
  qed
  then have "try_lengths (regex_match is) lo (a @ r) (length (a @ r)) = Some (take (length a) (a @ r) # caps)"
    using assms(2,3) by (intro try_lengths_back) auto
  then show ?thesis unfolding regex_match.simps Let_def option.case run by simp
qed

section \<open>Lines and lists of entries\<close>

text \<open>A text that survives the line reader: no line breaks and no spaces.\<close>

definition plain :: "string \<Rightarrow> bool" where
  "plain s = list_all (\<lambda>c. c \<noteq> newline \<and> c \<noteq> CHR '' '' \<and> c \<noteq> CHR 0x0D) s"

lemma plain_append [simp]: "plain (a @ b) = (plain a \<and> plain b)"
  by (simp add: plain_def)

lemma plain_Cons: "plain (c # s) = (c \<noteq> newline \<and> c \<noteq> CHR '' '' \<and> c \<noteq> CHR 0x0D \<and> plain s)"
  by (simp add: plain_def)

lemma plain_Nil [simp]: "plain []"
  by (simp add: plain_def)

lemma plain_digits: "list_all is_digit ds \<Longrightarrow> plain ds"
  by (auto simp: plain_def list_all_iff newline_def is_digit_def)

lemma plain_show [simp]: "plain (show_nat n)"
  by (rule plain_digits [OF show_nat_digits])

lemma plain_word: "list_all is_word s \<Longrightarrow> plain s"
  by (auto simp: plain_def list_all_iff newline_def is_word_def is_digit_def)

lemma plain_any: "plain s \<Longrightarrow> list_all (in_class Any) s"
  by (auto simp: plain_def list_all_iff)

lemma read_line: "plain l \<Longrightarrow> move_until_next_line (l @ newline # rest) = (l, rest)"
  by (induction l) (auto simp: plain_Cons)

lemma next_entry_line:
  assumes "plain l" "l \<noteq> []" "l \<noteq> m"
  shows "next_entry m (l @ newline # rest) = (Some l, rest)"
  using assms by (subst next_entry.simps) (simp add: read_line)

lemma next_entry_end: "plain m \<Longrightarrow> next_entry m (m @ newline # rest) = (None, rest)"
  by (subst next_entry.simps) (simp add: read_line)

lemma comma_parts_single: "CHR '','' \<notin> set p \<Longrightarrow> comma_parts p = [p]"
  by (induction p) auto

lemma comma_parts_append: "CHR '','' \<notin> set p \<Longrightarrow> comma_parts (p @ CHR '','' # s) = p # comma_parts s"
  by (induction p) auto

fun join_commas :: "string list \<Rightarrow> string" where
  "join_commas [] = []"
| "join_commas [p] = p"
| "join_commas (p # q # ps) = p @ CHR '','' # join_commas (q # ps)"

lemma comma_parts_join:
  "ps \<noteq> [] \<Longrightarrow> \<forall>p \<in> set ps. CHR '','' \<notin> set p \<Longrightarrow> comma_parts (join_commas ps) = ps"
  by (induction ps rule: join_commas.induct) (auto simp: comma_parts_single comma_parts_append)

lemma tokens_join:
  assumes "ps \<noteq> []" "\<forall>p \<in> set ps. CHR '','' \<notin> set p \<and> p \<noteq> []"
  shows "tokens (join_commas ps) = ps"
proof -
  have "last ps \<noteq> []" using assms by (metis last_in_set)
  then show ?thesis using comma_parts_join [OF assms(1)] assms(2) by (simp add: tokens_def)
qed

lemma plain_join: "plain (join_commas ps) = list_all plain ps"
  by (induction ps rule: join_commas.induct) (auto simp: plain_Cons newline_def)

lemma map_of_rev_distinct: "distinct (map fst xs) \<Longrightarrow> map_of (rev xs) = map_of xs"
  by (rule map_of_inject_set [THEN iffD2]) (auto simp: rev_map [symmetric])

abbreviation numbered :: "nat \<Rightarrow> 'a list \<Rightarrow> (u64 \<times> 'a) list" where
  "numbered k vs \<equiv> zip (map of_nat [k..<k + length vs]) vs"

lemma distinct_of_nat:
  assumes "b \<le> 2 ^ 64"
  shows "distinct (map (of_nat :: nat \<Rightarrow> u64) [a..<b])"
proof -
  have "x = y" if "(of_nat x :: u64) = of_nat y" "x < b" "y < b" for x y
  proof -
    have "unat (of_nat x :: u64) = x" "unat (of_nat y :: u64) = y" using that assms by (intro unat_of_nat_id; simp)+
    then show ?thesis using that(1) by metis
  qed
  then show ?thesis by (simp add: distinct_map inj_on_def)
qed

lemma gather_numbered:
  assumes "length vs \<le> 2 ^ 64"
  shows "gather (rev (numbered 0 vs)) [0..<length vs] = Inr vs"
proof -
  have d: "distinct (map fst (numbered 0 vs))" using assms distinct_of_nat [of "length vs" 0] by simp
  have look: "map_of (rev (numbered 0 vs)) (of_nat i) = Some (vs ! i)" if "i < length vs" for i
    using map_of_zip_nth [of "map of_nat [0..<length vs] :: u64 list" vs i] that assms distinct_of_nat [of "length vs" 0]
    unfolding map_of_rev_distinct [OF d] by simp
  have "gather (rev (numbered 0 vs)) is = Inr (map ((!) vs) is)" if "\<forall>i \<in> set is. i < length vs" for "is"
    using that by (induction "is") (auto simp: look [simplified])
  from this [of "[0..<length vs]"] show ?thesis by (simp add: map_nth)
qed

lemma collect_numbered:
  assumes "length vs < 2 ^ 64"
  shows "collect (rev (numbered 0 vs)) (if vs = [] then i else of_nat (length vs - 1)) = Inr vs"
proof (cases "vs = []")
  case True
  then show ?thesis by (simp add: collect_def)
next
  case False
  then have "(of_nat (length vs - 1) :: u64) + 1 = of_nat (length vs)"
    by (metis One_nat_def Suc_pred add.commute length_greater_0_conv of_nat_Suc)
  then have "unat ((of_nat (length vs - 1) :: u64) + 1) = length vs" using assms by (simp add: unat_of_nat_id)
  then show ?thesis using False gather_numbered [of vs] assms by (simp add: collect_def)
qed

lemma max_of_next: "unat i \<le> k \<Longrightarrow> k < 2 ^ 64 \<Longrightarrow> max_of (of_nat k) i = of_nat k"
  by (auto simp: max_of_def word_less_nat_alt unat_of_nat_id word_unat_eq_iff)

fun print_entries :: "(nat \<Rightarrow> 'a \<Rightarrow> string) \<Rightarrow> nat \<Rightarrow> 'a list \<Rightarrow> string" where
  "print_entries pr k [] = ''$end'' @ [newline]"
| "print_entries pr k (v # vs) = pr k v @ newline # print_entries pr (Suc k) vs"

lemma plain_end: "plain ''$end''"
  by (simp add: plain_def newline_def)

lemma parse_entries_print:
  assumes "\<forall>v \<in> set vs. \<forall>j < 2 ^ 64. entry (pr j v) = Inr (of_nat j, v) \<and> plain (pr j v) \<and> pr j v \<noteq> [] \<and> pr j v \<noteq> ''$end''"
    and "k + length vs < 2 ^ 64" "unat mx \<le> k"
  shows "parse_entries entry (print_entries pr k vs @ rest) m mx =
    Inr (rev (numbered k vs) @ m, if vs = [] then mx else of_nat (k + length vs - 1), rest)"
  using assms
proof (induction vs arbitrary: k m mx)
  case Nil
  then show ?case using next_entry_end [OF plain_end, of rest] by (simp add: parse_entries.simps [of _ "_ # _"])
next
  case (Cons v vs)
  have v: "entry (pr k v) = Inr (of_nat k, v)" "plain (pr k v)" "pr k v \<noteq> []" "pr k v \<noteq> ''$end''"
    using Cons.prems(1,2) by auto
  have mx: "max_of (of_nat k) mx = of_nat k" using Cons.prems by (intro max_of_next) auto
  have "unat (of_nat k :: u64) = k" using Cons.prems(2) by (intro unat_of_nat_id) simp
  then have "parse_entries entry (print_entries pr (Suc k) vs @ rest) ((of_nat k, v) # m) (of_nat k) =
      Inr (rev (numbered (Suc k) vs) @ (of_nat k, v) # m, if vs = [] then of_nat k else of_nat (Suc k + length vs - 1), rest)"
    using Cons.prems by (intro Cons.IH) auto
  moreover have "numbered k (v # vs) = (of_nat k, v) # numbered (Suc k) vs" by (simp add: upt_conv_Cons del: upt_Suc)
  ultimately show ?case using next_entry_line [OF v(2-4), of "print_entries pr (Suc k) vs @ rest"] v(1) mx
    by (subst parse_entries.simps) simp
qed

section \<open>Orders\<close>

text \<open>Texts that can stand between commas and next to an assignment sign.\<close>

definition token :: "string \<Rightarrow> bool" where
  "token s \<longleftrightarrow> plain s \<and> CHR '','' \<notin> set s \<and> CHR ''='' \<notin> set s \<and> s \<noteq> []"

lemma token_word: "list_all is_word s \<Longrightarrow> s \<noteq> [] \<Longrightarrow> token s"
  by (auto simp: token_def plain_word) (auto simp: list_all_iff is_word_def is_digit_def)

lemma digit_is_word: "is_digit c \<Longrightarrow> is_word c"
  by (simp add: is_word_def)

lemma token_show [simp]: "token (show_nat n)"
  using show_nat_digits [of n] by (intro token_word) (auto simp: list_all_iff digit_is_word)

lemma token_primitive [simp]: "token (primitive_name p)"
  by (cases p) (simp_all add: token_def plain_def newline_def)

lemma token_append: "token a \<Longrightarrow> token b \<Longrightarrow> token (a @ b)"
  by (auto simp: token_def)

definition print_register :: "u64 \<Rightarrow> string" where
  "print_register r = ''reg#'' @ show_nat (unat r)"

definition print_bool :: "bool \<Rightarrow> string" where
  "print_bool b = (if b then ''true'' else ''false'')"

lemma token_prefixes [simp]: "token ''reg#''" "token ''type#''" "token ''const#''" "token ''const''" "token ''arg''"
  "token ''iadd''" "token ''jump_to''" "token ''ret''" "token ''set_field''" "token (print_bool b)"
  by (simp_all add: token_def plain_def newline_def print_bool_def)

lemma token_register [simp]: "token (print_register r)"
  unfolding print_register_def by (intro token_append) simp_all

lemma parse_register_print [simp]: "parse_register_or_variable_number (print_register r) = Inr r"
proof -
  have "regex_match [number] (show_nat (unat r)) = Some [show_nat (unat r)]"
    using match_number [of "[]" "[]" "[]" "unat r"] by simp
  then have "regex_match [Lit ''#'', number] (''#'' @ show_nat (unat r)) = Some [show_nat (unat r)]"
    by (rule match_Lit)
  moreover have "strip ''reg'' (''reg'' @ ''#'' @ show_nat (unat r)) = Some (''#'' @ show_nat (unat r))" by (rule strip_append)
  ultimately have "regex_match [Alt [''reg'', ''var''], Lit ''#'', number] (print_register r) = Some [''reg'', show_nat (unat r)]"
    by (simp add: print_register_def del: regex_match.simps(2) add: regex_match.simps(4))
  then show ?thesis by (simp add: parse_register_or_variable_number_def)
qed

lemma parse_bool_print [simp]: "parse_bool (print_bool b) = Inr b"
  by (simp add: parse_bool_def print_bool_def)

lemma c_str_primitive: "c_str (primitive_name p) = primitive_name p"
  by (cases p) (simp_all add: c_str_def)

lemma parse_primitive_print [simp]: "parse_primitive_type (primitive_name p) = Inr p"
  by (cases p) (simp_all add: parse_primitive_type_def c_str_def all_types_def)

lemma match_prefixed: "regex_match [Lit l, number] (l @ show_nat n) = Some [show_nat n]"
  using match_number [of "[]" "[]" "[]" n] by simp

lemma parse_using_type_print [simp]: "parse_using_type_index (''type#'' @ show_nat (unat u)) = Inr u"
  unfolding parse_using_type_index_def match_prefixed by simp

lemma parse_const_value_print: "k < 2 ^ 64 \<Longrightarrow> parse_const_value_index (''const#'' @ show_nat k) = Inr (of_nat k)"
  unfolding parse_const_value_index_def match_prefixed by (simp add: stoull_show_nat)

text \<open>The position of a text among the constants.\<close>

definition find_const :: "ConstValue list \<Rightarrow> string \<Rightarrow> nat option" where
  "find_const cvs s = List.find (\<lambda>k. get_const_value_as_string cvs (of_nat k) = Inr s) [0..<length cvs]"

definition const_index_of :: "ConstValue list \<Rightarrow> string \<Rightarrow> nat" where
  "const_index_of cvs s = (case find_const cvs s of Some k \<Rightarrow> k | None \<Rightarrow> 0)"

lemma find_const_Some:
  assumes "find_const cvs s \<noteq> None"
  shows "get_const_value_as_string cvs (of_nat (const_index_of cvs s)) = Inr s" "const_index_of cvs s < length cvs"
proof -
  obtain k where k: "find_const cvs s = Some k" using assms by auto
  then have "get_const_value_as_string cvs (of_nat k) = Inr s \<and> k < length cvs" by (auto simp: find_const_def find_Some_iff)
  then show "get_const_value_as_string cvs (of_nat (const_index_of cvs s)) = Inr s" "const_index_of cvs s < length cvs"
    using k by (simp_all add: const_index_of_def)
qed

definition table_ok :: "ConstValue list \<Rightarrow> bool" where
  "table_ok cvs \<longleftrightarrow> length cvs < 2 ^ 64"

fun print_order :: "ConstValue list \<Rightarrow> Order \<Rightarrow> string" where
  "print_order cvs (GetConstInteger t r i) =
     print_register r @ ''='' @ join_commas [''const'', primitive_name t, show_nat (unat i)]"
| "print_order cvs (GetArgument r i) = print_register r @ ''='' @ join_commas [''arg'', show_nat (unat i)]"
| "print_order cvs (AddInteger t r a b) =
     print_register r @ ''='' @ join_commas [''iadd'', primitive_name t, print_register a, print_register b]"
| "print_order cvs (JumpToLabel l b) = join_commas [''jump_to'', l]"
| "print_order cvs (ReturnFunction r) = join_commas [''ret'', print_register r]"
| "print_order cvs (SetObjectFieldOwnership p ob u n i lock) =
     join_commas [''set_field'', print_register p, print_register ob, print_bool lock, ''type#'' @ show_nat (unat u),
       ''const#'' @ show_nat (const_index_of cvs n)]"
| "print_order cvs _ = []"

fun printable_order :: "ConstValue list \<Rightarrow> Order \<Rightarrow> bool" where
  "printable_order cvs (GetConstInteger t r i) \<longleftrightarrow> r \<noteq> SIZE_MAX"
| "printable_order cvs (GetArgument r i) \<longleftrightarrow> r \<noteq> SIZE_MAX"
| "printable_order cvs (AddInteger t r a b) \<longleftrightarrow> r \<noteq> SIZE_MAX"
| "printable_order cvs (JumpToLabel l b) \<longleftrightarrow> list_all is_word l \<and> l \<noteq> [] \<and> b = None"
| "printable_order cvs (ReturnFunction r) \<longleftrightarrow> True"
| "printable_order cvs (SetObjectFieldOwnership p ob u n i lock) \<longleftrightarrow> find_const cvs n \<noteq> None \<and> i = 0"
| "printable_order cvs _ \<longleftrightarrow> False"

lemma join_no_equals: "\<forall>p \<in> set ps. CHR ''='' \<notin> set p \<Longrightarrow> CHR ''='' \<notin> set (join_commas ps)"
  by (induction ps rule: join_commas.induct) auto

lemma match_no_equals:
  assumes "CHR ''='' \<notin> set s"
  shows "regex_match [Lit ''='', Rep Any 1 None] s = None" "regex_match [Rep Any 1 None, Lit ''='', Rep Any 1 None] s = None"
proof -
  have none: "regex_match [Lit ''='', Rep Any 1 None] t = None" if "CHR ''='' \<notin> set t" for t
    using that by (cases t) (auto simp: strip_def)
  then show "regex_match [Lit ''='', Rep Any 1 None] s = None" using assms by simp
  have "regex_match [Lit ''='', Rep Any 1 None] (drop i s) = None" for i
    using assms none by (meson in_set_dropD)
  then show "regex_match [Rep Any 1 None, Lit ''='', Rep Any 1 None] s = None"
    by (simp add: try_lengths_None del: regex_match.simps(2) add: regex_match.simps(3))
qed

lemma match_assignment:
  assumes "plain a" "a \<noteq> []" "plain b" "b \<noteq> []" "CHR ''='' \<notin> set b"
  shows "regex_match [Rep Any 1 None, Lit ''='', Rep Any 1 None] (a @ ''='' @ b) = Some [a, b]"
proof (rule match_Any_last)
  have "regex_match [Rep Any 1 None] (b @ []) = Some [b]"
    using assms(3,4) plain_any [of b] by (intro match_Rep) (auto simp: Suc_le_eq)
  then show "regex_match [Lit ''='', Rep Any 1 None] (''='' @ b) = Some [b]" using match_Lit [of _ b _ "''=''"] by simp
  show "list_all (in_class Any) (a @ ''='' @ b)" using assms(1,3) plain_any [of a] plain_any [of b] by (simp add: newline_def)
  show "1 \<le> length a" using assms(2) by (simp add: Suc_le_eq)
  show "\<forall>x y. ''='' @ b = x @ y \<and> x \<noteq> [] \<longrightarrow> regex_match [Lit ''='', Rep Any 1 None] y = None"
  proof (intro allI impI)
    fix x y assume "''='' @ b = x @ y \<and> x \<noteq> []"
    then have "set y \<subseteq> set b" by (cases x) auto
    then show "regex_match [Lit ''='', Rep Any 1 None] y = None" using assms(5) by (intro match_no_equals(1)) auto
  qed
qed

lemma plain_token: "token s \<Longrightarrow> plain s"
  by (simp add: token_def)

lemma tokens_tokens: "ps \<noteq> [] \<Longrightarrow> \<forall>p \<in> set ps. token p \<Longrightarrow> tokens (join_commas ps) = ps"
  by (intro tokens_join) (auto simp: token_def)

lemma join_tokens:
  assumes "ps \<noteq> []" "\<forall>p \<in> set ps. token p"
  shows "plain (join_commas ps)" "CHR ''='' \<notin> set (join_commas ps)" "join_commas ps \<noteq> []"
proof -
  show "plain (join_commas ps)" using assms by (simp add: plain_join list_all_iff plain_token)
  show "CHR ''='' \<notin> set (join_commas ps)" using assms by (intro join_no_equals) (auto simp: token_def)
  show "join_commas ps \<noteq> []" using assms by (cases ps rule: join_commas.cases) (auto simp: token_def)
qed

lemma parse_assignment_line:
  assumes "ps \<noteq> []" "\<forall>p \<in> set ps. token p"
  shows "parse_order_line cvs (print_register r @ ''='' @ join_commas ps) = parse_order r (hd ps) (tl ps) cvs"
proof -
  have "regex_match [Rep Any 1 None, Lit ''='', Rep Any 1 None] (print_register r @ ''='' @ join_commas ps) =
      Some [print_register r, join_commas ps]"
    using join_tokens [OF assms] plain_token [OF token_register, of r]
    by (intro match_assignment) (auto simp: print_register_def)
  then show ?thesis using tokens_tokens [OF assms] assms(1) unfolding parse_order_line_def
    by (cases ps) (simp_all del: regex_match.simps)
qed

lemma parse_bare_line:
  assumes "ps \<noteq> []" "\<forall>p \<in> set ps. token p"
  shows "parse_order_line cvs (join_commas ps) = parse_order SIZE_MAX (hd ps) (tl ps) cvs"
  using match_no_equals(2) [OF join_tokens(2) [OF assms]] tokens_tokens [OF assms] assms(1)
  unfolding parse_order_line_def by (cases ps) (simp_all del: regex_match.simps)

lemma parse_set_field:
  assumes "parse_register_or_variable_number a = Inr p" "parse_register_or_variable_number b = Inr ob" "parse_bool c = Inr lock"
    "parse_using_type_index d = Inr u" "parse_const_value_index e = Inr k" "get_const_value_as_string cvs k = Inr n"
  shows "parse_order SIZE_MAX ''set_field'' [a, b, c, d, e] cvs = Inr (SetObjectFieldOwnership p ob u n 0 lock)"
  using assms by (simp add: parse_order_def eval_nat_numeral)

lemma parse_order_print:
  assumes "printable_order cvs ord" "table_ok cvs"
  shows "parse_order_line cvs (print_order cvs ord) = Inr ord"
proof (cases ord)
  case (GetConstInteger t r i)
  then show ?thesis using assms parse_assignment_line [of "[''const'', primitive_name t, show_nat (unat i)]" cvs r]
    by (simp add: parse_order_def)
next
  case (GetArgument r i)
  then show ?thesis using assms parse_assignment_line [of "[''arg'', show_nat (unat i)]" cvs r] by (simp add: parse_order_def)
next
  case (AddInteger t r a b)
  then show ?thesis
    using assms parse_assignment_line [of "[''iadd'', primitive_name t, print_register a, print_register b]" cvs r]
    by (simp add: parse_order_def nth_or_def)
next
  case (JumpToLabel l b)
  then have "token l" using assms(1) token_word by simp
  then show ?thesis using assms JumpToLabel parse_bare_line [of "[''jump_to'', l]" cvs]
    by (simp add: parse_order_def JumpToLabel_new_def)
next
  case (ReturnFunction r)
  then show ?thesis using parse_bare_line [of "[''ret'', print_register r]" cvs] by (simp add: parse_order_def)
next
  case (SetObjectFieldOwnership p ob u n i lock)
  let ?k = "const_index_of cvs n"
  have n: "get_const_value_as_string cvs (of_nat ?k) = Inr n" "?k < 2 ^ 64" "i = 0"
    using find_const_Some [of cvs n] assms SetObjectFieldOwnership by (auto simp: table_ok_def)
  let ?ps = "[''set_field'', print_register p, print_register ob, print_bool lock, ''type#'' @ show_nat (unat u),
    ''const#'' @ show_nat ?k]"
  have "\<forall>q \<in> set ?ps. token q"
    using token_append [of "''type#''" "show_nat (unat u)"] token_append [of "''const#''" "show_nat ?k"]
    by (simp del: append.simps)
  from parse_bare_line [OF _ this, of cvs] have "parse_order_line cvs (join_commas ?ps) = parse_order SIZE_MAX (hd ?ps) (tl ?ps) cvs"
    by simp
  also have "\<dots> = Inr (SetObjectFieldOwnership p ob u n 0 lock)"
    unfolding list.sel
    by (rule parse_set_field [OF parse_register_print parse_register_print parse_bool_print parse_using_type_print
          parse_const_value_print [OF n(2)] n(1)])
  finally show ?thesis using SetObjectFieldOwnership n(3) by (simp only: print_order.simps)
qed (use assms(1) in simp_all)

lemma print_order_line:
  assumes "printable_order cvs ord"
  shows "plain (print_order cvs ord) \<and> CHR '','' \<in> set (print_order cvs ord)"
proof -
  have reg: "plain (print_register r)" for r by (rule plain_token [OF token_register])
  have eq: "plain ''=''" by (simp add: plain_def newline_def)
  have join: "plain (join_commas ps) \<and> CHR '','' \<in> set (join_commas ps)"
    if "\<forall>p \<in> set ps. token p" "2 \<le> length ps" for ps
  proof -
    have "ps \<noteq> []" using that(2) by auto
    moreover have "CHR '','' \<in> set (join_commas ps)" using that(2) by (cases ps rule: join_commas.cases) auto
    ultimately show ?thesis using join_tokens(1) that(1) by blast
  qed
  show ?thesis
  proof (cases ord)
    case (SetObjectFieldOwnership p ob u n i lock)
    have "\<forall>q \<in> set [''set_field'', print_register p, print_register ob, print_bool lock, ''type#'' @ show_nat (unat u),
        ''const#'' @ show_nat (const_index_of cvs n)]. token q"
      using token_append [of "''type#''" "show_nat (unat u)"] token_append [of "''const#''" "show_nat (const_index_of cvs n)"]
      by (simp del: append.simps)
    from join [OF this] show ?thesis using SetObjectFieldOwnership by (simp del: join_commas.simps)
  next
    case (JumpToLabel l b)
    then have "token l" using assms token_word by simp
    then show ?thesis using JumpToLabel join [of "[''jump_to'', l]"] by simp
  qed (use assms reg eq join [of "[_, _]"] join [of "[_, _, _]"] join [of "[_, _, _, _]"] in \<open>simp_all add: plain_Cons newline_def del: join_commas.simps\<close>)
qed

fun print_order_list :: "ConstValue list \<Rightarrow> Order list \<Rightarrow> string" where
  "print_order_list cvs [] = ''label:end'' @ [newline]"
| "print_order_list cvs (ord # os) = print_order cvs ord @ newline # print_order_list cvs os"

lemma parse_orders_print:
  assumes "list_all (printable_order cvs) os" "table_ok cvs"
  shows "parse_orders cvs (print_order_list cvs os @ rest) = Inr (os, rest)"
  using assms(1)
proof (induction os)
  case Nil
  have "plain ''label:end''" by (simp add: plain_def newline_def)
  from next_entry_end [OF this, of rest] show ?case by (simp add: parse_orders.simps [of _ "_ # _"])
next
  case (Cons ord os)
  then have p: "printable_order cvs ord" by simp
  have l: "plain (print_order cvs ord)" "print_order cvs ord \<noteq> []" "print_order cvs ord \<noteq> ''label:end''"
    using print_order_line [OF p] by auto
  show ?case using next_entry_line [OF l, of "print_order_list cvs os @ rest"] parse_order_print [OF p assms(2)] Cons
    by (subst parse_orders.simps) simp
qed

section \<open>Functions\<close>

definition printable_block :: "ConstValue list \<Rightarrow> LabelBlock \<Rightarrow> bool" where
  "printable_block cvs b \<longleftrightarrow> list_all is_word (label_name b) \<and> label_name b \<noteq> [] \<and> list_all (printable_order cvs) (orders b)"

fun print_blocks :: "ConstValue list \<Rightarrow> LabelBlock list \<Rightarrow> string" where
  "print_blocks cvs [] = ''}'' @ [newline]"
| "print_blocks cvs (b # bs) = (''label:'' @ label_name b) @ newline # print_order_list cvs (orders b) @ print_blocks cvs bs"

lemma parse_label_blocks_step:
  assumes "next_entry ''}'' code = (Some line, code')" "regex_match [Lit ''label:'', name_chars] line = Some [label]"
    "parse_orders cvs code' = Inr (os, code'')" "parse_label_blocks cvs code'' = Inr (bs, rest)"
  shows "parse_label_blocks cvs code = Inr (\<lparr>label_name = label, orders = os\<rparr> # bs, rest)"
  using assms by (subst parse_label_blocks.simps) (simp del: regex_match.simps)

lemma parse_blocks_print:
  assumes "list_all (printable_block cvs) bs" "table_ok cvs"
  shows "parse_label_blocks cvs (print_blocks cvs bs @ rest) = Inr (bs, rest)"
  using assms(1)
proof (induction bs)
  case Nil
  have "plain ''}''" by (simp add: plain_def newline_def)
  from next_entry_end [OF this, of rest] show ?case by (simp add: parse_label_blocks.simps [of _ "_ # _"])
next
  case (Cons b bs)
  then have b: "list_all is_word (label_name b)" "label_name b \<noteq> []" "list_all (printable_order cvs) (orders b)"
    by (simp_all add: printable_block_def)
  let ?l = "''label:'' @ label_name b"
  have "plain ''label:''" by (simp add: plain_def newline_def)
  then have "plain ?l" using plain_word [OF b(1)] by (simp del: append_Cons)
  then have l: "plain ?l" "?l \<noteq> []" "?l \<noteq> ''}''" by simp_all
  have "regex_match [name_chars] (label_name b @ []) = Some [label_name b]"
    using b(1,2) by (intro match_Rep) (auto simp: list_all_iff Suc_le_eq)
  then have m: "regex_match [Lit ''label:'', name_chars] ?l = Some [label_name b]"
    using match_Lit [of _ "label_name b" _ "''label:''"] by simp
  have ords: "parse_orders cvs (print_order_list cvs (orders b) @ print_blocks cvs bs @ rest) = Inr (orders b, print_blocks cvs bs @ rest)"
    by (rule parse_orders_print [OF b(3) assms(2)])
  have code: "print_blocks cvs (b # bs) @ rest = ?l @ newline # print_order_list cvs (orders b) @ print_blocks cvs bs @ rest"
    by simp
  have "parse_label_blocks cvs (print_blocks cvs bs @ rest) = Inr (bs, rest)" using Cons by simp
  from parse_label_blocks_step [OF next_entry_line [OF l] m ords this] show ?case unfolding code by simp
qed

fun print_argument_type :: "ArgumentInfo \<Rightarrow> string" where
  "print_argument_type info =
     (case arg_primitive_type info of Some p \<Rightarrow> primitive_name p | None \<Rightarrow> ''type#'' @ show_nat (unat (arg_type_index info)))"

definition printable_argument :: "ArgumentInfo \<Rightarrow> bool" where
  "printable_argument info \<longleftrightarrow> (arg_primitive_type info \<noteq> None \<longrightarrow> arg_type_index info = 0)"

lemma parse_argument_type_print:
  assumes "printable_argument info"
  shows "parse_argument_type (print_argument_type info) = Inr info"
proof (cases "arg_primitive_type info")
  case None
  then show ?thesis unfolding parse_argument_type_def print_argument_type.simps None option.case match_prefixed using None by (cases info) simp
next
  case (Some p)
  have "regex_match [Lit ''type#'', number] (primitive_name p) = None" by (cases p) (simp_all add: strip_def)
  then show ?thesis using Some assms by (cases info) (simp add: parse_argument_type_def printable_argument_def)
qed

lemma token_argument_type: "token (print_argument_type info)"
  using token_append [of "''type#''" "show_nat (unat (arg_type_index info))"]
  by (simp split: option.split del: append.simps)

fun print_arguments :: "nat \<Rightarrow> ArgumentInfo list \<Rightarrow> string list" where
  "print_arguments k [] = []"
| "print_arguments k (info # infos) = (show_nat k @ '':'' @ print_argument_type info) # print_arguments (Suc k) infos"

lemma no_digit_colon: "\<not> is_digit (hd ('':'' @ s))"
  by (simp add: is_digit_def)

lemma token_argument: "token (show_nat k @ '':'' @ print_argument_type info)"
proof -
  have "token '':''" by (simp add: token_def plain_def newline_def)
  then show ?thesis using token_append token_argument_type token_show by blast
qed

lemma print_arguments_tokens: "\<forall>p \<in> set (print_arguments k infos). token p"
  by (induction infos arbitrary: k) (auto simp: token_argument simp del: append.simps print_argument_type.simps)

lemma match_argument:
  "regex_match [number, Lit '':'', Rep Any 1 None] (show_nat k @ '':'' @ print_argument_type info) =
     Some [show_nat k, print_argument_type info]"
proof (rule match_number)
  have t: "token (print_argument_type info)" by (rule token_argument_type)
  have "regex_match [Rep Any 1 None] (print_argument_type info @ []) = Some [print_argument_type info]"
    using t plain_any [of "print_argument_type info"] by (intro match_Rep) (auto simp: token_def Suc_le_eq)
  then show "regex_match [Lit '':'', Rep Any 1 None] ('':'' @ print_argument_type info) = Some [print_argument_type info]"
    using match_Lit [of _ "print_argument_type info" _ "'':''"] by simp
qed (simp add: is_digit_def)

lemma parse_arguments_step:
  assumes "regex_match [number, Lit '':'', Rep Any 1 None] arg = Some [i, ty]" "stoull i = Inr k" "parse_argument_type ty = Inr info"
  shows "parse_arguments (arg # rest) m mx = parse_arguments rest ((k, info) # m) (max_of k mx)"
  using assms by (simp del: regex_match.simps)

lemma parse_arguments_print:
  assumes "list_all printable_argument infos" "k + length infos < 2 ^ 64" "unat mx \<le> k"
  shows "parse_arguments (print_arguments k infos) m mx =
    Inr (rev (numbered k infos) @ m, if infos = [] then mx else of_nat (k + length infos - 1))"
  using assms
proof (induction infos arbitrary: k m mx)
  case Nil
  then show ?case by simp
next
  case (Cons info infos)
  have k: "stoull (show_nat k) = Inr (of_nat k)" using Cons.prems(2) by (intro stoull_show_nat) simp
  have p: "parse_argument_type (print_argument_type info) = Inr info"
    using Cons.prems(1) by (intro parse_argument_type_print) simp
  have mx: "max_of (of_nat k) mx = of_nat k" using Cons.prems by (intro max_of_next) auto
  have "unat (of_nat k :: u64) = k" using Cons.prems(2) by (intro unat_of_nat_id) simp
  then have "parse_arguments (print_arguments (Suc k) infos) ((of_nat k, info) # m) (of_nat k) =
      Inr (rev (numbered (Suc k) infos) @ (of_nat k, info) # m, if infos = [] then of_nat k else of_nat (Suc k + length infos - 1))"
    using Cons.prems by (intro Cons.IH) auto
  moreover have "numbered k (info # infos) = (of_nat k, info) # numbered (Suc k) infos" by (simp add: upt_conv_Cons del: upt_Suc)
  ultimately show ?case unfolding print_arguments.simps parse_arguments_step [OF match_argument k p] mx by simp
qed

lemma argument_list_print:
  assumes "length infos < 2 ^ 64"
  shows "argument_list (rev (numbered 0 infos)) (if infos = [] then 0 else of_nat (length infos - 1)) = Inr infos"
proof (cases "infos = []")
  case True
  then show ?thesis by (simp add: argument_list_def)
next
  case False
  then have "(of_nat (length infos - 1) :: u64) + 1 = of_nat (length infos)"
    by (metis One_nat_def Suc_pred add.commute length_greater_0_conv of_nat_Suc)
  then have "unat ((of_nat (length infos - 1) :: u64) + 1) = length infos" using assms by (simp add: unat_of_nat_id)
  then show ?thesis using False gather_numbered [of infos] assms by (simp add: argument_list_def)
qed

lemma parse_argument_tokens:
  assumes "list_all printable_argument infos" "length infos < 2 ^ 64"
  shows "parse_arguments (tokens (join_commas (print_arguments 0 infos))) [] 0 =
    Inr (rev (numbered 0 infos), if infos = [] then 0 else of_nat (length infos - 1))"
proof (cases "infos = []")
  case True
  have "regex_match [number, Lit '':'', Rep Any 1 None] [] = None" by (simp add: try_lengths.simps)
  then show ?thesis using True by (simp add: tokens_def del: regex_match.simps)
next
  case False
  then have "print_arguments 0 infos \<noteq> []" by (cases infos) auto
  from tokens_tokens [OF this print_arguments_tokens] show ?thesis
    using parse_arguments_print [OF assms(1), of 0 0 "[]"] assms(2) False by simp
qed

definition print_header :: "ConstValue list \<Rightarrow> nat \<Rightarrow> Function \<Rightarrow> string" where
  "print_header cvs k f =
     show_nat k @ '':'' @ show_nat (const_index_of cvs (function_name f)) @ '':var:'' @ show_nat (unat (variables_size f)) @
     '':reg:'' @ show_nat (unat (registers_size f)) @ ''('' @ join_commas (print_arguments 0 (argument_type_infos f)) @ '')->'' @
     print_argument_type (return_type_info f) @ ''{''"

definition printable_function :: "ConstValue list \<Rightarrow> Function \<Rightarrow> bool" where
  "printable_function cvs f \<longleftrightarrow>
     f = Function_new (function_name f) (variables_size f) (registers_size f) (label_blocks f) (return_type_info f) (argument_type_infos f) \<and>
     find_const cvs (function_name f) \<noteq> None \<and> list_all printable_argument (argument_type_infos f) \<and>
     length (argument_type_infos f) < 2 ^ 64 \<and> printable_argument (return_type_info f) \<and> list_all (printable_block cvs) (label_blocks f)"

lemma no_paren_argument: "CHR '')'' \<notin> set (print_argument_type info)"
proof -
  have "CHR '')'' \<notin> set (show_nat n)" for n using show_nat_digits [of n] by (auto simp: list_all_iff is_digit_def)
  moreover have "CHR '')'' \<notin> set (primitive_name p)" for p by (cases p) simp_all
  ultimately show ?thesis by (auto split: option.split)
qed

lemma match_header_end:
  assumes "plain a" "plain r" "r \<noteq> []" "CHR '')'' \<notin> set r"
  shows "regex_match [Rep Any 0 None, Lit '')->'', Rep Any 1 None, Lit ''{''] (a @ '')->'' @ r @ ''{'') = Some [a, r]"
proof (rule match_Any_last)
  have chars: "list_all (in_class Any) '')->''" "list_all (in_class Any) ''{''" by (simp_all add: newline_def)
  show "list_all (in_class Any) (a @ '')->'' @ r @ ''{'')"
    using plain_any [OF assms(1)] plain_any [OF assms(2)] chars by (simp only: list_all_append)
  have "regex_match [Rep Any 1 None, Lit ''{''] (r @ ''{'') = Some [r]"
  proof (rule match_Any_last)
    show "list_all (in_class Any) (r @ ''{'')" using plain_any [OF assms(2)] chars by (simp only: list_all_append)
    show "1 \<le> length r" using assms(3) by (simp add: Suc_le_eq)
    show "\<forall>x y. ''{'' = x @ y \<and> x \<noteq> [] \<longrightarrow> regex_match [Lit ''{''] y = None"
      by (auto simp: Cons_eq_append_conv strip_def)
  qed (simp add: strip_def)
  then show "regex_match [Lit '')->'', Rep Any 1 None, Lit ''{''] ('')->'' @ r @ ''{'') = Some [r]" by (rule match_Lit)
  show "\<forall>x y. '')->'' @ r @ ''{'' = x @ y \<and> x \<noteq> [] \<longrightarrow> regex_match [Lit '')->'', Rep Any 1 None, Lit ''{''] y = None"
  proof (intro allI impI)
    fix x y assume "'')->'' @ r @ ''{'' = x @ y \<and> x \<noteq> []"
    then have "set y \<subseteq> set (''->'' @ r @ ''{'')" by (cases x) (auto simp del: append_assoc)
    then have "CHR '')'' \<notin> set y" using assms(4) by auto
    then show "regex_match [Lit '')->'', Rep Any 1 None, Lit ''{''] y = None" by (cases y) (auto simp: strip_def)
  qed
qed simp

lemma match_header:
  assumes "plain a" "plain r" "r \<noteq> []" "CHR '')'' \<notin> set r"
  shows "regex_match [number, Lit '':'', number, Lit '':var:'', number, Lit '':reg:'', number, Lit ''('', Rep Any 0 None,
      Lit '')->'', Rep Any 1 None, Lit ''{'']
      (show_nat i @ '':'' @ show_nat n @ '':var:'' @ show_nat v @ '':reg:'' @ show_nat g @ ''('' @ a @ '')->'' @ r @ ''{'') =
    Some [show_nat i, show_nat n, show_nat v, show_nat g, a, r]"
  by (rule match_number, simp add: is_digit_def, rule match_Lit, rule match_number, simp add: is_digit_def, rule match_Lit,
      rule match_number, simp add: is_digit_def, rule match_Lit, rule match_number, simp add: is_digit_def, rule match_Lit,
      rule match_header_end [OF assms])

lemma plain_arguments: "plain (join_commas (print_arguments k infos))"
  using print_arguments_tokens [of k infos] by (simp add: plain_join list_all_iff plain_token)

lemma parse_header_print:
  assumes "printable_function cvs f" "table_ok cvs" "k < 2 ^ 64"
  shows "\<exists>build. parse_function_header cvs (print_header cvs k f) = Inr (of_nat k, build) \<and> build (label_blocks f) = f"
proof -
  have f: "f = Function_new (function_name f) (variables_size f) (registers_size f) (label_blocks f) (return_type_info f) (argument_type_infos f)"
    "find_const cvs (function_name f) \<noteq> None" "list_all printable_argument (argument_type_infos f)"
    "length (argument_type_infos f) < 2 ^ 64" "printable_argument (return_type_info f)"
    using assms(1) by (auto simp: printable_function_def)
  have ret: "plain (print_argument_type (return_type_info f))" "print_argument_type (return_type_info f) \<noteq> []"
    using token_argument_type [of "return_type_info f"] by (auto simp: token_def)
  have n: "get_const_value_as_string cvs (of_nat (const_index_of cvs (function_name f))) = Inr (function_name f)"
    "stoull (show_nat (const_index_of cvs (function_name f))) = Inr (of_nat (const_index_of cvs (function_name f)))"
    using find_const_Some [OF f(2)] assms(2) by (auto simp: table_ok_def intro!: stoull_show_nat)
  have "parse_function_header cvs (print_header cvs k f) = Inr (of_nat k,
      \<lambda>bs. Function_new (function_name f) (variables_size f) (registers_size f) bs (return_type_info f) (argument_type_infos f))"
    unfolding parse_function_header_def print_header_def match_header [OF plain_arguments ret no_paren_argument] option.case list.case
      stoull_show_nat [OF assms(3)] n and_then.simps stoull_show parse_argument_tokens [OF f(3,4)] prod.case
      parse_argument_type_print [OF f(5)] argument_list_print [OF f(4)] by (rule refl)
  then show ?thesis using f(1) by auto
qed

fun print_functions :: "ConstValue list \<Rightarrow> nat \<Rightarrow> Function list \<Rightarrow> string" where
  "print_functions cvs k [] = ''$end'' @ [newline]"
| "print_functions cvs k (f # fs) = print_header cvs k f @ newline # print_blocks cvs (label_blocks f) @ print_functions cvs (Suc k) fs"

lemma print_header_line: "plain (print_header cvs k f)" "print_header cvs k f \<noteq> []" "print_header cvs k f \<noteq> ''$end''"
proof -
  have "plain '':''" "plain '':var:''" "plain '':reg:''" "plain ''(''" "plain '')->''" "plain ''{''"
    by (simp_all add: plain_def newline_def)
  then show "plain (print_header cvs k f)"
    using plain_token [OF token_argument_type] plain_arguments unfolding print_header_def by (simp only: plain_append plain_show)
  obtain d ds where d: "show_nat k = d # ds" by (cases "show_nat k") auto
  then have "is_digit d" using show_nat_digits [of k] by simp
  then have "d \<noteq> CHR ''$''" by (auto simp: is_digit_def)
  then show "print_header cvs k f \<noteq> []" "print_header cvs k f \<noteq> ''$end''" using d by (simp_all add: print_header_def)
qed

lemma parse_function_loop_step:
  assumes "next_entry ''$end'' code = (Some line, code')" "parse_function_header cvs line = Inr (index, build)"
    "parse_label_blocks cvs code' = Inr (blocks, code'')"
  shows "parse_function_loop cvs code m mx = parse_function_loop cvs code'' ((index, build blocks) # m) (max_of index mx)"
  using assms by (subst parse_function_loop.simps) simp

lemma parse_function_loop_print:
  assumes "list_all (printable_function cvs) fs" "table_ok cvs" "k + length fs < 2 ^ 64" "unat mx \<le> k"
  shows "parse_function_loop cvs (print_functions cvs k fs @ rest) m mx =
    Inr (rev (numbered k fs) @ m, if fs = [] then mx else of_nat (k + length fs - 1), rest)"
  using assms(1,3,4)
proof (induction fs arbitrary: k m mx)
  case Nil
  then show ?case using next_entry_end [OF plain_end, of rest] by (subst parse_function_loop.simps) simp
next
  case (Cons f fs)
  have pf: "printable_function cvs f" "k < 2 ^ 64" using Cons.prems by auto
  obtain build where build: "parse_function_header cvs (print_header cvs k f) = Inr (of_nat k, build)" "build (label_blocks f) = f"
    using parse_header_print [OF pf(1) assms(2) pf(2)] by blast
  have blocks: "parse_label_blocks cvs (print_blocks cvs (label_blocks f) @ print_functions cvs (Suc k) fs @ rest) =
      Inr (label_blocks f, print_functions cvs (Suc k) fs @ rest)"
    using pf(1) assms(2) by (intro parse_blocks_print) (auto simp: printable_function_def)
  have code: "print_functions cvs k (f # fs) @ rest =
      print_header cvs k f @ newline # print_blocks cvs (label_blocks f) @ print_functions cvs (Suc k) fs @ rest" by simp
  have mx: "max_of (of_nat k) mx = of_nat k" using Cons.prems by (intro max_of_next) auto
  have "unat (of_nat k :: u64) = k" using pf(2) by (intro unat_of_nat_id) simp
  then have "parse_function_loop cvs (print_functions cvs (Suc k) fs @ rest) ((of_nat k, f) # m) (of_nat k) =
      Inr (rev (numbered (Suc k) fs) @ (of_nat k, f) # m, if fs = [] then of_nat k else of_nat (Suc k + length fs - 1), rest)"
    using Cons.prems by (intro Cons.IH) auto
  moreover have "numbered k (f # fs) = (of_nat k, f) # numbered (Suc k) fs" by (simp add: upt_conv_Cons del: upt_Suc)
  ultimately show ?case
    unfolding code parse_function_loop_step [OF next_entry_line [OF print_header_line] build(1) blocks] build(2) mx by simp
qed

lemma parse_function_print:
  assumes "list_all (printable_function cvs) fs" "table_ok cvs" "length fs < 2 ^ 64"
  shows "parse_function cvs (print_functions cvs 0 fs @ rest) = Inr (fs, rest)"
  using parse_function_loop_print [OF assms(1,2), of 0 0 rest "[]"] assms(3) collect_numbered [OF assms(3), of 0]
  by (cases "fs = []") (simp_all add: parse_function_def)

section \<open>Types, imports and type definitions\<close>

definition printable_type :: "TypeInfo \<Rightarrow> bool" where
  "printable_type info \<longleftrightarrow> list_all is_digit (info_type_name info) \<and> info_type_name info \<noteq> []"

definition print_type :: "nat \<Rightarrow> TypeInfo \<Rightarrow> string" where
  "print_type k info = show_nat k @ '':'' @ show_nat (unat (import_index info)) @ '':'' @ info_type_name info"

lemma show_line:
  assumes "plain s"
  shows "plain (show_nat k @ s)" "show_nat k @ s \<noteq> []" "show_nat k @ s \<noteq> ''$end''"
proof -
  show "plain (show_nat k @ s)" using assms by simp
  obtain d ds where d: "show_nat k = d # ds" by (cases "show_nat k") auto
  then have "is_digit d" using show_nat_digits [of k] by simp
  then have "d \<noteq> CHR ''$''" by (auto simp: is_digit_def)
  then show "show_nat k @ s \<noteq> []" "show_nat k @ s \<noteq> ''$end''" using d by simp_all
qed

lemma match_digits_end: "list_all is_digit ds \<Longrightarrow> ds \<noteq> [] \<Longrightarrow> regex_match [number] ds = Some [ds]"
  using match_Rep [of Digit ds "[]" 1 "[]" "[]"] by (simp add: Suc_le_eq list_all_iff)

lemma plain_colon: "plain '':''" "plain ''#''" "plain '':this''" "plain '':const#''"
  by (simp_all add: plain_def newline_def)

lemma parse_type_line_print:
  assumes "printable_type info" "k < 2 ^ 64"
  shows "parse_type_line (print_type k info) = Inr (of_nat k, info)" "plain (print_type k info)"
proof -
  have d: "list_all is_digit (info_type_name info)" "info_type_name info \<noteq> []" using assms(1) by (simp_all add: printable_type_def)
  have "regex_match [number, Lit '':'', number, Lit '':'', number] (print_type k info) =
      Some [show_nat k, show_nat (unat (import_index info)), info_type_name info]"
    unfolding print_type_def
    by (rule match_number, simp add: is_digit_def, rule match_Lit, rule match_number, simp add: is_digit_def, rule match_Lit,
        rule match_digits_end [OF d])
  then show "parse_type_line (print_type k info) = Inr (of_nat k, info)"
    using stoull_show_nat [OF assms(2)] by (simp add: parse_type_line_def del: regex_match.simps)
  show "plain (print_type k info)" using plain_digits [OF d(1)] plain_colon by (simp only: print_type_def plain_append plain_show)
qed

lemma parse_type_print:
  assumes "list_all printable_type infos" "length infos < 2 ^ 64"
  shows "parse_type (print_entries print_type 0 infos @ rest) = Inr (infos, rest)"
proof -
  have "\<forall>v \<in> set infos. \<forall>j < 2 ^ 64. parse_type_line (print_type j v) = Inr (of_nat j, v) \<and> plain (print_type j v) \<and>
      print_type j v \<noteq> [] \<and> print_type j v \<noteq> ''$end''"
    using assms(1) parse_type_line_print show_line(2,3) unfolding print_type_def list_all_iff by (metis plain_append)
  from parse_entries_print [OF this, of 0 0 rest "[]"] show ?thesis
    using assms(2) collect_numbered [OF assms(2), of 0] by (cases "infos = []") (simp_all add: parse_type_def)
qed

text \<open>What a successful match says about the text.\<close>

fun matched :: "regex_item list \<Rightarrow> string list \<Rightarrow> string \<Rightarrow> bool" where
  "matched [] caps s = (caps = [] \<and> s = [])"
| "matched (Lit l # is) caps s = (\<exists>r. s = l @ r \<and> matched is caps r)"
| "matched (Rep c lo hi # is) caps s =
     (\<exists>a caps' r. caps = a # caps' \<and> s = a @ r \<and> list_all (in_class c) a \<and> lo \<le> length a \<and>
        (\<forall>h. hi = Some h \<longrightarrow> length a \<le> h) \<and> matched is caps' r)"
| "matched (Alt ls # is) caps s = (\<exists>a caps' r. caps = a # caps' \<and> s = a @ r \<and> a \<in> set ls \<and> matched is caps' r)"

lemma try_lengths_Some:
  assumes "try_lengths k lo s n = Some caps"
  shows "\<exists>m caps'. lo \<le> m \<and> m \<le> n \<and> caps = take m s # caps' \<and> k (drop m s) = Some caps'"
  using assms
proof (induction n)
  case 0
  then show ?case by (subst (asm) try_lengths.simps) (auto split: if_splits option.splits)
next
  case (Suc n)
  show ?case
  proof (cases "k (drop (Suc n) s)")
    case None
    then have "try_lengths k lo s n = Some caps" using Suc.prems by (subst (asm) try_lengths.simps) (auto split: if_splits)
    then show ?thesis using Suc.IH by (meson le_SucI)
  next
    case (Some caps')
    then show ?thesis using Suc.prems
      by (subst (asm) try_lengths.simps) (auto split: if_splits intro: exI [of _ "Suc n"])
  qed
qed

lemma try_texts_Some:
  "try_texts k s ls = Some caps \<Longrightarrow> \<exists>l r caps'. l \<in> set ls \<and> s = l @ r \<and> caps = l # caps' \<and> k r = Some caps'"
proof (induction ls)
  case (Cons l ls)
  show ?case
  proof (cases "Option.bind (strip l s) k")
    case None
    then show ?thesis using Cons by fastforce
  next
    case (Some caps')
    then obtain r where "strip l s = Some r" "k r = Some caps'" by (auto simp: bind_Some_iff)
    moreover from this have "s = l @ r" by (auto simp: strip_def split: if_splits) (metis append_take_drop_id)
    ultimately show ?thesis using Cons.prems Some by auto
  qed
qed simp

lemma regex_match_sound: "regex_match items s = Some caps \<Longrightarrow> matched items caps s"
proof (induction items arbitrary: s caps)
  case Nil
  then show ?case by (auto split: if_splits)
next
  case (Cons it items)
  show ?case
  proof (cases it)
    case (Lit l)
    then obtain r where r: "strip l s = Some r" "regex_match items r = Some caps" using Cons.prems by (auto simp: bind_Some_iff)
    have "s = l @ r" using r(1) by (auto simp: strip_def split: if_splits) (metis append_take_drop_id)
    then show ?thesis using Lit Cons.IH [OF r(2)] by auto
  next
    case (Rep c lo hi)
    let ?run = "takeWhile (in_class c) s"
    let ?n = "case hi of None \<Rightarrow> length ?run | Some h \<Rightarrow> min h (length ?run)"
    have "try_lengths (regex_match items) lo s ?n = Some caps" using Cons.prems Rep by (simp add: Let_def)
    from try_lengths_Some [OF this] obtain m caps' where m: "lo \<le> m" "m \<le> ?n" "caps = take m s # caps'"
      "regex_match items (drop m s) = Some caps'" by blast
    have run: "m \<le> length ?run" using m(2) by (cases hi) auto
    then have len: "m \<le> length s" using length_takeWhile_le [of "in_class c" s] by simp
    have "take m s = take m ?run" using run by (metis takeWhile_eq_take take_take min.absorb1)
    then have "list_all (in_class c) (take m s)" by (metis list_all_iff set_takeWhileD in_set_takeD)
    moreover have "\<forall>h. hi = Some h \<longrightarrow> m \<le> h" using m(2) by auto
    ultimately show ?thesis using Rep m(1,3) Cons.IH [OF m(4)] len
      by (auto intro!: exI [of _ "take m s"] exI [of _ "drop m s"])
  next
    case (Alt ls)
    then show ?thesis using try_texts_Some [of "regex_match items" s ls caps] Cons.prems Cons.IH by fastforce
  qed
qed

definition print_import :: "string \<Rightarrow> ConstValue list \<Rightarrow> nat \<Rightarrow> string \<Rightarrow> string" where
  "print_import this_module cvs k n =
     show_nat k @ (if n = this_module then '':this'' else '':const#'' @ show_nat (const_index_of cvs n))"

definition printable_import :: "string \<Rightarrow> ConstValue list \<Rightarrow> string \<Rightarrow> bool" where
  "printable_import this_module cvs n \<longleftrightarrow> n = this_module \<or> find_const cvs n \<noteq> None"

lemma no_match_this: "regex_match [number, Lit '':'', name_chars, Lit ''#'', number] (show_nat k @ '':this'') = None"
proof (rule ccontr)
  assume "regex_match [number, Lit '':'', name_chars, Lit ''#'', number] (show_nat k @ '':this'') \<noteq> None"
  then obtain caps where "matched [number, Lit '':'', name_chars, Lit ''#'', number] caps (show_nat k @ '':this'')"
    using regex_match_sound by blast
  then obtain a c n where "show_nat k @ '':this'' = a @ '':'' @ c @ ''#'' @ n" by auto
  then have "CHR ''#'' \<in> set (show_nat k @ '':this'')" by (metis Un_iff list.set_intros(1) set_append)
  then show False using show_nat_digits [of k] by (auto simp: list_all_iff is_digit_def)
qed

lemma parse_import_line_print:
  assumes "printable_import this_module cvs n" "table_ok cvs" "k < 2 ^ 64"
  shows "parse_import_line this_module cvs (print_import this_module cvs k n) = Inr (of_nat k, n)"
proof (cases "n = this_module")
  case True
  have "regex_match [number, Lit '':this''] (show_nat k @ '':this'' @ []) = Some [show_nat k]"
    by (rule match_number, simp add: is_digit_def, rule match_Lit, simp)
  then show ?thesis using True no_match_this [of k] stoull_show_nat [OF assms(3)]
    by (simp add: parse_import_line_def print_import_def del: regex_match.simps)
next
  case False
  let ?j = "const_index_of cvs n"
  have n: "find_const cvs n \<noteq> None" using False assms(1) by (simp add: printable_import_def)
  have j: "stoull (show_nat ?j) = Inr (of_nat ?j)" "get_const_value_as_string cvs (of_nat ?j) = Inr n"
    using find_const_Some [OF n] assms(2) by (auto simp: table_ok_def intro!: stoull_show_nat)
  have "regex_match [name_chars, Lit ''#'', number] (''const'' @ ''#'' @ show_nat ?j) = Some [''const'', show_nat ?j]"
    by (rule match_Rep)
      (use match_prefixed [of "''#''" ?j] in \<open>simp_all add: is_word_def is_digit_def del: regex_match.simps\<close>)
  then have "regex_match [Lit '':'', name_chars, Lit ''#'', number] ('':'' @ ''const'' @ ''#'' @ show_nat ?j) = Some [''const'', show_nat ?j]"
    by (rule match_Lit)
  then have "regex_match [number, Lit '':'', name_chars, Lit ''#'', number] (show_nat k @ '':'' @ ''const'' @ ''#'' @ show_nat ?j) =
      Some [show_nat k, ''const'', show_nat ?j]"
    by (rule match_number [rotated]) (simp add: is_digit_def)
  then show ?thesis using False stoull_show_nat [OF assms(3)] j
    by (simp add: parse_import_line_def print_import_def del: regex_match.simps)
qed

lemma parse_import_print:
  assumes "list_all (printable_import this_module cvs) ns" "table_ok cvs" "length ns < 2 ^ 64"
  shows "parse_import this_module cvs (print_entries (print_import this_module cvs) 0 ns @ rest) = Inr (ns, rest)"
proof -
  have line: "plain (if n = this_module then '':this'' else '':const#'' @ show_nat (const_index_of cvs n))" for n
    using plain_colon by (simp del: append_Cons)
  have "\<forall>v \<in> set ns. \<forall>j < 2 ^ 64. parse_import_line this_module cvs (print_import this_module cvs j v) = Inr (of_nat j, v) \<and>
      plain (print_import this_module cvs j v) \<and> print_import this_module cvs j v \<noteq> [] \<and> print_import this_module cvs j v \<noteq> ''$end''"
    using assms(1,2) parse_import_line_print show_line [OF line] unfolding list_all_iff print_import_def by blast
  from parse_entries_print [OF this, of 0 0 rest "[]"] show ?thesis
    using assms(3) collect_numbered [OF assms(3), of 0] by (cases "ns = []") (simp_all add: parse_import_def)
qed

fun print_field :: "ConstValue list \<Rightarrow> FieldInfo \<Rightarrow> string" where
  "print_field cvs info =
     info_field_name info @ '':'' @
     (case field_primitive_type info of
        Some p \<Rightarrow> primitive_name p
      | None \<Rightarrow> show_nat (unat (import_index (user_def_type info))) @ '':'' @
          show_nat (const_index_of cvs (info_type_name (user_def_type info))))"

definition printable_field :: "ConstValue list \<Rightarrow> FieldInfo \<Rightarrow> bool" where
  "printable_field cvs info \<longleftrightarrow> list_all is_digit (info_field_name info) \<and> info_field_name info \<noteq> [] \<and>
     (if field_primitive_type info \<noteq> None then user_def_type info = \<lparr>import_index = 0, info_type_name = []\<rparr>
      else find_const cvs (info_type_name (user_def_type info)) \<noteq> None)"

lemma match_digits:
  assumes "list_all is_digit ds" "ds \<noteq> []" "r = [] \<or> \<not> is_digit (hd r)" "regex_match is r = Some caps"
  shows "regex_match (number # is) (ds @ r) = Some (ds # caps)"
  using match_Rep [of Digit ds r 1 "is" caps] assms by (simp add: Suc_le_eq list_all_iff)

lemma primitive_name_word: "list_all is_word (primitive_name p)" "primitive_name p \<noteq> []"
  by (cases p; simp add: is_word_def is_digit_def)+

lemma no_colon: "list_all is_word s \<Longrightarrow> count_list s CHR '':'' = 0"
  by (induction s) (auto simp: is_word_def is_digit_def)

lemma digits_word: "list_all is_digit s \<Longrightarrow> list_all is_word s"
  by (auto simp: list_all_iff digit_is_word)

lemma no_match_user_field:
  assumes "list_all is_digit d" "list_all is_digit x" "list_all is_digit y"
  shows "regex_match [number, Lit '':'', name_chars] (d @ '':'' @ x @ '':'' @ y) = None"
proof (rule ccontr)
  assume "regex_match [number, Lit '':'', name_chars] (d @ '':'' @ x @ '':'' @ y) \<noteq> None"
  then obtain caps where "matched [number, Lit '':'', name_chars] caps (d @ '':'' @ x @ '':'' @ y)"
    using regex_match_sound by blast
  then obtain a c where ac: "d @ '':'' @ x @ '':'' @ y = a @ '':'' @ c" "list_all is_digit a" "list_all is_word c" by (auto simp: list_all_iff)
  from arg_cong [OF ac(1), of "\<lambda>s. count_list s CHR '':''"] show False
    using no_colon digits_word assms ac(2,3) by (simp add: count_list_append)
qed

lemma parse_field_print:
  assumes "printable_field cvs info" "table_ok cvs"
  shows "parse_field cvs (print_field cvs info) = Inr info"
proof -
  have d: "list_all is_digit (info_field_name info)" "info_field_name info \<noteq> []" using assms(1) by (simp_all add: printable_field_def)
  show ?thesis
  proof (cases "field_primitive_type info")
    case (Some p)
    have "regex_match [name_chars] (primitive_name p @ []) = Some [primitive_name p]"
      using primitive_name_word [of p] by (intro match_Rep) (auto simp: list_all_iff Suc_le_eq)
    then have "regex_match [Lit '':'', name_chars] ('':'' @ primitive_name p) = Some [primitive_name p]"
      by (intro match_Lit) simp
    then have "regex_match [number, Lit '':'', name_chars] (info_field_name info @ '':'' @ primitive_name p) =
        Some [info_field_name info, primitive_name p]"
      by (intro match_digits [OF d]) (simp_all add: is_digit_def)
    moreover have "user_def_type info = \<lparr>import_index = 0, info_type_name = []\<rparr>"
      using assms(1) Some by (simp add: printable_field_def)
    ultimately show ?thesis using Some by (cases info) (simp add: parse_field_def del: regex_match.simps)
  next
    case None
    let ?i = "unat (import_index (user_def_type info))" and ?j = "const_index_of cvs (info_type_name (user_def_type info))"
    have n: "find_const cvs (info_type_name (user_def_type info)) \<noteq> None" using None assms(1) by (simp add: printable_field_def)
    have j: "stoull (show_nat ?j) = Inr (of_nat ?j)"
      "get_const_value_as_string cvs (of_nat ?j) = Inr (info_type_name (user_def_type info))"
      using find_const_Some [OF n] assms(2) by (auto simp: table_ok_def intro!: stoull_show_nat)
    have "regex_match [number, Lit '':'', number, Lit '':'', number] (info_field_name info @ '':'' @ show_nat ?i @ '':'' @ show_nat ?j) =
        Some [info_field_name info, show_nat ?i, show_nat ?j]"
      by (rule match_digits [OF d], simp add: is_digit_def, rule match_Lit, rule match_number, simp add: is_digit_def,
          rule match_prefixed)
    then show ?thesis
      using None no_match_user_field [OF d(1) show_nat_digits show_nat_digits, of ?i ?j] j
      by (cases info) (simp add: parse_field_def del: regex_match.simps)
  qed
qed

lemma token_field: "printable_field cvs info \<Longrightarrow> token (print_field cvs info) \<and> CHR '')'' \<notin> set (print_field cvs info)"
proof -
  assume p: "printable_field cvs info"
  have colon: "token '':''" by (simp add: token_def plain_def newline_def)
  have name: "token (info_field_name info)" using p by (intro token_word) (auto simp: printable_field_def digits_word)
  have word: "CHR '')'' \<notin> set s" if "list_all is_word s" for s using that by (auto simp: list_all_iff is_word_def is_digit_def)
  have "CHR '')'' \<notin> set (info_field_name info)" "CHR '')'' \<notin> set (show_nat n)" "CHR '')'' \<notin> set (primitive_name q)" for n q
    using p show_nat_digits [of n] primitive_name_word [of q] by (auto intro!: word simp: printable_field_def digits_word)
  moreover have "token (print_field cvs info)"
    using colon name token_append by (auto split: option.split simp del: append.simps)
  ultimately show ?thesis by (auto split: option.split)
qed

lemma parse_fields_print:
  assumes "list_all (printable_field cvs) infos" "table_ok cvs"
  shows "parse_fields cvs (map (print_field cvs) infos) = Inr infos"
  using assms(1) by (induction infos) (auto simp: parse_field_print [OF _ assms(2)] simp del: print_field.simps)

definition print_type_define :: "ConstValue list \<Rightarrow> Type \<Rightarrow> string" where
  "print_type_define cvs t =
     show_nat (const_index_of cvs (type_name t)) @ '':('' @ join_commas (map (print_field cvs) (field_infos t)) @
     (if parent_info t = \<lparr>import_index = 0, info_type_name = []\<rparr> then '')''
      else ''):'' @ show_nat (unat (import_index (parent_info t))) @ '':'' @
        show_nat (const_index_of cvs (info_type_name (parent_info t))))"

definition printable_define :: "ConstValue list \<Rightarrow> Type \<Rightarrow> bool" where
  "printable_define cvs t \<longleftrightarrow> t = Type_new None (type_name t) 0 (field_infos t) (parent_info t) \<and>
     find_const cvs (type_name t) \<noteq> None \<and> field_infos t \<noteq> [] \<and> list_all (printable_field cvs) (field_infos t) \<and>
     (parent_info t = \<lparr>import_index = 0, info_type_name = []\<rparr> \<or> find_const cvs (info_type_name (parent_info t)) \<noteq> None)"

lemma no_paren_show: "CHR '')'' \<notin> set (show_nat n)"
  using show_nat_digits [of n] by (auto simp: list_all_iff is_digit_def)

lemma matched_last_number:
  "matched (items @ [number]) caps s \<Longrightarrow> \<exists>u v. s = u @ v \<and> list_all is_digit v \<and> v \<noteq> []"
proof (induction items arbitrary: caps s)
  case Nil
  then have "list_all is_digit s" "s \<noteq> []" by (auto simp: list_all_iff)
  then show ?case by (metis append_Nil)
next
  case (Cons it items)
  obtain u caps' r where "s = u @ r" "matched (items @ [number]) caps' r" using Cons.prems by (cases it) auto
  from Cons.IH [OF this(2)] this(1) show ?case by (metis append_assoc)
qed

lemma match_define_parent:
  assumes "plain a"
  shows "regex_match [number, Lit '':('', Rep Any 0 None, Lit ''):'', number, Lit '':'', number]
      (show_nat n @ '':('' @ a @ ''):'' @ show_nat i @ '':'' @ show_nat j) = Some [show_nat n, a, show_nat i, show_nat j]"
proof (rule match_number)
  let ?is = "[Lit ''):'', number, Lit '':'', number]"
  have "regex_match (Rep Any 0 None # ?is) (a @ ''):'' @ show_nat i @ '':'' @ show_nat j) = Some [a, show_nat i, show_nat j]"
  proof (rule match_Any_last)
    have "list_all (in_class Any) ''):''" "list_all (in_class Any) '':''" by (simp_all add: newline_def)
    then show "list_all (in_class Any) (a @ ''):'' @ show_nat i @ '':'' @ show_nat j)"
      using plain_any [OF assms] plain_any [OF plain_show] by (simp only: list_all_append)
    show "regex_match ?is (''):'' @ show_nat i @ '':'' @ show_nat j) = Some [show_nat i, show_nat j]"
      by (rule match_Lit, rule match_number, simp add: is_digit_def, rule match_prefixed)
    show "\<forall>x y. ''):'' @ show_nat i @ '':'' @ show_nat j = x @ y \<and> x \<noteq> [] \<longrightarrow> regex_match ?is y = None"
    proof (intro allI impI)
      fix x y assume "''):'' @ show_nat i @ '':'' @ show_nat j = x @ y \<and> x \<noteq> []"
      then have "set y \<subseteq> set ('':'' @ show_nat i @ '':'' @ show_nat j)" by (cases x) (auto simp del: append_assoc)
      then have "CHR '')'' \<notin> set y" using no_paren_show [of i] no_paren_show [of j] by auto
      then show "regex_match ?is y = None" by (cases y) (auto simp: strip_def)
    qed
  qed simp
  then show "regex_match (Lit '':('' # Rep Any 0 None # ?is) ('':('' @ a @ ''):'' @ show_nat i @ '':'' @ show_nat j) =
      Some [a, show_nat i, show_nat j]" by (rule match_Lit)
qed (simp add: is_digit_def)

lemma match_define:
  assumes "plain a"
  shows "regex_match [number, Lit '':('', Rep Any 0 None, Lit '')''] (show_nat n @ '':('' @ a @ '')'') = Some [show_nat n, a]"
    "regex_match [number, Lit '':('', Rep Any 0 None, Lit ''):'', number, Lit '':'', number] (show_nat n @ '':('' @ a @ '')'') = None"
proof -
  have "regex_match [Rep Any 0 None, Lit '')''] (a @ '')'') = Some [a]"
  proof (rule match_Any_last)
    show "list_all (in_class Any) (a @ '')'')" using plain_any [OF assms] by (simp add: newline_def)
    show "\<forall>x y. '')'' = x @ y \<and> x \<noteq> [] \<longrightarrow> regex_match [Lit '')''] y = None" by (auto simp: Cons_eq_append_conv strip_def)
  qed (simp_all add: strip_def)
  then have "regex_match [Lit '':('', Rep Any 0 None, Lit '')''] ('':('' @ a @ '')'') = Some [a]" by (rule match_Lit)
  then show "regex_match [number, Lit '':('', Rep Any 0 None, Lit '')''] (show_nat n @ '':('' @ a @ '')'') = Some [show_nat n, a]"
    by (rule match_number [rotated]) (simp add: is_digit_def)
  show "regex_match [number, Lit '':('', Rep Any 0 None, Lit ''):'', number, Lit '':'', number] (show_nat n @ '':('' @ a @ '')'') = None"
  proof (rule ccontr)
    assume "regex_match [number, Lit '':('', Rep Any 0 None, Lit ''):'', number, Lit '':'', number] (show_nat n @ '':('' @ a @ '')'') \<noteq> None"
    then obtain caps where "matched [number, Lit '':('', Rep Any 0 None, Lit ''):'', number, Lit '':'', number] caps
        (show_nat n @ '':('' @ a @ '')'')"
      using regex_match_sound by blast
    then have "matched ([number, Lit '':('', Rep Any 0 None, Lit ''):'', number, Lit '':''] @ [number]) caps
        (show_nat n @ '':('' @ a @ '')'')" by (simp only: append_Cons append_Nil)
    from matched_last_number [OF this] obtain u v where uv: "show_nat n @ '':('' @ a @ '')'' = u @ v" "list_all is_digit v" "v \<noteq> []"
      by blast
    then have "last v = CHR '')''" by (metis append_assoc last_appendR last_snoc)
    moreover have "is_digit (last v)" using uv(2,3) by (simp add: list_all_iff)
    ultimately show False by (simp add: is_digit_def)
  qed
qed

lemma parse_type_define_line_print:
  assumes "printable_define cvs t" "table_ok cvs"
  shows "parse_type_define_line cvs (print_type_define cvs t) = Inr t" "plain (print_type_define cvs t)"
proof -
  let ?fs = "map (print_field cvs) (field_infos t)"
  have t: "t = Type_new None (type_name t) 0 (field_infos t) (parent_info t)" "find_const cvs (type_name t) \<noteq> None"
    "field_infos t \<noteq> []" "list_all (printable_field cvs) (field_infos t)"
    using assms(1) by (auto simp: printable_define_def)
  have const: "stoull (show_nat (const_index_of cvs n)) = Inr (of_nat (const_index_of cvs n))"
    "get_const_value_as_string cvs (of_nat (const_index_of cvs n)) = Inr n" if "find_const cvs n \<noteq> None" for n
    using find_const_Some [OF that] assms(2) by (auto simp: table_ok_def intro!: stoull_show_nat)
  have tok: "\<forall>p \<in> set ?fs. token p" using t(4) token_field by (auto simp: list_all_iff simp del: print_field.simps)
  then have plain: "plain (join_commas ?fs)" using t(3) by (intro join_tokens(1)) auto
  have fields': "parse_fields cvs (tokens (join_commas ?fs)) = Inr (field_infos t)"
    using tokens_tokens [OF _ tok] t(3) parse_fields_print [OF t(4) assms(2)] by simp
  have "plain '':(''" "plain '')''" "plain ''):''" by (simp_all add: plain_def newline_def)
  then show "plain (print_type_define cvs t)" using plain plain_colon by (simp add: print_type_define_def del: append_Cons)
  show "parse_type_define_line cvs (print_type_define cvs t) = Inr t"
  proof (cases "parent_info t = \<lparr>import_index = 0, info_type_name = []\<rparr>")
    case True
    then have line: "print_type_define cvs t = show_nat (const_index_of cvs (type_name t)) @ '':('' @ join_commas ?fs @ '')''"
      by (simp add: print_type_define_def)
    show ?thesis
      unfolding parse_type_define_line_def line match_define [OF plain] Let_def option.case list.case const [OF t(2)]
        and_then.simps fields' using t(1) True by simp
  next
    case False
    then have line: "print_type_define cvs t = show_nat (const_index_of cvs (type_name t)) @ '':('' @ join_commas ?fs @ ''):'' @
        show_nat (unat (import_index (parent_info t))) @ '':'' @ show_nat (const_index_of cvs (info_type_name (parent_info t)))"
      by (simp add: print_type_define_def)
    have info: "\<lparr>import_index = import_index (parent_info t), info_type_name = info_type_name (parent_info t)\<rparr> = parent_info t"
      by (cases "parent_info t") simp
    have parent: "find_const cvs (info_type_name (parent_info t)) \<noteq> None" using False assms(1) by (simp add: printable_define_def)
    show ?thesis
      unfolding parse_type_define_line_def line match_define_parent [OF plain] Let_def option.case list.case const [OF t(2)]
        const [OF parent] and_then.simps fields' stoull_show info using t(1) by simp
  qed
qed

fun print_type_defines :: "ConstValue list \<Rightarrow> Type list \<Rightarrow> string" where
  "print_type_defines cvs [] = ''$end'' @ [newline]"
| "print_type_defines cvs (t # ts) = print_type_define cvs t @ newline # print_type_defines cvs ts"

lemma parse_type_defines_print:
  assumes "list_all (printable_define cvs) ts" "table_ok cvs"
  shows "parse_type_define cvs (print_type_defines cvs ts @ rest) = Inr (ts, rest)"
  using assms(1)
proof (induction ts)
  case Nil
  then show ?case using next_entry_end [OF plain_end, of rest] by (subst parse_type_define.simps) simp
next
  case (Cons t ts)
  then have t: "printable_define cvs t" by simp
  note line = parse_type_define_line_print [OF t assms(2)]
  have "print_type_define cvs t \<noteq> []" "print_type_define cvs t \<noteq> ''$end''"
    using show_line(2,3) line(2) unfolding print_type_define_def by (metis plain_append)+
  from next_entry_line [OF line(2) this, of "print_type_defines cvs ts @ rest"] show ?case
    using line(1) Cons by (subst parse_type_define.simps) simp
qed

section \<open>Constants\<close>

lemma bytes_chars: "bytes_of (chars_of bs) = bs"
proof -
  have "(of_nat (of_char (char_of (unat b) :: char)) :: u8) = b" for b :: u8
  proof -
    have "unat b < 256" using unsigned_less [where 'a = nat, of b] by simp
    then have "(of_char (char_of (unat b) :: char) :: nat) = unat b" by simp
    then show ?thesis by simp
  qed
  then show ?thesis by (induction bs) (simp_all add: bytes_of_def chars_of_def)
qed

lemma chars_bytes: "chars_of (bytes_of s) = s"
proof -
  have "(char_of (unat (of_nat (of_char c) :: u8)) :: char) = c" for c
  proof -
    have "unat (of_nat (of_char c) :: u8) = of_char c" by (rule unat_of_nat_id) simp
    then show ?thesis by simp
  qed
  then show ?thesis by (induction s) (simp_all add: bytes_of_def chars_of_def)
qed

lemma take_bytes: "take n (bytes_of s) = bytes_of (take n s)" "length (bytes_of s) = length s"
  by (simp_all add: bytes_of_def take_map)

text \<open>String constants, and integer constants that are not negative.\<close>

definition const_text :: "ConstValue \<Rightarrow> string" where
  "const_text c =
     (if const_type c = CHR ''s'' then chars_of (value_reference c)
      else case read_u64 (value_reference c) of Some v \<Rightarrow> show_nat (unat v) | None \<Rightarrow> [])"

definition printable_const :: "ConstValue \<Rightarrow> bool" where
  "printable_const c \<longleftrightarrow> unat (const_byte_size c) = length (const_text c) \<and>
     (const_type c = CHR ''s'' \<or> const_type c = CHR ''i'' \<and>
       (\<exists>v. value_reference c = bytes_of_u64 v \<and> unat v < 2 ^ 63))"

definition print_const :: "nat \<Rightarrow> ConstValue \<Rightarrow> string" where
  "print_const k c = show_nat k @ '':'' @ show_nat (length (const_text c)) @ '':'' @ [const_type c]"

fun print_consts :: "nat \<Rightarrow> ConstValue list \<Rightarrow> string" where
  "print_consts k [] = ''$end'' @ [newline]"
| "print_consts k (c # cs) = print_const k c @ CHR ''#'' # const_text c @ newline # print_consts (Suc k) cs"

lemma stoll_show: "n < 2 ^ 63 \<Longrightarrow> stoll (show_nat n) = Inr (of_nat n)"
  using number_prefix_digits [OF show_nat_digits show_nat_not_Nil, of n] by (simp add: stoll_def decimal_show_nat)

lemma const_value_print:
  assumes "printable_const c"
  shows "const_value stod (const_byte_size c) (const_type c) (const_text c) = Inr c"
proof (cases "const_type c = CHR ''s''")
  case True
  then show ?thesis by (cases c) (simp add: const_value_def const_text_def bytes_chars)
next
  case False
  then obtain v where v: "const_type c = CHR ''i''" "value_reference c = bytes_of_u64 v" "unat v < 2 ^ 63"
    using assms by (auto simp: printable_const_def)
  then show ?thesis using False stoll_show [OF v(3)]
    by (cases c) (simp add: const_value_def const_text_def read_u64_bytes)
qed

lemma match_const:
  assumes "t = CHR ''s'' \<or> t = CHR ''i''"
  shows "regex_match [number, Lit '':'', number, Lit '':'', Rep Word_char 1 (Some 1)]
      (show_nat k @ '':'' @ show_nat n @ '':'' @ [t]) = Some [show_nat k, show_nat n, [t]]"
  by (rule match_number, simp add: is_digit_def, rule match_Lit, rule match_number, simp add: is_digit_def, rule match_Lit)
    (use assms in \<open>auto simp: try_lengths.simps is_word_def\<close>)

lemma move_until_mark:
  assumes "plain w" "CHR ''#'' \<notin> set w" "CHR 0x00 \<notin> set w"
  shows "move_until HASH_MARK (w @ CHR ''#'' # rest) = (w, CHR ''#'' # rest)"
proof -
  have "move_until_from HASH_MARK start (w @ CHR ''#'' # rest) = (w, CHR ''#'' # rest)" for start
    using assms by (induction w) (auto simp: HASH_MARK_def plain_Cons)
  then show ?thesis by (simp add: move_until_def)
qed

lemma print_const_word:
  assumes "printable_const c"
  shows "plain (print_const k c)" "CHR ''#'' \<notin> set (print_const k c)" "CHR 0x00 \<notin> set (print_const k c)"
proof -
  have t: "const_type c = CHR ''s'' \<or> const_type c = CHR ''i''" using assms by (auto simp: printable_const_def)
  have "plain [const_type c]" using t by (auto simp: plain_def newline_def)
  then show "plain (print_const k c)" using plain_colon by (simp only: print_const_def plain_append plain_show)
  have "CHR ''#'' \<notin> set (show_nat n) \<and> CHR 0x00 \<notin> set (show_nat n)" for n
    using show_nat_digits [of n] by (auto simp: list_all_iff is_digit_def)
  then show "CHR ''#'' \<notin> set (print_const k c)" "CHR 0x00 \<notin> set (print_const k c)"
    using t by (auto simp: print_const_def)
qed

lemma parse_const_entry_print:
  assumes "printable_const c" "k < 2 ^ 64"
  shows "parse_const_entry stod (print_const k c) (CHR ''#'' # const_text c @ newline # rest) = Inr (of_nat k, c, rest)"
proof -
  have t: "const_type c = CHR ''s'' \<or> const_type c = CHR ''i''" using assms(1) by (auto simp: printable_const_def)
  have len: "length (const_text c) = unat (const_byte_size c)" using assms(1) by (simp add: printable_const_def)
  show ?thesis
    unfolding parse_const_entry_def print_const_def match_const [OF t] option.case list.case stoull_show_nat [OF assms(2)]
      and_then.simps len stoull_show
    using const_value_print [OF assms(1), of stod] len by simp
qed

lemma digit_line:
  assumes "is_digit d"
  shows "\<exists>l rest. move_until_next_line (d # s) = (d # l, rest)"
  using assms by (auto simp: newline_def is_digit_def split: prod.splits)

lemma parse_const_loop_step:
  assumes "code \<noteq> []" "move_until_next_line code = (line, cp)" "line \<noteq> []" "line \<noteq> ''$end''"
    "move_until HASH_MARK code = (w, code')" "parse_const_entry stod w code' = Inr (i, c, rest)"
  shows "parse_const_loop stod code m mx = parse_const_loop stod rest ((i, c) # m) (max_of i mx)"
  using assms by (subst parse_const_loop.simps) simp

lemma parse_const_loop_print:
  assumes "list_all printable_const cs" "k + length cs < 2 ^ 64" "unat mx \<le> k"
  shows "parse_const_loop stod (print_consts k cs @ rest) m mx =
    Inr (rev (numbered k cs) @ m, if cs = [] then mx else of_nat (k + length cs - 1), rest)"
  using assms
proof (induction cs arbitrary: k m mx)
  case Nil
  then show ?case using read_line [OF plain_end, of rest] by (subst parse_const_loop.simps) simp
next
  case (Cons c cs)
  have c: "printable_const c" "k < 2 ^ 64" using Cons.prems by auto
  let ?code = "CHR ''#'' # const_text c @ newline # print_consts (Suc k) cs @ rest"
  have code: "print_consts k (c # cs) @ rest = print_const k c @ ?code" by simp
  obtain d ds where d: "show_nat k = d # ds" by (cases "show_nat k") auto
  then have dig: "is_digit d" using show_nat_digits [of k] by simp
  obtain s where s: "print_const k c @ ?code = d # s" using d by (simp add: print_const_def)
  obtain l cp where l: "move_until_next_line (print_const k c @ ?code) = (d # l, cp)" using digit_line [OF dig, of s] s by auto
  have "d # l \<noteq> ''$end''" using dig by (auto simp: is_digit_def)
  then have step: "parse_const_loop stod (print_const k c @ ?code) m mx =
      parse_const_loop stod (print_consts (Suc k) cs @ rest) ((of_nat k, c) # m) (max_of (of_nat k) mx)"
    by (intro parse_const_loop_step [OF _ l _ _ move_until_mark [OF print_const_word [OF c(1)]] parse_const_entry_print [OF c]]) simp_all
  have mx: "max_of (of_nat k) mx = of_nat k" using Cons.prems by (intro max_of_next) auto
  have "unat (of_nat k :: u64) = k" using c(2) by (intro unat_of_nat_id) simp
  then have "parse_const_loop stod (print_consts (Suc k) cs @ rest) ((of_nat k, c) # m) (of_nat k) =
      Inr (rev (numbered (Suc k) cs) @ (of_nat k, c) # m, if cs = [] then of_nat k else of_nat (Suc k + length cs - 1), rest)"
    using Cons.prems by (intro Cons.IH) auto
  moreover have "numbered k (c # cs) = (of_nat k, c) # numbered (Suc k) cs" by (simp add: upt_conv_Cons del: upt_Suc)
  ultimately show ?case unfolding code step mx by simp
qed

lemma parse_const_print:
  assumes "list_all printable_const cs" "length cs < 2 ^ 64"
  shows "parse_const stod (print_consts 0 cs @ rest) = Inr (cs, rest)"
  using parse_const_loop_print [OF assms(1), of 0 0 stod rest "[]"] assms(2) collect_numbered [OF assms(2), of 0]
  by (cases "cs = []") (simp_all add: parse_const_def)

section \<open>Modules\<close>

definition print_module :: "string \<Rightarrow> parser_state \<Rightarrow> string" where
  "print_module name st =
     ''$const'' @ newline # print_consts 0 (p_const_values st) @
     ''$import'' @ newline # print_entries (print_import name (p_const_values st)) 0 (p_imports st) @
     ''$typedef'' @ newline # print_type_defines (p_const_values st) (p_type_defines st) @
     ''$type'' @ newline # print_entries print_type 0 (p_using_types st) @
     ''$function'' @ newline # print_functions (p_const_values st) 0 (p_functions st)"

definition printable_module :: "string \<Rightarrow> parser_state \<Rightarrow> bool" where
  "printable_module name st \<longleftrightarrow>
     list_all printable_const (p_const_values st) \<and> length (p_const_values st) < 2 ^ 64 \<and>
     list_all (printable_import name (p_const_values st)) (p_imports st) \<and> length (p_imports st) < 2 ^ 64 \<and>
     list_all (printable_define (p_const_values st)) (p_type_defines st) \<and>
     list_all printable_type (p_using_types st) \<and> length (p_using_types st) < 2 ^ 64 \<and>
     list_all (printable_function (p_const_values st)) (p_functions st) \<and> length (p_functions st) < 2 ^ 64"

lemma parse_loop_step:
  assumes "plain line" "parse_section stod name line code st = Inr (st', rest)"
  shows "parse_loop stod name (line @ newline # code) st = parse_loop stod name rest st'"
  using assms by (subst parse_loop.simps) (simp add: read_line)

lemma plain_sections: "plain ''$const''" "plain ''$import''" "plain ''$typedef''" "plain ''$type''" "plain ''$function''"
  by (simp_all add: plain_def newline_def)

lemma parse_module_spec:
  assumes "printable_module name st"
  shows "parse stod name (print_module name st) =
    Inr (Some (Module_new name (p_const_values st) (p_imports st) (p_type_defines st) (p_using_types st) (p_functions st)))"
proof -
  let ?cvs = "p_const_values st"
  let ?st0 = "\<lparr>p_const_values = [], p_imports = [], p_type_defines = [], p_using_types = [], p_functions = []\<rparr>"
  let ?functions = "''$function'' @ newline # print_functions ?cvs 0 (p_functions st)"
  let ?types = "''$type'' @ newline # print_entries print_type 0 (p_using_types st) @ ?functions"
  let ?defs = "''$typedef'' @ newline # print_type_defines ?cvs (p_type_defines st) @ ?types"
  let ?imports = "''$import'' @ newline # print_entries (print_import name ?cvs) 0 (p_imports st) @ ?defs"
  have ok: "list_all printable_const ?cvs" "length ?cvs < 2 ^ 64" "table_ok ?cvs"
    "list_all (printable_import name ?cvs) (p_imports st)" "length (p_imports st) < 2 ^ 64"
    "list_all (printable_define ?cvs) (p_type_defines st)" "list_all printable_type (p_using_types st)"
    "length (p_using_types st) < 2 ^ 64" "list_all (printable_function ?cvs) (p_functions st)" "length (p_functions st) < 2 ^ 64"
    using assms by (auto simp: printable_module_def table_ok_def)
  have "print_module name st = ''$const'' @ newline # print_consts 0 ?cvs @ ?imports" by (simp add: print_module_def)
  moreover have "parse_loop stod name (''$const'' @ newline # print_consts 0 ?cvs @ ?imports) ?st0 =
      parse_loop stod name ?imports (?st0\<lparr>p_const_values := ?cvs\<rparr>)"
    by (rule parse_loop_step [OF plain_sections(1)])
      (simp only: parse_section_def if_True refl parse_const_print [OF ok(1,2)] and_then.simps prod.case)
  moreover have "parse_loop stod name ?imports (?st0\<lparr>p_const_values := ?cvs\<rparr>) =
      parse_loop stod name ?defs (?st0\<lparr>p_const_values := ?cvs, p_imports := p_imports st\<rparr>)"
    by (rule parse_loop_step [OF plain_sections(2)])
      (simp add: parse_section_def parse_import_print [OF ok(4,3,5)] del: append_Cons)
  moreover have "parse_loop stod name ?defs (?st0\<lparr>p_const_values := ?cvs, p_imports := p_imports st\<rparr>) =
      parse_loop stod name ?types (?st0\<lparr>p_const_values := ?cvs, p_imports := p_imports st, p_type_defines := p_type_defines st\<rparr>)"
    by (rule parse_loop_step [OF plain_sections(3)])
      (simp add: parse_section_def parse_type_defines_print [OF ok(6,3)] del: append_Cons)
  moreover have "parse_loop stod name ?types (?st0\<lparr>p_const_values := ?cvs, p_imports := p_imports st, p_type_defines := p_type_defines st\<rparr>) =
      parse_loop stod name ?functions (?st0\<lparr>p_const_values := ?cvs, p_imports := p_imports st, p_type_defines := p_type_defines st,
        p_using_types := p_using_types st\<rparr>)"
    by (rule parse_loop_step [OF plain_sections(4)])
      (simp add: parse_section_def parse_type_print [OF ok(7,8)] del: append_Cons)
  moreover have "parse_loop stod name ?functions (?st0\<lparr>p_const_values := ?cvs, p_imports := p_imports st, p_type_defines := p_type_defines st,
        p_using_types := p_using_types st\<rparr>) =
      parse_loop stod name [] (?st0\<lparr>p_const_values := ?cvs, p_imports := p_imports st, p_type_defines := p_type_defines st,
        p_using_types := p_using_types st, p_functions := p_functions st\<rparr>)"
    by (rule parse_loop_step [OF plain_sections(5)])
      (use parse_function_print [OF ok(9,3,10), of "[]"] in \<open>simp add: parse_section_def\<close>)
  ultimately show ?thesis by (simp add: parse_def parse_loop.simps [of _ _ "[]"])
qed

section \<open>Properties\<close>

text \<open>
  C7. The parser inverts printing: for every module whose parts can be written down, the text of
  the module parses, and to exactly that module: constants, imports, type definitions, types in
  use and functions with all their label blocks and orders.
\<close>

theorem parse_print_module:
  assumes "printable_module name st"
  shows "parse stod name (print_module name st) =
    Inr (Some (Module_new name (p_const_values st) (p_imports st) (p_type_defines st) (p_using_types st) (p_functions st)))"
  by (rule parse_module_spec [OF assms])

definition demo_source :: parser_state where
  "demo_source =
     \<lparr>p_const_values = [\<lparr>const_byte_size = 3, const_type = CHR ''s'', value_reference = bytes_of ''add''\<rparr>,
        \<lparr>const_byte_size = 2, const_type = CHR ''i'', value_reference = bytes_of_u64 20\<rparr>],
      p_imports = [''demo''],
      p_type_defines = [Type_new None ''add'' 0
        [\<lparr>info_field_name = ''6'', field_primitive_type = Some i64, user_def_type = \<lparr>import_index = 0, info_type_name = []\<rparr>\<rparr>,
         \<lparr>info_field_name = ''7'', field_primitive_type = None, user_def_type = \<lparr>import_index = 0, info_type_name = ''add''\<rparr>\<rparr>]
        \<lparr>import_index = 0, info_type_name = []\<rparr>],
      p_using_types = [\<lparr>import_index = 0, info_type_name = ''0''\<rparr>],
      p_functions = [Function_new ''add'' 0 2
        [\<lparr>label_name = ''entry'', orders = [GetConstInteger i64 0 1, GetArgument 1 0, AddInteger i64 0 0 1,
           SetObjectFieldOwnership 0 1 0 ''add'' 0 True, JumpToLabel ''exit'' None]\<rparr>,
         \<lparr>label_name = ''exit'', orders = [ReturnFunction 0]\<rparr>]
        \<lparr>arg_primitive_type = Some i64, arg_type_index = 0\<rparr> [\<lparr>arg_primitive_type = None, arg_type_index = 0\<rparr>]]\<rparr>"

lemma demo_source_printable: "printable_module ''demo'' demo_source"
proof -
  let ?cvs = "p_const_values demo_source"
  have two: "show_nat (unat (20 :: u64)) = ''20''"
    by (simp add: show_nat.simps digit_char_def char_of_def bit_iff_odd)
  have cvs: "list_all printable_const ?cvs" "length ?cvs = 2"
    using two by (auto simp: demo_source_def printable_const_def const_text_def chars_bytes read_u64_bytes intro!: exI [of _ "20 :: u64"])
  have add: "find_const ?cvs ''add'' \<noteq> None"
    by (simp add: demo_source_def find_const_def get_const_value_as_string_def nth_or_def chars_bytes take_bytes upt_conv_Cons)
  have word: "list_all is_word ''entry''" "list_all is_word ''exit''" "list_all is_digit ''0''" "list_all is_digit ''6''" "list_all is_digit ''7''"
    by (simp_all add: is_word_def is_digit_def)
  show ?thesis unfolding printable_module_def using cvs add word
    by (simp add: demo_source_def printable_import_def printable_define_def printable_field_def printable_type_def printable_function_def
        printable_block_def printable_argument_def Function_new_def Type_new_def)
qed

theorem parse_print_module_witness:
  "\<exists>md. parse (\<lambda>_. Inl invalid_argument) ''demo'' (print_module ''demo'' demo_source) = Inr (Some md) \<and> import_module_names md = [''demo'']"
  using parse_print_module [OF demo_source_printable, of "\<lambda>_. Inl invalid_argument"]
  by (simp add: Module_new_def demo_source_def)

lemma gather_iff:
  "gather m is = Inr vs \<longleftrightarrow> list_all2 (\<lambda>i v. map_of m (of_nat i) = Some v) is vs"
proof (induction "is" arbitrary: vs)
  case Nil
  then show ?case by (cases vs) auto
next
  case (Cons i "is")
  then show ?case by (cases vs) (auto simp: and_then_Inr_iff split: option.splits)
qed

lemma gather_error: "gather m is = Inl e \<Longrightarrow> e = ParseException"
proof (induction "is")
  case (Cons i "is")
  then show ?case by (cases "gather m is") (auto split: option.splits)
qed simp

text \<open>
  C34. The tables of a module have no gaps. The numbered entries of a section become the array
  whose \<open>i\<close>-th element is the last entry numbered \<open>i\<close>; if a number below the largest is missing,
  the section is rejected with a parse exception.
\<close>

theorem collect_exact:
  assumes "m \<noteq> []" "mx \<noteq> SIZE_MAX"
  shows "if \<forall>i \<le> unat mx. map_of m (of_nat i) \<noteq> None
    then \<exists>vs. collect m mx = Inr vs \<and> length vs = unat mx + 1 \<and> (\<forall>i \<le> unat mx. map_of m (of_nat i) = Some (vs ! i))
    else collect m mx = Inl ParseException"
proof -
  have "unat mx \<noteq> unat SIZE_MAX" using assms(2) by (simp add: word_unat_eq_iff)
  then have "unat mx + 1 < 2 ^ LENGTH(64)"
    using unsigned_less [where 'a = nat, of mx] by (simp add: unsigned_minus_1_eq_mask mask_eq_exp_minus_1)
  then have n: "unat (mx + 1) = unat mx + 1" by (rule unat_inc)
  then have c: "collect m mx = gather m [0..<unat mx + 1]" using assms(1) by (simp add: collect_def)
  have iff: "gather m [0..<unat mx + 1] = Inr vs \<longleftrightarrow> length vs = unat mx + 1 \<and> (\<forall>i \<le> unat mx. map_of m (of_nat i) = Some (vs ! i))" for vs
    unfolding gather_iff list_all2_conv_all_nth by (auto simp: less_Suc_eq_le simp del: upt_Suc)
  show ?thesis
  proof (cases "\<forall>i \<le> unat mx. map_of m (of_nat i) \<noteq> None")
    case True
    let ?vs = "map (\<lambda>i. the (map_of m (of_nat i))) [0..<unat mx + 1]"
    have "gather m [0..<unat mx + 1] = Inr ?vs" unfolding iff using True by (auto simp: less_Suc_eq_le simp del: upt_Suc)
    moreover from this [unfolded iff] have "length ?vs = unat mx + 1 \<and> (\<forall>i \<le> unat mx. map_of m (of_nat i) = Some (?vs ! i))" .
    ultimately show ?thesis unfolding c by (subst if_P [OF True]) blast
  next
    case False
    then have "gather m [0..<unat mx + 1] \<noteq> Inr vs" for vs unfolding iff by auto
    then obtain e where "gather m [0..<unat mx + 1] = Inl e" by (cases "gather m [0..<unat mx + 1]") auto
    then have "gather m [0..<unat mx + 1] = Inl ParseException" using gather_error by metis
    then show ?thesis unfolding c by (subst if_not_P [OF False])
  qed
qed

theorem collect_exact_witness: "collect [(2 :: u64, ''c''), (0, ''a'')] 2 = Inl ParseException"
proof -
  have "(2 :: u64) \<noteq> SIZE_MAX" by simp
  moreover have "\<not> (\<forall>i \<le> unat (2 :: u64). map_of [(2 :: u64, ''c''), (0, ''a'')] (of_nat i) \<noteq> None)"
    by (simp add: exI [of _ 1])
  ultimately show ?thesis using collect_exact [of "[(2 :: u64, ''c''), (0, ''a'')]" 2] by (simp only: if_False) simp
qed

text \<open>
  The parser checks an addition for two operands but reads three: an addition order that
  lacks its last operand is not rejected, its text is read outside the argument vector.
\<close>

lemma iadd_missing_operand:
  assumes "r \<noteq> SIZE_MAX" "parse_primitive_type t = Inr p" "parse_register_or_variable_number a = Inr l"
  shows "parse_order r ''iadd'' [t, a] cvs = Inl undefined_behaviour"
  using assms by (simp add: parse_order_def nth_or_def)

lemma iadd_missing_operand_example: "parse_order 0 ''iadd'' [''i64'', print_register 1] [] = Inl undefined_behaviour"
  using iadd_missing_operand [OF _ parse_primitive_print [of i64] parse_register_print [of 1], of 0 "[]"] by simp

lemma gather_subset: "gather m is = Inr vs \<Longrightarrow> set vs \<subseteq> snd ` set m"
  unfolding gather_iff list_all2_conv_all_nth by (fastforce simp: in_set_conv_nth dest: map_of_SomeD intro: rev_image_eqI)

lemma parse_entries_values:
  assumes "parse_entries entry code m mx = Inr (m', mx', rest)"
  shows "set m' \<subseteq> set m \<union> {(i, v). \<exists>line. entry line = Inr (i, v)}"
  using assms
proof (induction entry code m mx arbitrary: m' mx' rest rule: parse_entries.induct)
  case (1 entry code m mx)
  obtain x code' where e: "next_entry ''$end'' code = (x, code')" by fastforce
  show ?case
  proof (cases x)
    case None
    then show ?thesis using "1.prems" e by (simp add: parse_entries.simps [of entry code])
  next
    case (Some line)
    then obtain i v where r: "entry line = Inr (i, v)"
      "parse_entries entry code' ((i, v) # m) (max_of i mx) = Inr (m', mx', rest)"
      using "1.prems" e by (auto simp: parse_entries.simps [of entry code] and_then_Inr_iff)
    from "1.IH" [OF e [symmetric] Some r(1) refl r(2)] show ?thesis using r(1) by auto
  qed
qed

lemma parse_type_line_digits:
  assumes "parse_type_line line = Inr (i, info)"
  shows "list_all is_digit (info_type_name info)"
proof -
  obtain a b c where m: "regex_match [number, Lit '':'', number, Lit '':'', number] line = Some [a, b, c]" "info_type_name info = c"
    using assms by (auto simp: parse_type_line_def and_then_Inr_iff simp del: regex_match.simps split: option.splits list.splits)
  from regex_match_sound [OF m(1)] show ?thesis using m(2) by (auto simp: list_all_iff)
qed

lemma parse_type_digits:
  assumes "parse_type code = Inr (infos, rest)" "info \<in> set infos"
  shows "list_all is_digit (info_type_name info)"
proof -
  obtain m mx where m: "parse_entries parse_type_line code [] 0 = Inr (m, mx, rest)" "collect m mx = Inr infos"
    using assms(1) by (auto simp: parse_type_def and_then_Inr_iff)
  have "set infos \<subseteq> snd ` set m"
    using m(2) gather_subset [of m "[0..<unat (mx + 1)]" infos] by (cases "m = []") (simp_all add: collect_def)
  then obtain i where "(i, info) \<in> set m" using assms(2) by auto
  then obtain line where "parse_type_line line = Inr (i, info)" using parse_entries_values [OF m(1)] by auto
  then show ?thesis by (rule parse_type_line_digits)
qed

end
