(* ===== verification/Loader_Correct.thy ===== *)
theory Loader_Correct
  imports Loader Parser_Correct
begin

text \<open>
  Correctness of the loader: the modules it reads are closed under imports, every import is
  resolved, parent cycles are found exactly, the layout of a class starts with the layout of
  its parent, and linked orders designate the block or field they name.
\<close>

section \<open>Reading modules\<close>

lemma set_insert_name [simp]: "set (insert_name n ns) = insert n (set ns)"
  by (auto simp: insert_name_def)

lemma set_fold_insert_name [simp]: "set (fold insert_name ms ns) = set ms \<union> set ns"
  by (induction ms arbitrary: ns) auto

text \<open>A module in the table is what the parser made of its code, and its imports are there.\<close>

definition read_from :: "(string \<Rightarrow> u64 result) \<Rightarrow> (string \<times> string) list \<Rightarrow> string \<Rightarrow> Module \<Rightarrow> bool" where
  "read_from stod pre n md \<longleftrightarrow>
     (\<exists>code. map_of pre n = Some code \<and> code \<noteq> [] \<and> parse stod n code = Inr (Some md))"

lemma read_modules_spec:
  assumes "read_modules stod pick pre names new ms = Inr (Next (new', ms'))"
  shows "\<exists>added. new' = new @ added \<and> distinct added \<and> set added \<inter> dom ms = {} \<and> dom ms' = dom ms \<union> set added \<and>
    ms \<subseteq>\<^sub>m ms' \<and> set names \<subseteq> dom ms' \<and>
    (\<forall>n \<in> set added. \<exists>md. ms' n = Some md \<and> read_from stod pre n md \<and> set (import_module_names md) \<subseteq> dom ms')"
  using assms
proof (induction stod pick pre names new ms rule: read_modules.induct)
  case (1 stod pick pre names new ms)
  let ?cur = "current_of pick names"
  note unfold = read_modules.simps [of stod pick pre names new ms] Let_def
  consider (finish) "names = []" | (known) "names \<noteq> []" "ms ?cur \<noteq> None" | (fresh) "names \<noteq> []" "ms ?cur = None" by blast
  then show ?case
  proof cases
    case finish
    then have "new' = new" "ms' = ms" using "1.prems" by (simp_all add: read_modules.simps [of _ _ _ "[]"])
    then show ?thesis using finish by simp
  next
    case known
    then have "read_modules stod pick pre (remove1 ?cur names) new ms = Inr (Next (new', ms'))"
      using "1.prems" by (simp add: unfold)
    from "1.IH"(1) [OF known(1) refl known(2) this] obtain added where
      a: "new' = new @ added" "distinct added" "set added \<inter> dom ms = {}" "dom ms' = dom ms \<union> set added" "ms \<subseteq>\<^sub>m ms'"
      "set (remove1 ?cur names) \<subseteq> dom ms'"
      "\<forall>n \<in> set added. \<exists>md. ms' n = Some md \<and> read_from stod pre n md \<and> set (import_module_names md) \<subseteq> dom ms'"
      by blast
    moreover have "set names \<subseteq> insert ?cur (set (remove1 ?cur names))" by (induction names) auto
    moreover have "?cur \<in> dom ms'" using known(2) a(4) by auto
    ultimately show ?thesis by blast
  next
    case fresh
    then obtain code md where c: "map_of pre ?cur = Some code" "code \<noteq> []" "parse stod ?cur code = Inr (Some md)"
      and r: "read_modules stod pick pre (fold insert_name (import_module_names md) (remove1 ?cur names))
        (new @ [?cur]) (ms(?cur \<mapsto> md)) = Inr (Next (new', ms'))"
      using "1.prems" by (auto simp: unfold and_then_Inr_iff split: option.splits if_splits)
    have nn: "\<not> ms ?cur \<noteq> None" using fresh(2) by simp
    from "1.IH"(2) [OF fresh(1) refl nn c(1) c(2) c(3) refl r, unfolded set_fold_insert_name] obtain added where
      a: "new' = (new @ [?cur]) @ added" "distinct added" "set added \<inter> dom (ms(?cur \<mapsto> md)) = {}"
      "dom ms' = dom (ms(?cur \<mapsto> md)) \<union> set added" "ms(?cur \<mapsto> md) \<subseteq>\<^sub>m ms'"
      "set (import_module_names md) \<union> set (remove1 ?cur names) \<subseteq> dom ms'"
      "\<forall>n \<in> set added. \<exists>md. ms' n = Some md \<and> read_from stod pre n md \<and> set (import_module_names md) \<subseteq> dom ms'"
      by blast
    have cur: "ms' ?cur = Some md" using a(5) by (auto simp: map_le_def)
    have "ms \<subseteq>\<^sub>m ms(?cur \<mapsto> md)" using fresh(2) by (auto simp: map_le_def fun_upd_def split: if_splits)
    then have "ms \<subseteq>\<^sub>m ms'" using a(5) by (rule map_le_trans)
    moreover have "set names \<subseteq> insert ?cur (set (remove1 ?cur names))" by (induction names) auto
    ultimately show ?thesis using a c cur fresh(2) unfolding read_from_def
      by (intro exI [of _ "?cur # added"]) auto
  qed
qed

section \<open>Resolving imports\<close>

lemma resolve_import_loop:
  assumes "ms n = Some md" "set ns \<subseteq> dom ms"
  shows "for_each (resolve_import n) ns ms = Inr (Next (ms(n \<mapsto> md\<lparr>import_modules := import_modules md @ ns\<rparr>)))"
  using assms
proof (induction ns arbitrary: ms md)
  case Nil
  then show ?case by (simp add: fun_upd_idem)
next
  case (Cons x ns)
  let ?md = "md\<lparr>import_modules := import_modules md @ [x]\<rparr>"
  have "for_each (resolve_import n) ns (ms(n \<mapsto> ?md)) =
      Inr (Next (ms(n \<mapsto> ?md, n \<mapsto> ?md\<lparr>import_modules := import_modules ?md @ ns\<rparr>)))"
    by (rule Cons.IH) (use Cons.prems in auto)
  moreover from Cons.prems(2) obtain y where "ms x = Some y" by auto
  ultimately show ?case using Cons.prems(1) by (auto simp: resolve_import_def [of n x] defined_def fun_upd_def intro!: ext)
qed

lemma resolve_imports_phase:
  assumes "distinct ns" "\<forall>n \<in> set ns. \<exists>md. ms n = Some md \<and> set (import_module_names md) \<subseteq> dom ms"
  shows "for_each resolve_imports ns ms = Inr (Next (\<lambda>n. if n \<in> set ns
    then map_option (\<lambda>md. md\<lparr>import_modules := import_modules md @ import_module_names md\<rparr>) (ms n) else ms n))"
  using assms
proof (induction ns arbitrary: ms)
  case Nil
  then show ?case by simp
next
  case (Cons x ns)
  then obtain md where md: "ms x = Some md" "set (import_module_names md) \<subseteq> dom ms" by auto
  let ?ms = "ms(x \<mapsto> md\<lparr>import_modules := import_modules md @ import_module_names md\<rparr>)"
  have step: "resolve_imports x ms = Inr (Next ?ms)"
    using resolve_import_loop [of ms x md, OF md] md(1) by (simp add: resolve_imports_def defined_def)
  have dom: "dom ?ms = dom ms" using md(1) by auto
  have "\<forall>n \<in> set ns. \<exists>md. ?ms n = Some md \<and> set (import_module_names md) \<subseteq> dom ?ms"
    unfolding dom using Cons.prems by (auto split: if_splits)
  note rest = Cons.IH [OF _ this]
  let ?done = "\<lambda>ns ms n. if n \<in> set ns
    then map_option (\<lambda>md. md\<lparr>import_modules := import_modules md @ import_module_names md\<rparr>) (ms n) else ms n"
  have "?done ns ?ms = ?done (x # ns) ms" using Cons.prems(1) md(1) by (intro ext) auto
  then show ?case using rest Cons.prems(1) step by (simp add: fun_upd_def)
qed

section \<open>Parent chains\<close>

definition parent_of :: "modules \<Rightarrow> type_ptr \<Rightarrow> type_ptr \<Rightarrow> bool" where
  "parent_of ms t u \<longleftrightarrow> (\<exists>type. type_at ms t = Some type \<and> parent type = Some u)"

text \<open>The list of a type and its ancestors, up to one without a parent.\<close>

fun is_chain :: "modules \<Rightarrow> type_ptr option \<Rightarrow> type_ptr list \<Rightarrow> bool" where
  "is_chain ms None us = (us = [])"
| "is_chain ms (Some t) [] = False"
| "is_chain ms (Some t) (u # us) = (t = u \<and> (\<exists>type. type_at ms t = Some type \<and> is_chain ms (parent type) us))"

lemma is_chain_unique: "is_chain ms c us \<Longrightarrow> is_chain ms c vs \<Longrightarrow> us = vs"
proof (induction ms c us arbitrary: vs rule: is_chain.induct)
  case (3 ms t u us)
  then show ?case by (cases vs) auto
qed auto

lemma is_chain_reach:
  assumes "(parent_of ms)\<^sup>*\<^sup>* t u" "is_chain ms (Some t) us"
  shows "\<exists>vs ws. us = vs @ ws \<and> is_chain ms (Some u) ws \<and> (t \<noteq> u \<longrightarrow> vs \<noteq> [])"
  using assms
proof (induction rule: rtranclp_induct)
  case base
  then show ?case by (intro exI [of _ "[]"] exI [of _ us]) simp
next
  case (step u w)
  then obtain vs ws where v: "us = vs @ ws" "is_chain ms (Some u) ws" by blast
  from v(2) step.hyps(2) obtain ws' where "ws = u # ws'" "is_chain ms (Some w) ws'"
    by (cases ws) (auto simp: parent_of_def)
  then show ?case using v(1) by (intro exI [of _ "vs @ [u]"] exI [of _ ws']) auto
qed

lemma is_chain_acyclic:
  assumes "is_chain ms (Some t) us" "(parent_of ms)\<^sup>*\<^sup>* t u"
  shows "\<not> (parent_of ms)\<^sup>+\<^sup>+ u u"
proof
  assume "(parent_of ms)\<^sup>+\<^sup>+ u u"
  then obtain w where w: "parent_of ms u w" "(parent_of ms)\<^sup>*\<^sup>* w u" by (meson tranclpD)
  from is_chain_reach [OF assms(2,1)] obtain us' where u: "is_chain ms (Some u) us'" by blast
  then obtain ws where ws: "us' = u # ws" "is_chain ms (Some w) ws" using w(1) by (cases us') (auto simp: parent_of_def)
  from is_chain_reach [OF w(2) ws(2)] obtain vs xs where "ws = vs @ xs" "is_chain ms (Some u) xs" by blast
  then show False using is_chain_unique [OF u] ws(1) by fastforce
qed

lemma parent_chain_sound:
  assumes "parent_chain ms c found = Some r"
  shows "case r of Some ts \<Rightarrow> \<exists>us. ts = found @ us \<and> is_chain ms c us \<and> (distinct found \<longrightarrow> distinct ts)
    | None \<Rightarrow> \<exists>t u. c = Some t \<and> (parent_of ms)\<^sup>*\<^sup>* t u \<and> (u \<in> set found \<or> (parent_of ms)\<^sup>+\<^sup>+ u u)"
proof (rule parent_chain.raw_induct [where P = "\<lambda>ms c found r.
    case r of Some ts \<Rightarrow> \<exists>us. ts = found @ us \<and> is_chain ms c us \<and> (distinct found \<longrightarrow> distinct ts)
    | None \<Rightarrow> \<exists>t u. c = Some t \<and> (parent_of ms)\<^sup>*\<^sup>* t u \<and> (u \<in> set found \<or> (parent_of ms)\<^sup>+\<^sup>+ u u)", OF _ assms])
  fix chain :: "modules \<Rightarrow> type_ptr option \<Rightarrow> type_ptr list \<Rightarrow> type_ptr list option option" and ms c found r
  let ?P = "\<lambda>ms c found r.
    case r of Some ts \<Rightarrow> \<exists>us. ts = found @ us \<and> is_chain ms c us \<and> (distinct found \<longrightarrow> distinct ts)
    | None \<Rightarrow> \<exists>t u. c = Some t \<and> (parent_of ms)\<^sup>*\<^sup>* t u \<and> (u \<in> set found \<or> (parent_of ms)\<^sup>+\<^sup>+ u u)"
  assume IH: "\<And>ms c found r. chain ms c found = Some r \<Longrightarrow> ?P ms c found r"
    and eq: "(case c of None \<Rightarrow> Some (Some found)
        | Some t \<Rightarrow> if t \<in> set found then Some None
            else type_at ms t \<bind> (\<lambda>type. chain ms (parent type) (found @ [t]))) = Some r"
  show "?P ms c found r"
  proof (cases c)
    case None
    then show ?thesis using eq by auto
  next
    case (Some t)
    show ?thesis
    proof (cases "t \<in> set found")
      case True
      then show ?thesis using eq Some by auto
    next
      case False
      then obtain type where ty: "type_at ms t = Some type" "chain ms (parent type) (found @ [t]) = Some r"
        using eq Some by (auto simp: bind_Some_iff)
      note ih = IH [OF ty(2)]
      show ?thesis
      proof (cases r)
        case (Some ts)
        with ih obtain us where "ts = found @ t # us" "is_chain ms (parent type) us" "distinct (found @ [t]) \<longrightarrow> distinct ts"
          by auto
        then show ?thesis using Some \<open>c = Some t\<close> ty(1) False by (auto intro!: exI [of _ "t # us"])
      next
        case None
        with ih obtain t' u where t': "parent type = Some t'" "(parent_of ms)\<^sup>*\<^sup>* t' u"
          "u \<in> set (found @ [t]) \<or> (parent_of ms)\<^sup>+\<^sup>+ u u" by auto
        have p: "parent_of ms t t'" using ty(1) t'(1) by (simp add: parent_of_def)
        then have tu: "(parent_of ms)\<^sup>*\<^sup>* t u" using t'(2) by (rule converse_rtranclp_into_rtranclp)
        have "(parent_of ms)\<^sup>+\<^sup>+ u u" if "u = t" using p t'(2) that by (metis rtranclp_into_tranclp2)
        then show ?thesis using None \<open>c = Some t\<close> tu t'(3) by auto
      qed
    qed
  qed
qed

text \<open>The walk ends: it never leaves the finite set of the types that are loaded.\<close>

definition types_closed :: "modules \<Rightarrow> bool" where
  "types_closed ms \<longleftrightarrow> (\<forall>t u. parent_of ms t u \<longrightarrow> type_at ms u \<noteq> None)"

lemma finite_types:
  assumes "finite (dom ms)"
  shows "finite {t. type_at ms t \<noteq> None}"
proof -
  have "{t. type_at ms t \<noteq> None} \<subseteq>
      PrimT ` set all_types \<union> (\<Union>m \<in> dom ms. DefT m ` {..<length (type_defines (the (ms m)))})"
  proof
    fix t assume "t \<in> {t. type_at ms t \<noteq> None}"
    then show "t \<in> PrimT ` set all_types \<union> (\<Union>m \<in> dom ms. DefT m ` {..<length (type_defines (the (ms m)))})"
      by (cases t) (force simp: set_all_types type_at_def bind_Some_iff at_def split: if_splits)+
  qed
  moreover have "finite (PrimT ` set all_types \<union> (\<Union>m \<in> dom ms. DefT m ` {..<length (type_defines (the (ms m)))}))"
    using assms by simp
  ultimately show ?thesis by (rule finite_subset)
qed

lemma parent_chain_total:
  assumes "finite (dom ms)" "types_closed ms" "\<forall>t. c = Some t \<longrightarrow> type_at ms t \<noteq> None"
  shows "parent_chain ms c found \<noteq> None"
  using assms(3)
proof (induction "card ({t. type_at ms t \<noteq> None} - set found)" arbitrary: c found rule: less_induct)
  case less
  show ?case
  proof (cases c)
    case None
    then show ?thesis by (subst parent_chain.simps) simp
  next
    case (Some t)
    then obtain type where t: "type_at ms t = Some type" using less.prems by auto
    show ?thesis
    proof (cases "t \<in> set found")
      case True
      then show ?thesis using Some by (subst parent_chain.simps) simp
    next
      case False
      have "parent_chain ms (parent type) (found @ [t]) \<noteq> None"
      proof (rule less.hyps)
        let ?T = "{t. type_at ms t \<noteq> None} - set found"
        have "{t. type_at ms t \<noteq> None} - set (found @ [t]) = ?T - {t}" by auto
        moreover have "t \<in> ?T" "finite ?T" using t False finite_types [OF assms(1)] by auto
        ultimately show "card ({t. type_at ms t \<noteq> None} - set (found @ [t])) < card ?T"
          using card_Diff1_less [of ?T t] by metis
        show "\<forall>u. parent type = Some u \<longrightarrow> type_at ms u \<noteq> None"
          using assms(2) t by (auto simp: types_closed_def parent_of_def)
      qed
      then show ?thesis using Some False t by (subst parent_chain.simps) simp
    qed
  qed
qed

lemma parent_chain_cases:
  assumes "finite (dom ms)" "types_closed ms" "type_at ms t \<noteq> None"
  shows "if \<exists>u. (parent_of ms)\<^sup>*\<^sup>* t u \<and> (parent_of ms)\<^sup>+\<^sup>+ u u
    then parent_chain ms (Some t) [] = Some None
    else \<exists>ts. parent_chain ms (Some t) [] = Some (Some ts) \<and> is_chain ms (Some t) ts \<and> distinct ts"
proof -
  obtain r where r: "parent_chain ms (Some t) [] = Some r"
    using parent_chain_total [OF assms(1,2), of "Some t" "[]"] assms(3) by auto
  note s = parent_chain_sound [OF r]
  show ?thesis
  proof (cases r)
    case None
    with s r show ?thesis by auto
  next
    case (Some ts)
    with s have "is_chain ms (Some t) ts" "distinct ts" by auto
    then show ?thesis using is_chain_acyclic [of ms t ts] r Some by auto
  qed
qed

section \<open>Layout\<close>

lemma append_fields_spec:
  "append_fields fs names acc = (ok, fs') \<Longrightarrow>
     if ok then fs' = acc @ fs \<and> distinct (map field_name fs) \<and> set names \<inter> field_name ` set fs = {}
     else \<not> (distinct (map field_name fs) \<and> set names \<inter> field_name ` set fs = {})"
proof (induction fs names acc rule: append_fields.induct)
  case (2 f fs names acc)
  then show ?case by (cases "field_name f \<in> set names") (auto split: if_splits)
qed auto

text \<open>The fields of a class in the order of the layout: those of its oldest ancestor first.\<close>

definition layout :: "modules \<Rightarrow> type_ptr list \<Rightarrow> Field list" where
  "layout ms ts = concat (map (fields_of ms) (rev ts))"

lemma type_at_DefT: "ms n = Some md \<Longrightarrow> i < length (type_defines md) \<Longrightarrow> type_at ms (DefT n i) = Some (type_defines md ! i)"
  by (simp add: type_at_def at_def)

lemma layout_type_spec:
  assumes "layout_type n i ms = Inr (Next ms')" "type_at ms (DefT n i) = Some type"
  shows "\<exists>ts bits type'. is_chain ms (Some (DefT n i)) ts \<and> distinct ts \<and> distinct (map field_name (layout ms ts)) \<and>
    type_at ms' (DefT n i) = Some type' \<and> all_fields type' = all_fields type @ layout ms ts \<and>
    reference_fields type' = Some bits \<and> parent type' = parent type \<and> add_fields type' = add_fields type \<and>
    (\<forall>j < length (all_fields type'). get_flag bits j = Some (is_reference ms (all_fields type' ! j)) \<and>
      field_Type ms (all_fields type' ! j) \<noteq> None)"
proof -
  obtain md where md: "ms n = Some md" "i < length (type_defines md)" "type_defines md ! i = type"
    using assms(2) by (auto simp: type_at_def bind_Some_iff at_def split: if_splits)
  obtain ts fs bits where r: "parent_chain ms (Some (DefT n i)) [] = Some (Some ts)"
    "append_fields (layout ms ts) [] (all_fields type) = (True, fs)" "reference_bits ms fs = Inr bits"
    "ms' = ms(n \<mapsto> update_type i (\<lambda>t. t\<lparr>all_fields := fs, reference_fields := Some bits\<rparr>) md)"
    using assms(1) md by (auto simp: layout_type_def layout_def defined_def nth_or_def and_then_Inr_iff
        split: option.splits prod.splits bool.splits if_splits)
  have ts: "is_chain ms (Some (DefT n i)) ts" "distinct ts" using parent_chain_sound [OF r(1)] by auto
  have fs: "fs = all_fields type @ layout ms ts" "distinct (map field_name (layout ms ts))"
    using append_fields_spec [OF r(2)] by auto
  have b: "list_all (\<lambda>f. field_Type ms f \<noteq> None) fs"
    "mark_flags set_flag (\<lambda>j. is_reference ms (fs ! j)) [0..<length fs] (create_bitset (length fs)) = Some bits"
    using r(3) by (auto simp: reference_bits_def defined_def split: if_splits option.splits)
  have "\<forall>j < length fs. get_flag bits j = Some (is_reference ms (fs ! j))"
    using bits.mark_all_flags [of "\<lambda>j. is_reference ms (fs ! j)" "length fs"] b(2) by auto
  then show ?thesis using ts fs r(4) md b(1)
    by (intro exI [of _ ts] exI [of _ bits] exI [of _ "type\<lparr>all_fields := fs, reference_fields := Some bits\<rparr>"])
      (auto simp: type_at_def update_type_def at_def list_all_length)
qed

lemma parent_chain_of_chain:
  "is_chain ms c us \<Longrightarrow> distinct (found @ us) \<Longrightarrow> parent_chain ms c found = Some (Some (found @ us))"
proof (induction ms c us arbitrary: found rule: is_chain.induct)
  case (1 ms us)
  then show ?case by (subst parent_chain.simps) simp
next
  case (3 ms t u us)
  then show ?case by (subst parent_chain.simps) auto
qed simp

lemma is_chain_distinct:
  assumes "is_chain ms (Some t) us"
  shows "distinct us"
  using assms
proof (induction us arbitrary: t)
  case (Cons u us)
  then obtain type where t: "t = u" "type_at ms u = Some type" "is_chain ms (parent type) us" by auto
  have "is_chain ms (Some u) (u # us)" using Cons.prems t(1) by simp
  have mem: "is_chain ms (Some a) as \<Longrightarrow> b \<in> set as \<Longrightarrow> (parent_of ms)\<^sup>*\<^sup>* a b" for a b as
  proof (induction as arbitrary: a)
    case (Cons c as)
    then obtain type where c: "a = c" "type_at ms c = Some type" "is_chain ms (parent type) as" by auto
    show ?case
    proof (cases "b = c")
      case False
      then have "b \<in> set as" using Cons.prems by simp
      moreover from this c(3) obtain d where d: "parent type = Some d" by (cases "parent type") auto
      ultimately have "(parent_of ms)\<^sup>*\<^sup>* d b" using Cons.IH c(3) by simp
      moreover have "parent_of ms a d" using c d by (simp add: parent_of_def)
      ultimately show ?thesis by (rule converse_rtranclp_into_rtranclp [rotated])
    qed (use c in simp)
  qed simp
  show ?case
  proof (cases "parent type")
    case (Some p)
    have "parent_of ms u p" using t(2) Some by (simp add: parent_of_def)
    then have "u \<notin> set us" using is_chain_acyclic [of ms u "u # us" u] mem [of p us u] t Some Cons.prems
      by (auto dest: rtranclp_into_tranclp2)
    then show ?thesis using Cons.IH t(3) Some by simp
  qed (use t(3) in auto)
qed simp

text \<open>What makes a class acceptable, and that \<open>layout_type\<close> accepts exactly that.\<close>

definition layout_ok :: "modules \<Rightarrow> type_ptr \<Rightarrow> type_ptr list \<Rightarrow> bool" where
  "layout_ok ms t ts \<longleftrightarrow> is_chain ms (Some t) ts \<and> distinct (map field_name (layout ms ts)) \<and>
     list_all (\<lambda>f. field_Type ms f \<noteq> None) (layout ms ts)"

lemma layout_type_succeeds:
  assumes "type_at ms (DefT n i) = Some type" "all_fields type = []" "layout_ok ms (DefT n i) ts"
  shows "\<exists>ms'. layout_type n i ms = Inr (Next ms')"
proof -
  obtain md where md: "ms n = Some md" "i < length (type_defines md)" "type_defines md ! i = type"
    using assms(1) by (auto simp: type_at_def bind_Some_iff at_def split: if_splits)
  have chain: "parent_chain ms (Some (DefT n i)) [] = Some (Some ts)"
    using parent_chain_of_chain [of ms "Some (DefT n i)" ts "[]"] is_chain_distinct [of ms "DefT n i" ts] assms(3)
    by (simp add: layout_ok_def)
  obtain ok fs where a: "append_fields (layout ms ts) [] [] = (ok, fs)" by (metis surj_pair)
  then have fs: "ok" "fs = layout ms ts" using append_fields_spec [OF a] assms(3)
    by (auto simp: layout_ok_def split: if_splits)
  obtain bits where "reference_bits ms fs = Inr bits"
    using bits.mark_all_flags [of "\<lambda>j. is_reference ms (fs ! j)" "length fs"] assms(3) fs(2)
    by (auto simp: reference_bits_def layout_ok_def defined_def)
  then show ?thesis using chain a fs md assms(2)
    by (simp add: layout_type_def layout_def defined_def nth_or_def)
qed

lemma layout_child:
  assumes "is_chain ms (Some t) ts" "parent_of ms t p" "is_chain ms (Some p) ps"
  shows "layout ms ts = layout ms ps @ fields_of ms t"
proof -
  obtain us where "ts = t # us" "is_chain ms (Some p) us"
    using assms(1,2) by (cases ts) (auto simp: parent_of_def)
  then show ?thesis using is_chain_unique [OF _ assms(3)] by (auto simp: layout_def)
qed

section \<open>Linking\<close>

lemma find_field_missing:
  "name \<notin> field_name ` set fs \<Longrightarrow> find_field flags name fs i old = Some old"
  by (induction fs arbitrary: i) auto

lemma find_field_found:
  assumes "distinct (map field_name fs)" "j < length fs" "\<forall>k < length fs. get_flag flags (i + k) \<noteq> None"
  shows "find_field flags (field_name (fs ! j)) fs i old = Some (of_nat (i + j))"
  using assms
proof (induction fs arbitrary: i j)
  case Nil
  then show ?case by simp
next
  case (Cons f fs)
  show ?case
  proof (cases j)
    case 0
    obtain b where "get_flag flags i = Some b" using Cons.prems(3) by (metis Nat.add_0_right length_greater_0_conv list.distinct(1) not_None_eq)
    then show ?thesis using 0 by simp
  next
    case (Suc k)
    have "field_name (fs ! k) \<in> field_name ` set fs" using Suc Cons.prems(2) by auto
    then have "field_name f \<noteq> field_name (fs ! k)" using Cons.prems(1) by auto
    moreover have "\<forall>m < length fs. get_flag flags (Suc i + m) \<noteq> None"
      using Cons.prems(3) by (metis Suc_less_eq add_Suc_shift length_Cons)
    ultimately show ?thesis using Cons.IH [of k "Suc i"] Suc Cons.prems by simp
  qed
qed

lemma link_field_found:
  assumes "at (using_types md) (unat u) = Some (Some t)" "type_at ms t = Some type" "reference_fields type = Some bits"
    "distinct (map field_name (all_fields type))" "\<forall>k < length (all_fields type). get_flag bits k \<noteq> None"
    "j < length (all_fields type)" "field_name (all_fields type ! j) \<noteq> []"
  shows "link_field ms md u (field_name (all_fields type ! j)) old = Some (of_nat j)"
  using assms find_field_found [of "all_fields type" j bits 0 old] by (simp add: link_field_def)

lemma for_each_append: "for_each f (xs @ ys) s = and_next (for_each f xs s) (for_each f ys)"
proof (induction xs arbitrary: s)
  case (Cons x xs)
  show ?case
  proof (cases "f x s")
    case (Inr r)
    then show ?thesis using Cons.IH by (cases r) simp_all
  qed simp
qed simp

section \<open>Example modules\<close>

text \<open>A class with one integer field and a subclass that adds a reference to it.\<close>

definition demo_types :: "Type list" where
  "demo_types =
     [(Type_new None ''A'' 0 [] \<lparr>import_index = 0, info_type_name = ''''\<rparr>)
        \<lparr>add_fields := [\<lparr>field_name = ''n'', field_type = Some (PrimT i64)\<rparr>]\<rparr>,
      (Type_new None ''B'' 0 [] \<lparr>import_index = 0, info_type_name = ''A''\<rparr>)
        \<lparr>parent := Some (DefT ''m'' 0), add_fields := [\<lparr>field_name = ''next'', field_type = Some (DefT ''m'' 0)\<rparr>]\<rparr>]"

definition demo_modules :: modules where
  "demo_modules = [''m'' \<mapsto> Module_new ''m'' [] [''m''] demo_types [] []]"

lemma demo_type_at:
  "type_at demo_modules (DefT ''m'' 0) = Some (demo_types ! 0)"
  "type_at demo_modules (DefT ''m'' (Suc 0)) = Some (demo_types ! 1)"
  "type_at demo_modules (PrimT p) = Some (primitive_Type p)"
  "all_fields (demo_types ! 0) = []" "all_fields (demo_types ! 1) = []" "parent (demo_types ! 0) = None"
  "parent (demo_types ! 1) = Some (DefT ''m'' 0)"
  by (simp_all add: type_at_def demo_modules_def demo_types_def Module_new_def at_def Type_new_def)

lemma demo_fields:
  "fields_of demo_modules (DefT ''m'' 0) = [\<lparr>field_name = ''n'', field_type = Some (PrimT i64)\<rparr>]"
  "fields_of demo_modules (DefT ''m'' (Suc 0)) = [\<lparr>field_name = ''next'', field_type = Some (DefT ''m'' 0)\<rparr>]"
  unfolding fields_of_def demo_type_at by (simp_all add: demo_types_def)

lemma demo_chains:
  "is_chain demo_modules (Some (DefT ''m'' 0)) [DefT ''m'' 0]"
  "is_chain demo_modules (Some (DefT ''m'' (Suc 0))) [DefT ''m'' (Suc 0), DefT ''m'' 0]"
  using demo_type_at by simp_all

lemma demo_layouts:
  "layout_ok demo_modules (DefT ''m'' 0) [DefT ''m'' 0]"
  "layout_ok demo_modules (DefT ''m'' (Suc 0)) [DefT ''m'' (Suc 0), DefT ''m'' 0]"
  unfolding layout_ok_def layout_def using demo_chains demo_type_at(1,3) by (simp_all add: demo_fields field_Type_def)

lemma demo_layout_Next:
  "\<exists>ms. layout_type ''m'' 0 demo_modules = Inr (Next ms)" "\<exists>ms. layout_type ''m'' (Suc 0) demo_modules = Inr (Next ms)"
  using layout_type_succeeds [OF demo_type_at(1,4) demo_layouts(1)] layout_type_succeeds [OF demo_type_at(2,5) demo_layouts(2)]
  by blast+

lemma demo_closed: "finite (dom demo_modules)" "types_closed demo_modules"
proof -
  show "finite (dom demo_modules)" by (simp add: demo_modules_def)
  have "u = DefT ''m'' 0" if "parent_of demo_modules t u" for t u
    using that by (auto simp: parent_of_def type_at_def demo_modules_def Module_new_def at_def primitive_Type_def
        Type_new_def demo_types_def less_Suc_eq bind_eq_Some_conv split: type_ptr.splits if_splits)
  then show "types_closed demo_modules" unfolding types_closed_def using demo_type_at(1) by fastforce
qed

lemma read_self_importing:
  assumes "parse stod n code = Inr (Some md)" "code \<noteq> []" "import_module_names md = [n]"
  shows "read_modules stod (\<lambda>_. 0) [(n, code)] [n] [] Map.empty = Inr (Next ([n], [n \<mapsto> md]))"
proof -
  have "read_modules stod (\<lambda>_. 0) [(n, code)] [] [n] [n \<mapsto> md] = Inr (Next ([n], [n \<mapsto> md]))"
    by (subst read_modules.simps) simp
  then have "read_modules stod (\<lambda>_. 0) [(n, code)] [n] [n] [n \<mapsto> md] = Inr (Next ([n], [n \<mapsto> md]))"
    by (subst read_modules.simps) (simp add: current_of_def)
  then show ?thesis using assms by (subst read_modules.simps) (simp add: current_of_def insert_name_def)
qed

lemma demo_read:
  "\<exists>md. read_modules (\<lambda>_. Inl invalid_argument) (\<lambda>_. 0) [(''demo'', print_module ''demo'' demo_source)] [''demo''] [] Map.empty
     = Inr (Next ([''demo''], [''demo'' \<mapsto> md]))"
proof -
  have "print_module ''demo'' demo_source \<noteq> []" by (simp add: print_module_def)
  moreover have "p_imports demo_source = [''demo'']" by (simp add: demo_source_def)
  ultimately show ?thesis
    using read_self_importing [OF parse_module_spec [OF demo_source_printable]] by (force simp: Module_new_def)
qed

section \<open>Properties\<close>

text \<open>
  C19. What the loader reads is complete, and resolving imports never fails. If the reading phase
  ends normally, exactly the new modules are added, each is what the parser made of its
  pre-loaded code, and every module they import is loaded; then the next phase, in whatever
  order it visits the new modules, resolves every import of each of them.
\<close>

theorem imports_always_resolve:
  assumes "read_modules stod pick pre [name] [] ms = Inr (Next (new, ms'))"
    and "distinct ns" "set ns = set new"
  shows "name \<in> dom ms' \<and> ms \<subseteq>\<^sub>m ms' \<and> set new = dom ms' - dom ms \<and>
    (\<forall>n \<in> set new. \<exists>md code. ms' n = Some md \<and> map_of pre n = Some code \<and> parse stod n code = Inr (Some md) \<and>
      set (import_module_names md) \<subseteq> dom ms') \<and>
    (\<exists>ms''. for_each resolve_imports ns ms' = Inr (Next ms'') \<and>
      (\<forall>n \<in> set new. ms'' n = map_option (\<lambda>md. md\<lparr>import_modules := import_modules md @ import_module_names md\<rparr>) (ms' n)))"
proof -
  from read_modules_spec [OF assms(1)] have new: "set new \<inter> dom ms = {}" "dom ms' = dom ms \<union> set new" "ms \<subseteq>\<^sub>m ms'" "name \<in> dom ms'"
    and each: "\<forall>n \<in> set new. \<exists>md. ms' n = Some md \<and> read_from stod pre n md \<and> set (import_module_names md) \<subseteq> dom ms'"
    by auto
  have "\<forall>n \<in> set ns. \<exists>md. ms' n = Some md \<and> set (import_module_names md) \<subseteq> dom ms'" using each assms(3) by blast
  from resolve_imports_phase [OF assms(2) this] have
    "\<exists>ms''. for_each resolve_imports ns ms' = Inr (Next ms'') \<and>
      (\<forall>n \<in> set new. ms'' n = map_option (\<lambda>md. md\<lparr>import_modules := import_modules md @ import_module_names md\<rparr>) (ms' n))"
    using assms(3) by simp
  moreover have "set new = dom ms' - dom ms" using new by auto
  ultimately show ?thesis using new each unfolding read_from_def by blast
qed

theorem imports_always_resolve_witness:
  "\<exists>md ms''. for_each resolve_imports [''demo''] [''demo'' \<mapsto> md] = Inr (Next ms'')"
proof -
  from demo_read obtain md where "read_modules (\<lambda>_. Inl invalid_argument) (\<lambda>_. 0) [(''demo'', print_module ''demo'' demo_source)]
    [''demo''] [] Map.empty = Inr (Next ([''demo''], [''demo'' \<mapsto> md]))" by blast
  from imports_always_resolve [OF this, of "[''demo'']"] show ?thesis by auto
qed

text \<open>
  C20. The walk up the parents of a type always ends, and it finds a cycle exactly if the type's
  ancestors contain one; otherwise it delivers the ancestors without repetition.
\<close>

theorem parent_chain_exact:
  assumes "finite (dom ms)" "types_closed ms" "type_at ms t \<noteq> None"
  shows "if \<exists>u. (parent_of ms)\<^sup>*\<^sup>* t u \<and> (parent_of ms)\<^sup>+\<^sup>+ u u
    then parent_chain ms (Some t) [] = Some None
    else \<exists>ts. parent_chain ms (Some t) [] = Some (Some ts) \<and> is_chain ms (Some t) ts \<and> distinct ts"
  by (rule parent_chain_cases [OF assms])

theorem parent_chain_exact_witness:
  "parent_chain demo_modules (Some (DefT ''m'' (Suc 0))) [] = Some (Some [DefT ''m'' (Suc 0), DefT ''m'' 0])"
proof -
  have "\<not> (\<exists>u. (parent_of demo_modules)\<^sup>*\<^sup>* (DefT ''m'' (Suc 0)) u \<and> (parent_of demo_modules)\<^sup>+\<^sup>+ u u)"
    using is_chain_acyclic [OF demo_chains(2)] by blast
  with parent_chain_exact [OF demo_closed, of "DefT ''m'' (Suc 0)"] obtain ts where
    "parent_chain demo_modules (Some (DefT ''m'' (Suc 0))) [] = Some (Some ts)" "is_chain demo_modules (Some (DefT ''m'' (Suc 0))) ts"
    using demo_type_at(2) by auto
  then show ?thesis using is_chain_unique [OF demo_chains(2)] by simp
qed

text \<open>
  C16. The layout phase accepts a class exactly if its parents end at a class without one, no
  two fields of the class and its ancestors share a name, and the type of every field is known.
\<close>

theorem layout_type_accepts:
  assumes "type_at ms (DefT n i) = Some type" "all_fields type = []"
  shows "(\<exists>ms'. layout_type n i ms = Inr (Next ms')) \<longleftrightarrow>
    (\<exists>ts. is_chain ms (Some (DefT n i)) ts \<and> distinct (map field_name (concat (map (fields_of ms) (rev ts)))) \<and>
      list_all (\<lambda>f. field_Type ms f \<noteq> None) (concat (map (fields_of ms) (rev ts))))"
    (is "?l \<longleftrightarrow> (\<exists>ts. ?r ts)")
proof
  assume ?l
  then obtain ms' where "layout_type n i ms = Inr (Next ms')" by blast
  from layout_type_spec [OF this assms(1)] assms(2) show "\<exists>ts. ?r ts" by (force simp: layout_def list_all_length)
next
  assume "\<exists>ts. ?r ts"
  then show ?l using layout_type_succeeds [OF assms] by (auto simp: layout_ok_def layout_def)
qed

theorem layout_type_accepts_witness: "\<exists>ms. layout_type ''m'' (Suc 0) demo_modules = Inr (Next ms)"
  using layout_type_accepts [OF demo_type_at(2,5)] demo_layouts(2) unfolding layout_ok_def layout_def by blast

text \<open>
  C12. A class that passes the layout phase has the fields of all its ancestors, oldest first,
  under distinct names; its flags tell for every field exactly whether it holds a reference, and
  the type of every field is known.
\<close>

theorem layout_type_correct:
  assumes "layout_type n i ms = Inr (Next ms')" "type_at ms (DefT n i) = Some type" "all_fields type = []"
  shows "\<exists>ts bits type'. is_chain ms (Some (DefT n i)) ts \<and> type_at ms' (DefT n i) = Some type' \<and>
    all_fields type' = concat (map (fields_of ms) (rev ts)) \<and> distinct (map field_name (all_fields type')) \<and>
    reference_fields type' = Some bits \<and>
    (\<forall>j < length (all_fields type'). get_flag bits j = Some (is_reference ms (all_fields type' ! j)) \<and>
      field_Type ms (all_fields type' ! j) \<noteq> None)"
  using layout_type_spec [OF assms(1,2)] assms(3) by (fastforce simp: layout_def)

theorem layout_type_correct_witness:
  "\<exists>ms type bits. type_at ms (DefT ''m'' (Suc 0)) = Some type \<and> map field_name (all_fields type) = [''n'', ''next''] \<and>
     reference_fields type = Some bits \<and> get_flag bits 0 = Some False \<and> get_flag bits 1 = Some True"
proof -
  from demo_layout_Next(2) obtain ms where "layout_type ''m'' (Suc 0) demo_modules = Inr (Next ms)" by blast
  from layout_type_correct [OF this demo_type_at(2,5)] obtain ts bits type where
    t: "is_chain demo_modules (Some (DefT ''m'' (Suc 0))) ts" "type_at ms (DefT ''m'' (Suc 0)) = Some type"
      "all_fields type = concat (map (fields_of demo_modules) (rev ts))" "reference_fields type = Some bits"
    and bits: "\<forall>j < length (all_fields type). get_flag bits j = Some (is_reference demo_modules (all_fields type ! j))"
    by blast
  have fs: "all_fields type = [\<lparr>field_name = ''n'', field_type = Some (PrimT i64)\<rparr>,
      \<lparr>field_name = ''next'', field_type = Some (DefT ''m'' 0)\<rparr>]"
    using t(3) is_chain_unique [OF t(1) demo_chains(2)] demo_fields by simp
  have "\<not> is_reference demo_modules (all_fields type ! 0)" "is_reference demo_modules (all_fields type ! 1)"
    unfolding fs is_reference_def field_Type_def using demo_type_at(1,3)
    by (simp_all add: primitive_Type_def Type_new_def demo_types_def)
  then show ?thesis using t(2,4) bits fs by (intro exI [of _ ms] exI [of _ type] exI [of _ bits]) simp
qed

text \<open>
  C11. Inheritance keeps field positions: the layout of a class is the layout of its parent
  followed by the fields the class adds, so code that knows only the parent finds every
  inherited field at the same index.
\<close>

theorem layout_inherits:
  assumes "layout_type n i ms = Inr (Next ms1)" "type_at ms (DefT n i) = Some type" "all_fields type = []"
    and "layout_type m j ms = Inr (Next ms2)" "type_at ms (DefT m j) = Some ptype" "all_fields ptype = []"
    and "parent type = Some (DefT m j)"
  shows "\<exists>type' ptype'. type_at ms1 (DefT n i) = Some type' \<and> type_at ms2 (DefT m j) = Some ptype' \<and>
    all_fields type' = all_fields ptype' @ add_fields type"
proof -
  from layout_type_spec [OF assms(1,2)] obtain ts type' where t: "is_chain ms (Some (DefT n i)) ts"
    "type_at ms1 (DefT n i) = Some type'" "all_fields type' = layout ms ts" using assms(3) by auto
  from layout_type_spec [OF assms(4,5)] obtain ps ptype' where p: "is_chain ms (Some (DefT m j)) ps"
    "type_at ms2 (DefT m j) = Some ptype'" "all_fields ptype' = layout ms ps" using assms(6) by auto
  have "parent_of ms (DefT n i) (DefT m j)" using assms(2,7) by (simp add: parent_of_def)
  from layout_child [OF t(1) this p(1)] have "layout ms ts = layout ms ps @ add_fields type"
    using assms(2) by (simp add: fields_of_def)
  then show ?thesis using t(2,3) p(2,3) by auto
qed

theorem layout_inherits_witness:
  "\<exists>ms1 ms2 child base. type_at ms1 (DefT ''m'' (Suc 0)) = Some child \<and> type_at ms2 (DefT ''m'' 0) = Some base \<and>
     all_fields child = all_fields base @ add_fields (demo_types ! 1)"
proof -
  from demo_layout_Next obtain ms1 ms2 where "layout_type ''m'' (Suc 0) demo_modules = Inr (Next ms1)"
    "layout_type ''m'' 0 demo_modules = Inr (Next ms2)" by blast
  from layout_inherits [OF this(1) demo_type_at(2,5) this(2) demo_type_at(1,4,7)] show ?thesis by blast
qed

text \<open>
  C17. Layout and linking agree: a field order of a module that uses a laid-out class, linked by
  the name of any of the fields of the class, gets the index of that field.
\<close>

theorem layout_link_agree:
  assumes "layout_type n i ms = Inr (Next ms')" "type_at ms (DefT n i) = Some type" "all_fields type = []"
    and "type_at ms' (DefT n i) = Some type'" "at (using_types md) (unat u) = Some (Some (DefT n i))"
    and "j < length (all_fields type')" "field_name (all_fields type' ! j) \<noteq> []"
  shows "link ms' md f (SetObjectFieldOwnership target obj u (field_name (all_fields type' ! j)) old lock) =
      Some (SetObjectFieldOwnership target obj u (field_name (all_fields type' ! j)) (of_nat j) lock) \<and>
    link ms' md f (GetObjectFieldOwnership target result u (field_name (all_fields type' ! j)) old own) =
      Some (GetObjectFieldOwnership target result u (field_name (all_fields type' ! j)) (of_nat j) own)"
proof -
  from layout_type_spec [OF assms(1,2)] assms(3,4) obtain bits where
    "reference_fields type' = Some bits" "distinct (map field_name (all_fields type'))"
    "\<forall>k < length (all_fields type'). get_flag bits k \<noteq> None" by auto
  from link_field_found [OF assms(5,4) this(1,2,3) assms(6,7)] show ?thesis by simp
qed

theorem layout_link_agree_witness:
  "\<exists>ms. \<forall>f. link ms ((Module_new ''m'' [] [] [] [] [])\<lparr>using_types := [Some (DefT ''m'' (Suc 0))]\<rparr>) f
      (SetObjectFieldOwnership 0 1 0 ''next'' 0 False) = Some (SetObjectFieldOwnership 0 1 0 ''next'' 1 False)"
proof -
  let ?md = "(Module_new ''m'' [] [] [] [] [])\<lparr>using_types := [Some (DefT ''m'' (Suc 0))]\<rparr>"
  from demo_layout_Next(2) obtain ms where ms: "layout_type ''m'' (Suc 0) demo_modules = Inr (Next ms)" by blast
  from layout_type_spec [OF ms demo_type_at(2)] obtain ts type where
    t: "is_chain demo_modules (Some (DefT ''m'' (Suc 0))) ts" "type_at ms (DefT ''m'' (Suc 0)) = Some type"
      "all_fields type = layout demo_modules ts" using demo_type_at(5) by auto
  have fs: "all_fields type = [\<lparr>field_name = ''n'', field_type = Some (PrimT i64)\<rparr>,
      \<lparr>field_name = ''next'', field_type = Some (DefT ''m'' 0)\<rparr>]"
    using t(3) is_chain_unique [OF t(1) demo_chains(2)] demo_fields by (simp add: layout_def)
  have u: "at (using_types ?md) (unat (0 :: u64)) = Some (Some (DefT ''m'' (Suc 0)))" by (simp add: at_def)
  from layout_link_agree [OF ms demo_type_at(2,5) t(2) u, of 1 _ 0 1 0 False] fs show ?thesis by (intro exI [of _ ms]) simp
qed

text \<open>
  \<^verbatim>\<open>load_module\<close> of a module that is already loaded changes nothing and returns the null
  pointer, not the module.
\<close>

lemma load_module_twice:
  assumes "loaded_module_map vm name = Some md" "iter [] = []"
  shows "load_module stod pick iter name vm = Inr (None, vm)"
  using assms
  by (simp add: load_module_def read_modules.simps [of _ _ _ "[name]"] read_modules.simps [of _ _ _ "[]"] current_of_def
      link_phases_def on_modules_def)

definition demo_vm_heap :: "HeapAllocator \<times> memory" where
  "demo_vm_heap = HeapAllocator_new True 1024 1 \<lparr>heap = (\<lambda>_. None), chunk_at = (\<lambda>_. None), brk = 4096, heap_chunk_list = []\<rparr>"

definition demo_vm :: CatVM where
  "demo_vm = \<lparr>threads = [], next_thread_id = 0, pre_loaded_module_map = [], loaded_module_map = demo_modules,
     vm_heap_allocator = fst demo_vm_heap, vm_memory = snd demo_vm_heap\<rparr>"

end
