(* ===== verification/Program_Correct.thy ===== *)
theory Program_Correct
  imports Interpreter_Correct Loader_Correct
begin

text \<open>
  Parser, loader and interpreter together: linked code is well formed, and a module of integer
  functions that is written as text, loaded and called returns.
\<close>

section \<open>Linking a function\<close>

lemma traverse_Inr:
  "traverse f xs = Inr ys \<longleftrightarrow> list_all2 (\<lambda>x y. f x = Inr y) xs ys"
proof (induction xs arbitrary: ys)
  case (Cons x xs)
  then show ?case by (cases ys) (auto simp: and_then_Inr_iff)
qed auto

lemma traverse_total:
  "\<forall>x \<in> set xs. \<exists>y. f x = Inr y \<Longrightarrow> \<exists>ys. traverse f xs = Inr ys"
proof (induction xs)
  case (Cons x xs)
  then obtain y ys where "f x = Inr y" "traverse f xs = Inr ys" by auto
  then show ?case by simp
qed simp

lemma defined_Inr [simp]: "defined x = Inr y \<longleftrightarrow> x = Some y"
  by (cases x) (simp_all add: defined_def)

lemma link_block_Inr:
  "link_block ms md f blk = Inr blk' \<longleftrightarrow>
     label_name blk' = label_name blk \<and> list_all2 (\<lambda>ord ord'. link ms md f ord = Some ord') (orders blk) (orders blk')"
  by (cases blk; cases blk') (auto simp: link_block_def and_then_Inr_iff traverse_Inr)

lemma link_function_Inr:
  "link_function ms md f = Inr f' \<longleftrightarrow>
     (\<exists>blks. list_all2 (\<lambda>blk blk'. link_block ms md f blk = Inr blk') (label_blocks f) blks \<and> f' = f\<lparr>label_blocks := blks\<rparr>)"
  by (auto simp: link_function_def and_then_Inr_iff traverse_Inr)

lemma link_function_blocks:
  assumes "link_function ms md f = Inr f'"
  shows "map label_name (label_blocks f') = map label_name (label_blocks f)"
    and "b < length (label_blocks f) \<Longrightarrow>
      list_all2 (\<lambda>ord ord'. link ms md f ord = Some ord') (orders (label_blocks f ! b)) (orders (label_blocks f' ! b))"
    and "length (label_blocks f') = length (label_blocks f)"
    and "registers_size f' = registers_size f" "variables_size f' = variables_size f"
      "argument_type_infos f' = argument_type_infos f" "argument_types f' = argument_types f"
      "return_type_info f' = return_type_info f" "return_type f' = return_type f"
proof -
  obtain blks where b: "list_all2 (\<lambda>blk blk'. link_block ms md f blk = Inr blk') (label_blocks f) blks" "f' = f\<lparr>label_blocks := blks\<rparr>"
    using assms by (auto simp: link_function_Inr)
  show "length (label_blocks f') = length (label_blocks f)" using b by (auto dest: list_all2_lengthD)
  show "map label_name (label_blocks f') = map label_name (label_blocks f)"
    using b by (intro nth_equalityI) (auto simp: list_all2_conv_all_nth link_block_Inr)
  show "list_all2 (\<lambda>ord ord'. link ms md f ord = Some ord') (orders (label_blocks f ! b)) (orders (label_blocks f' ! b))"
    if "b < length (label_blocks f)" using b that by (auto simp: list_all2_conv_all_nth link_block_Inr)
qed (use assms in \<open>auto simp: link_function_Inr\<close>)

section \<open>Source functions\<close>

text \<open>
  A function as it is written, before linking: jumps name a label of a later block that is not
  empty, and labels are distinct.
\<close>

fun source_order_ok :: "ConstValue list \<Rightarrow> Function \<Rightarrow> nat \<Rightarrow> Order \<Rightarrow> bool" where
  "source_order_ok cvs f b (GetConstInteger t r i) =
     (r \<le> registers_size f \<and> unat i < length cvs \<and> 8 \<le> length (value_reference (cvs ! unat i)))"
| "source_order_ok cvs f b (GetArgument r i) = (r \<le> registers_size f \<and> unat i < length (argument_type_infos f))"
| "source_order_ok cvs f b (AddInteger t r x y) = (r \<le> registers_size f \<and> x \<le> registers_size f \<and> y \<le> registers_size f)"
| "source_order_ok cvs f b (JumpToLabel name l) =
     (\<exists>b' < length (label_blocks f). b < b' \<and> label_name (label_blocks f ! b') = name \<and> orders (label_blocks f ! b') \<noteq> [])"
| "source_order_ok cvs f b (ReturnFunction r) = (r \<le> registers_size f)"
| "source_order_ok cvs f b _ = False"

definition source_function_ok :: "ConstValue list \<Rightarrow> Function \<Rightarrow> bool" where
  "source_function_ok cvs f \<longleftrightarrow>
     label_block_map f = index_by_name (map label_name (label_blocks f)) 0 Map.empty \<and>
     distinct (map label_name (label_blocks f)) \<and> registers_size f \<noteq> SIZE_MAX \<and>
     label_blocks f \<noteq> [] \<and> orders (label_blocks f ! 0) \<noteq> [] \<and>
     (\<forall>b < length (label_blocks f). length (orders (label_blocks f ! b)) < 2 ^ 64 \<and>
       list_all (source_order_ok cvs f b) (orders (label_blocks f ! b)))"

lemma source_label_map:
  assumes "source_function_ok cvs f" "b < length (label_blocks f)"
  shows "label_block_map f (label_name (label_blocks f ! b)) = Some b"
proof -
  have "label_block_map f = index_by_name (map label_name (label_blocks f)) 0 Map.empty"
    using assms(1) by (simp add: source_function_ok_def)
  then show ?thesis using index_by_name_distinct [of "map label_name (label_blocks f)" b] assms
    by (simp add: source_function_ok_def)
qed

lemma link_source_order:
  assumes "source_function_ok cvs f" "source_order_ok cvs f b ord" "const_values md = cvs"
  shows "\<exists>ord'. link ms md f ord = Some ord' \<and>
    (\<forall>f'. registers_size f' = registers_size f \<longrightarrow> length (label_blocks f') = length (label_blocks f) \<longrightarrow>
      (\<forall>b < length (label_blocks f). orders (label_blocks f ! b) \<noteq> [] \<longrightarrow> orders (label_blocks f' ! b) \<noteq> []) \<longrightarrow>
      order_ok md (length (argument_type_infos f)) f' b ord')"
  using assms by (cases ord) (auto simp: JumpToLabel_link_def source_label_map)

lemma source_block_links:
  assumes "source_function_ok cvs f" "const_values md = cvs" "blk \<in> set (label_blocks f)"
  shows "\<exists>blk'. link_block ms md f blk = Inr blk'"
proof -
  obtain b where "b < length (label_blocks f)" "label_blocks f ! b = blk" using assms(3) by (auto simp: in_set_conv_nth)
  then have "list_all (source_order_ok cvs f b) (orders blk)" using assms(1) by (auto simp: source_function_ok_def)
  then have "\<forall>ord \<in> set (orders blk). \<exists>ord'. defined (link ms md f ord) = Inr ord'"
    using link_source_order [OF assms(1) _ assms(2)] unfolding defined_Inr list_all_iff by blast
  from traverse_total [OF this] show ?thesis by (auto simp: link_block_def)
qed

lemma source_function_links:
  assumes "source_function_ok cvs f" "const_values md = cvs"
  shows "\<exists>f'. link_function ms md f = Inr f'"
  using traverse_total [of "label_blocks f" "link_block ms md f"] source_block_links [OF assms] by (auto simp: link_function_def)

lemma linked_function_ok:
  assumes "source_function_ok cvs f" "const_values md = cvs" "link_function ms md f = Inr f'"
  shows "function_ok md (length (argument_type_infos f)) f'"
proof -
  note b = link_function_blocks [OF assms(3)]
  have len: "length (orders (label_blocks f' ! k)) = length (orders (label_blocks f ! k))" if "k < length (label_blocks f)" for k
    using b(2) [OF that] by (auto dest: list_all2_lengthD)
  then have ne: "orders (label_blocks f' ! k) \<noteq> []" if "k < length (label_blocks f)" "orders (label_blocks f ! k) \<noteq> []" for k
    using that by (metis length_0_conv)
  have "order_ok md (length (argument_type_infos f)) f' k (orders (label_blocks f' ! k) ! j)"
    if "k < length (label_blocks f)" "j < length (orders (label_blocks f ! k))" for k j
  proof -
    have "source_order_ok cvs f k (orders (label_blocks f ! k) ! j)"
      using assms(1) that by (auto simp: source_function_ok_def list_all_length)
    moreover have "link ms md f (orders (label_blocks f ! k) ! j) = Some (orders (label_blocks f' ! k) ! j)"
      using b(2) [OF that(1)] that(2) by (auto simp: list_all2_conv_all_nth)
    ultimately show ?thesis using link_source_order [OF assms(1) _ assms(2), of k _ ms] b(3,4) ne by fastforce
  qed
  then show ?thesis using assms(1) b(3,4) len ne unfolding function_ok_def source_function_ok_def list_all_length
    by (metis length_greater_0_conv)
qed

section \<open>Loading a module without classes\<close>

lemma read_known:
  "set names \<subseteq> dom ms \<Longrightarrow> read_modules stod pick pre names new ms = Inr (Next (new, ms))"
proof (induction "length names" arbitrary: names)
  case 0
  then show ?case by (subst read_modules.simps) simp
next
  case (Suc n)
  then have "names \<noteq> []" by auto
  then have c: "current_of pick names \<in> set names" by (rule current_of_in)
  have "read_modules stod pick pre (remove1 (current_of pick names) names) new ms = Inr (Next (new, ms))"
    by (rule Suc.hyps(1)) (use Suc c in \<open>auto simp: length_remove1 dest: notin_set_remove1 in_set_remove1 set_remove1_subset [THEN subsetD]\<close>)
  then show ?case using \<open>names \<noteq> []\<close> c Suc.prems by (subst read_modules.simps) (auto simp: Let_def)
qed

lemma read_single:
  assumes "parse stod n code = Inr (Some md)" "code \<noteq> []" "set (import_module_names md) \<subseteq> {n}"
    "ms n = None" "map_of pre n = Some code"
  shows "read_modules stod pick pre [n] [] ms = Inr (Next ([n], ms(n \<mapsto> md)))"
proof -
  have "set (fold insert_name (import_module_names md) []) \<subseteq> dom (ms(n \<mapsto> md))" using assms(3) by auto
  from read_known [OF this, of stod pick pre "[n]"] show ?thesis
    using assms by (subst read_modules.simps) (simp add: current_of_def)
qed

lemma source_order_ok_cong:
  "registers_size g = registers_size f \<Longrightarrow> argument_type_infos g = argument_type_infos f \<Longrightarrow> label_blocks g = label_blocks f \<Longrightarrow>
     source_order_ok cvs g b = source_order_ok cvs f b"
proof
  fix ord
  assume "registers_size g = registers_size f" "argument_type_infos g = argument_type_infos f" "label_blocks g = label_blocks f"
  then show "source_order_ok cvs g b ord = source_order_ok cvs f b ord" by (cases ord) simp_all
qed

lemma source_function_ok_types:
  "source_function_ok cvs f \<Longrightarrow> source_function_ok cvs (f\<lparr>return_type := r, argument_types := ts\<rparr>)"
  by (simp add: source_function_ok_def source_order_ok_cong [of "f\<lparr>return_type := r, argument_types := ts\<rparr>" f])

text \<open>A function whose argument and return types are primitive.\<close>

definition primitive_signature :: "Function \<Rightarrow> bool" where
  "primitive_signature f \<longleftrightarrow> list_all (\<lambda>info. arg_primitive_type info \<noteq> None) (return_type_info f # argument_type_infos f)"

lemma resolve_primitive:
  assumes "primitive_signature f"
  shows "\<exists>ts r. resolve_function md f = Inr (f\<lparr>return_type := r, argument_types := ts\<rparr>)"
proof -
  have arg: "\<exists>t. argument_type md info = Inr t" if "arg_primitive_type info \<noteq> None" for info
    using that by (auto simp: argument_type_def)
  have "\<forall>info \<in> set (argument_type_infos f). \<exists>t. argument_type md info = Inr t"
    using assms arg by (auto simp: primitive_signature_def list_all_iff)
  from traverse_total [OF this] obtain ts where "traverse (argument_type md) (argument_type_infos f) = Inr ts" by blast
  moreover obtain r where "argument_type md (return_type_info f) = Inr r" using arg assms by (auto simp: primitive_signature_def)
  ultimately have "resolve_function md f = Inr (f\<lparr>return_type := r, argument_types := argument_types f @ ts\<rparr>)"
    by (simp add: resolve_function_def)
  then show ?thesis by blast
qed

lemma resolve_functions_ok:
  assumes "list_all (\<lambda>f. source_function_ok cvs f \<and> primitive_signature f) fs"
  shows "\<exists>gs. traverse (resolve_function md) fs = Inr gs \<and>
    list_all2 (\<lambda>f g. source_function_ok cvs g \<and> argument_type_infos g = argument_type_infos f) fs gs"
proof -
  have each: "\<exists>g. resolve_function md f = Inr g \<and> source_function_ok cvs g \<and> argument_type_infos g = argument_type_infos f"
    if "f \<in> set fs" for f
    using resolve_primitive [of f md] source_function_ok_types [of cvs f] assms that by (fastforce simp: list_all_iff)
  then obtain gs where gs: "traverse (resolve_function md) fs = Inr gs" using traverse_total [of fs "resolve_function md"] by blast
  moreover have "list_all2 (\<lambda>f g. source_function_ok cvs g \<and> argument_type_infos g = argument_type_infos f) fs gs"
  proof (rule list.rel_mono_strong [OF gs [unfolded traverse_Inr]])
    show "source_function_ok cvs g \<and> argument_type_infos g = argument_type_infos f" if "f \<in> set fs" "resolve_function md f = Inr g" for f g
      using each [OF that(1)] that(2) by auto
  qed
  ultimately show ?thesis by blast
qed

lemma link_functions_ok:
  assumes "list_all2 (\<lambda>f g. source_function_ok cvs g \<and> argument_type_infos g = argument_type_infos f) fs gs" "const_values md = cvs"
  shows "\<exists>hs. traverse (link_function ms md) gs = Inr hs \<and>
    list_all2 (\<lambda>f h. function_ok md (length (argument_type_infos f)) h) fs hs"
proof -
  have "\<forall>g \<in> set gs. \<exists>h. link_function ms md g = Inr h"
    using assms(1) source_function_links [OF _ assms(2)] by (auto simp: list_all2_conv_all_nth in_set_conv_nth)
  from traverse_total [OF this] obtain hs where hs: "traverse (link_function ms md) gs = Inr hs" by blast
  moreover have "list_all2 (\<lambda>f h. function_ok md (length (argument_type_infos f)) h) fs hs"
    using hs assms(1) linked_function_ok [OF _ assms(2)] unfolding traverse_Inr list_all2_conv_all_nth by metis
  ultimately show ?thesis by blast
qed

lemma function_ok_cong: "const_values md' = const_values md \<Longrightarrow> function_ok md' n f = function_ok md n f"
proof -
  assume c: "const_values md' = const_values md"
  have "order_ok md' n f b = order_ok md n f b" for b
  proof
    show "order_ok md' n f b ord = order_ok md n f b ord" for ord using c by (cases ord) simp_all
  qed
  then show ?thesis by (simp add: function_ok_def)
qed

text \<open>The phases after reading, for a single new module that defines no classes.\<close>

lemma link_phases_single:
  assumes md: "loaded_module_map vm n = Some md" "md = Module_new n cvs imps [] [] fs" "set imps \<subseteq> {n}"
    and fs: "list_all (\<lambda>f. source_function_ok cvs f \<and> primitive_signature f) fs"
  shows "\<exists>hs. link_phases [n] vm = Inr (Next (vm\<lparr>loaded_module_map := (loaded_module_map vm)
      (n \<mapsto> md\<lparr>import_modules := imps, mod_functions := hs\<rparr>)\<rparr>)) \<and>
    list_all2 (\<lambda>f h. function_ok md (length (argument_type_infos f)) h) fs hs"
proof -
  let ?ms = "loaded_module_map vm"
  let ?md1 = "md\<lparr>import_modules := imps\<rparr>"
  obtain gs where gs: "traverse (resolve_function ?md1) fs = Inr gs"
    "list_all2 (\<lambda>f g. source_function_ok cvs g \<and> argument_type_infos g = argument_type_infos f) fs gs"
    using resolve_functions_ok [OF fs, of ?md1] by blast
  let ?md2 = "?md1\<lparr>mod_functions := gs\<rparr>"
  have c: "const_values ?md2 = cvs" using md(2) by (simp add: Module_new_def)
  obtain hs where hs: "traverse (link_function (?ms(n \<mapsto> ?md2)) ?md2) gs = Inr hs"
    "list_all2 (\<lambda>f h. function_ok ?md2 (length (argument_type_infos f)) h) fs hs"
    using link_functions_ok [OF gs(2) c, of "?ms(n \<mapsto> ?md2)"] by blast
  have f1: "resolve_imports n ?ms = Inr (Next (?ms(n \<mapsto> ?md1)))"
    using resolve_import_loop [of ?ms n md imps] md by (auto simp: resolve_imports_def defined_def Module_new_def)
  have f2: "for_types h n (?ms(n \<mapsto> ?md1)) = Inr (Next (?ms(n \<mapsto> ?md1)))" for h
    using md(2) by (simp add: for_types_def defined_def Module_new_def)
  have f4: "resolve_using_types n (?ms(n \<mapsto> ?md1)) = Inr (Next (?ms(n \<mapsto> ?md1)))"
    using md(2) by (simp add: resolve_using_types_def defined_def Module_new_def)
  have f5: "resolve_functions n (?ms(n \<mapsto> ?md1)) = Inr (Next (?ms(n \<mapsto> ?md2)))"
    using md(2) gs(1) by (simp add: resolve_functions_def defined_def Module_new_def)
  have f6: "allocate_module_fields n (vm\<lparr>loaded_module_map := ?ms(n \<mapsto> ?md2)\<rparr>) = Inr (Next (vm\<lparr>loaded_module_map := ?ms(n \<mapsto> ?md2)\<rparr>))"
    using md(2) by (simp add: allocate_module_fields_def defined_def lookup_type_def Module_new_def)
  have f7: "link_module n (?ms(n \<mapsto> ?md2)) = Inr (Next (?ms(n \<mapsto> ?md2\<lparr>mod_functions := hs\<rparr>)))"
    using hs(1) by (simp add: link_module_def defined_def)
  have "link_phases [n] vm = Inr (Next (vm\<lparr>loaded_module_map := ?ms(n \<mapsto> ?md2\<lparr>mod_functions := hs\<rparr>)\<rparr>))"
    by (simp add: link_phases_def on_modules_def f1 f2 f4 f5 f6 f7)
  moreover have "list_all2 (\<lambda>f h. function_ok md (length (argument_type_infos f)) h) fs hs"
    using hs(2) by (simp add: function_ok_cong [of ?md2 md])
  ultimately show ?thesis by (intro exI [of _ hs]) simp
qed

lemma distinct_singleton: "distinct xs \<Longrightarrow> set xs = {n} \<Longrightarrow> xs = [n]"
  by (cases xs; cases "tl xs") auto

lemma load_module_single:
  assumes "printable_module name st" "set (p_imports st) \<subseteq> {name}" "p_type_defines st = []" "p_using_types st = []"
    and "list_all (\<lambda>f. source_function_ok (p_const_values st) f \<and> primitive_signature f) (p_functions st)"
    and "loaded_module_map vm name = None" "map_of (pre_loaded_module_map vm) name = Some (print_module name st)"
    and "distinct (iter [name])" "set (iter [name]) = {name}"
  shows "\<exists>md. load_module stod pick iter name vm = Inr (Some name, vm\<lparr>loaded_module_map := (loaded_module_map vm)(name \<mapsto> md)\<rparr>) \<and>
    list_all2 (\<lambda>f h. function_ok md (length (argument_type_infos f)) h) (p_functions st) (mod_functions md)"
proof -
  let ?md = "Module_new name (p_const_values st) (p_imports st) [] [] (p_functions st)"
  have parse: "parse stod name (print_module name st) = Inr (Some ?md)"
    using parse_module_spec [OF assms(1), of stod] assms(3,4) by simp
  have ne: "print_module name st \<noteq> []" by (simp add: print_module_def)
  have read: "read_modules stod pick (pre_loaded_module_map vm) [name] [] (loaded_module_map vm) =
      Inr (Next ([name], (loaded_module_map vm)(name \<mapsto> ?md)))"
    by (rule read_single [OF parse ne]) (use assms in \<open>simp_all add: Module_new_def\<close>)
  from link_phases_single [of "vm\<lparr>loaded_module_map := (loaded_module_map vm)(name \<mapsto> ?md)\<rparr>" name ?md, OF _ refl assms(2,5)]
  obtain hs where hs: "link_phases [name] (vm\<lparr>loaded_module_map := (loaded_module_map vm)(name \<mapsto> ?md)\<rparr>) =
      Inr (Next (vm\<lparr>loaded_module_map := (loaded_module_map vm)(name \<mapsto> ?md\<lparr>import_modules := p_imports st, mod_functions := hs\<rparr>)\<rparr>))"
    "list_all2 (\<lambda>f h. function_ok ?md (length (argument_type_infos f)) h) (p_functions st) hs" by auto
  let ?md' = "?md\<lparr>import_modules := p_imports st, mod_functions := hs\<rparr>"
  have "load_module stod pick iter name vm = Inr (Some name, vm\<lparr>loaded_module_map := (loaded_module_map vm)(name \<mapsto> ?md')\<rparr>)"
    using read hs(1) distinct_singleton [OF assms(8,9)] by (simp add: load_module_def)
  moreover have "list_all2 (\<lambda>f h. function_ok ?md' (length (argument_type_infos f)) h) (p_functions st) (mod_functions ?md')"
    using hs(2) function_ok_cong [of ?md' ?md] by simp
  ultimately show ?thesis by blast
qed

section \<open>Well-formedness of linked code\<close>

text \<open>
  A linked order of a function with blocks \<open>blocks\<close>: a jump leads to a block that carries the
  label it names, and is null only if no block does; an allocation has the type of its entry.
\<close>

fun linked_order :: "Module \<Rightarrow> LabelBlock list \<Rightarrow> Order \<Rightarrow> bool" where
  "linked_order md blocks (JumpToLabel label target) =
     (case target of
        None \<Rightarrow> label \<notin> label_name ` set blocks
      | Some b \<Rightarrow> b < length blocks \<and> label_name (blocks ! b) = label)"
| "linked_order md blocks (NewClassObject result index using_type n) =
     (at (using_types md) (unat index) = Some using_type)"
| "linked_order md blocks _ = True"

lemma linked_order_cong:
  assumes "map label_name bs = map label_name bs'"
  shows "linked_order md bs ord = linked_order md bs' ord"
proof -
  have "length bs = length bs'" using assms by (metis length_map)
  moreover have "label_name ` set bs = label_name ` set bs'" using assms by (metis list.set_map)
  moreover have "label_name (bs ! b) = label_name (bs' ! b)" if "b < length bs" for b
    using assms that calculation(1) by (metis nth_map)
  ultimately show ?thesis by (cases ord) (auto split: option.split)
qed

lemma link_order_linked:
  assumes "label_block_map f = index_by_name (map label_name (label_blocks f)) 0 Map.empty" "link ms md f ord = Some ord'"
  shows "linked_order md (label_blocks f) ord'"
proof -
  let ?blocks = "label_blocks f"
  have "b < length ?blocks \<and> label_name (?blocks ! b) = l" if "index_by_name (map label_name ?blocks) 0 Map.empty l = Some b" for l b
    using index_by_name_Some [OF that] by auto
  moreover have "l \<notin> label_name ` set ?blocks" if "index_by_name (map label_name ?blocks) 0 Map.empty l = None" for l
    using that by (auto simp: index_by_name_lookup split: if_splits)
  ultimately show ?thesis using assms
    by (cases ord) (auto simp: JumpToLabel_link_def NewClassObject_link_def bind_eq_Some_conv split: option.split)
qed

lemma link_function_linked:
  assumes "label_block_map f = index_by_name (map label_name (label_blocks f)) 0 Map.empty" "link_function ms md f = Inr f'"
  shows "list_all (\<lambda>block. list_all (linked_order md (label_blocks f')) (orders block)) (label_blocks f')"
proof -
  note l = link_function_blocks [OF assms(2)]
  have "linked_order md (label_blocks f') (orders (label_blocks f' ! b) ! j)"
    if "b < length (label_blocks f)" "j < length (orders (label_blocks f' ! b))" for b j
    using l(2) [OF that(1)] that(2) link_order_linked [OF assms(1)] linked_order_cong [OF l(1)]
    by (auto simp: list_all2_conv_all_nth)
  then show ?thesis using l(3) by (simp add: list_all_length)
qed

section \<open>Names of used classes\<close>

lemma parse_section_types:
  assumes "parse_section stod name line code st = Inr (st', rest)"
    "\<forall>info \<in> set (p_using_types st). list_all is_digit (info_type_name info)"
  shows "\<forall>info \<in> set (p_using_types st'). list_all is_digit (info_type_name info)"
  using assms parse_type_digits by (auto simp: parse_section_def and_then_Inr_iff split: if_splits)

text \<open>What every section preserves, the whole text preserves.\<close>

lemma parse_loop_inv:
  assumes "parse_loop stod name code st = Inr st'" "P st"
    and "\<And>line code st st' rest. parse_section stod name line code st = Inr (st', rest) \<Longrightarrow> P st \<Longrightarrow> P st'"
  shows "P st'"
  using assms
proof (induction stod name code st rule: parse_loop.induct)
  case (1 stod name code st)
  show ?case
  proof (cases "code = []")
    case True
    then show ?thesis using "1.prems" by (simp add: parse_loop.simps [of _ _ "[]"])
  next
    case False
    obtain line code' where l: "move_until_next_line code = (line, code')" by fastforce
    with "1.prems"(1) False obtain st1 rest where s: "parse_section stod name line code' st = Inr (st1, rest)"
      "parse_loop stod name rest st1 = Inr st'" by (auto simp: parse_loop.simps [of stod name code] and_then_Inr_iff)
    show ?thesis
      by (rule "1.IH" [OF False l [symmetric] s(1) refl s(2)]) (use "1.prems"(2,3) s(1) in blast)+
  qed
qed

lemma parse_types_digits:
  assumes "parse stod name code = Inr (Some md)" "info \<in> set (using_type_infos md)"
  shows "list_all is_digit (info_type_name info)"
proof -
  let ?st = "\<lparr>p_const_values = [], p_imports = [], p_type_defines = [], p_using_types = [], p_functions = []\<rparr>"
  obtain st where st: "parse_loop stod name code ?st = Inr st" "using_type_infos md = p_using_types st"
    using assms(1) by (auto simp: parse_def Module_new_def split: sum.splits parse_error.splits)
  then show ?thesis
    using parse_loop_inv [OF st(1), of "\<lambda>st. \<forall>info \<in> set (p_using_types st). list_all is_digit (info_type_name info)"]
      parse_section_types assms(2) by auto
qed

lemma imported_type_named:
  assumes "imported_type ms md index name = Inr (Some t)"
    and "\<forall>n imported. ms n = Some imported \<longrightarrow> mod_name imported = n \<and>
      type_define_map imported = index_by_name (map type_name (type_defines imported)) 0 Map.empty"
  shows "\<exists>type. type_at ms t = Some type \<and> type_name type = name"
proof -
  obtain m imported k where i: "ms m = Some imported" "t = DefT (mod_name imported) k" "type_define_map imported name = Some k"
    using assms(1) by (auto simp: imported_type_def and_then_Inr_iff lookup_type_def)
  then show ?thesis using assms(2) index_by_name_Some [of "map type_name (type_defines imported)" name k]
    by (auto simp: type_at_def at_def)
qed

end
