(* ===== verification/Loaded_Modules.thy ===== *)
theory Loaded_Modules
  imports Program_Correct
begin

text \<open>
  What a module looks like after \<^verbatim>\<open>load_module\<close>: a well-formedness predicate over the loaded
  modules, and that every module the loader adds satisfies it.
\<close>

section \<open>Modules as the parser leaves them\<close>

definition new_type :: "Type \<Rightarrow> bool" where
  "new_type t \<longleftrightarrow> all_fields t = []"

definition new_function :: "Function \<Rightarrow> bool" where
  "new_function f \<longleftrightarrow> label_block_map f = index_by_name (map label_name (label_blocks f)) 0 Map.empty \<and> argument_types f = []"

definition new_module :: "string \<Rightarrow> Module \<Rightarrow> bool" where
  "new_module n md \<longleftrightarrow> mod_name md = n \<and> import_modules md = [] \<and> using_types md = [] \<and>
     list_all new_type (type_defines md) \<and> list_all new_function (mod_functions md)"

lemma parse_type_define_line_new: "parse_type_define_line cvs line = Inr t \<Longrightarrow> new_type t"
  by (auto simp: parse_type_define_line_def Let_def and_then_Inr_iff new_type_def Type_new_def simp del: regex_match.simps
      split: option.splits list.splits)

lemma parse_type_define_new: "parse_type_define cvs code = Inr (ts, rest) \<Longrightarrow> list_all new_type ts"
proof (induction cvs code arbitrary: ts rest rule: parse_type_define.induct)
  case (1 cvs code)
  obtain x code' where e: "next_entry ''$end'' code = (x, code')" by fastforce
  show ?case
  proof (cases x)
    case None
    then show ?thesis using "1.prems" e by (simp add: parse_type_define.simps [of cvs code])
  next
    case (Some line)
    then obtain t ts' where t: "parse_type_define_line cvs line = Inr t" "parse_type_define cvs code' = Inr (ts', rest)" "ts = t # ts'"
      using "1.prems" e by (auto simp: parse_type_define.simps [of cvs code] and_then_Inr_iff)
    then show ?thesis using "1.IH" [OF e [symmetric] Some t(1,2)] parse_type_define_line_new [OF t(1)] by simp
  qed
qed

lemma Function_new_new: "new_function (Function_new name vs rs blocks ret infos)"
  by (simp add: new_function_def Function_new_def)

lemma parse_function_header_new:
  assumes "parse_function_header cvs line = Inr (index, make')"
  shows "new_function (make' blocks)"
proof -
  obtain name vs rs ret infos where "make' = (\<lambda>blocks. Function_new name vs rs blocks ret infos)"
    using assms by (auto simp: parse_function_header_def and_then_Inr_iff simp del: regex_match.simps
        split: option.splits list.splits)
  then show ?thesis by (simp add: Function_new_new)
qed

lemma parse_function_loop_new:
  assumes "parse_function_loop cvs code m mx = Inr (m', mx', rest)" "list_all new_function (map snd m)"
  shows "list_all new_function (map snd m')"
  using assms
proof (induction cvs code m mx arbitrary: m' mx' rest rule: parse_function_loop.induct)
  case (1 cvs code m mx)
  obtain x code' where e: "next_entry ''$end'' code = (x, code')" by fastforce
  show ?case
  proof (cases x)
    case None
    then show ?thesis using "1.prems" e by (simp add: parse_function_loop.simps [of cvs code])
  next
    case (Some line)
    then obtain i mk blocks code'' where r: "parse_function_header cvs line = Inr (i, mk)"
      "parse_label_blocks cvs code' = Inr (blocks, code'')"
      "parse_function_loop cvs code'' ((i, mk blocks) # m) (max_of i mx) = Inr (m', mx', rest)"
      using "1.prems" e by (auto simp: parse_function_loop.simps [of cvs code] and_then_Inr_iff)
    show ?thesis
      by (rule "1.IH" [OF e [symmetric] Some r(1) refl r(2) refl r(3)])
        (use "1.prems"(2) parse_function_header_new [OF r(1)] in simp)
  qed
qed

lemma parse_function_new:
  assumes "parse_function cvs code = Inr (fs, rest)"
  shows "list_all new_function fs"
proof -
  obtain m mx where m: "parse_function_loop cvs code [] 0 = Inr (m, mx, rest)" "collect m mx = Inr fs"
    using assms by (auto simp: parse_function_def and_then_Inr_iff)
  have "set fs \<subseteq> snd ` set m"
    using m(2) gather_subset [of m "[0..<unat (mx + 1)]" fs] by (cases "m = []") (simp_all add: collect_def)
  then show ?thesis using parse_function_loop_new [OF m(1)] by (auto simp: list_all_iff)
qed

lemma parse_section_new:
  assumes "parse_section stod name line code st = Inr (st', rest)"
    "list_all new_type (p_type_defines st)" "list_all new_function (p_functions st)"
  shows "list_all new_type (p_type_defines st') \<and> list_all new_function (p_functions st')"
  using assms parse_type_define_new parse_function_new by (auto simp: parse_section_def and_then_Inr_iff split: if_splits)

lemma parse_new:
  assumes "parse stod name code = Inr (Some md)"
  shows "new_module name md"
proof -
  let ?st = "\<lparr>p_const_values = [], p_imports = [], p_type_defines = [], p_using_types = [], p_functions = []\<rparr>"
  obtain st where st: "parse_loop stod name code ?st = Inr st"
    "md = Module_new name (p_const_values st) (p_imports st) (p_type_defines st) (p_using_types st) (p_functions st)"
    using assms by (auto simp: parse_def split: sum.splits parse_error.splits)
  have "list_all new_type (p_type_defines st) \<and> list_all new_function (p_functions st)"
    by (rule parse_loop_inv [OF st(1)]) (use parse_section_new in auto)
  then show ?thesis using st(2) by (simp add: new_module_def Module_new_def)
qed

section \<open>Well-formed classes\<close>

text \<open>
  The class \<open>t\<close> has a parent chain that ends; its fields are those of its ancestors, oldest
  first, under distinct names; the type of every field is known, and the flags tell which fields
  hold references.
\<close>

definition class_ok :: "modules \<Rightarrow> type_ptr \<Rightarrow> bool" where
  "class_ok ms t \<longleftrightarrow> (\<exists>type ts bits. type_at ms t = Some type \<and> is_chain ms (Some t) ts \<and>
     all_fields type = layout ms ts \<and> distinct (map field_name (all_fields type)) \<and> reference_fields type = Some bits \<and>
     (\<forall>j < length (all_fields type). get_flag bits j = Some (is_reference ms (all_fields type ! j)) \<and>
       field_Type ms (all_fields type ! j) \<noteq> None))"

text \<open>Tables whose types differ in what the layout phase computes at most.\<close>

definition types_like :: "modules \<Rightarrow> modules \<Rightarrow> bool" where
  "types_like ms ms' \<longleftrightarrow> (\<forall>t. rel_option (\<lambda>a b. primitive_type a = primitive_type b \<and> parent a = parent b \<and> add_fields a = add_fields b)
     (type_at ms t) (type_at ms' t))"

lemma types_like_Some:
  assumes "types_like ms ms'" "type_at ms t = Some a"
  obtains b where "type_at ms' t = Some b" "primitive_type a = primitive_type b" "parent a = parent b" "add_fields a = add_fields b"
  using assms by (auto simp: types_like_def option_rel_Some1 dest!: spec [of _ t])

lemma types_like_None: "types_like ms ms' \<Longrightarrow> type_at ms' t = None \<longleftrightarrow> type_at ms t = None"
  by (auto simp: types_like_def option_rel_Some1 option_rel_Some2 dest!: spec [of _ t]
      split: option.splits)

lemma types_like_chain: "types_like ms ms' \<Longrightarrow> is_chain ms c us \<Longrightarrow> is_chain ms' c us"
proof (induction ms c us rule: is_chain.induct)
  case (3 ms t u us)
  then obtain type where "t = u" "type_at ms t = Some type" "is_chain ms (parent type) us" by auto
  then show ?case using 3 by (auto elim!: types_like_Some [of ms ms' t type])
qed auto

lemma types_like_fields:
  assumes "types_like ms ms'"
  shows "fields_of ms' t = fields_of ms t" "layout ms' ts = layout ms ts" "is_reference ms' f = is_reference ms f"
    "field_Type ms' f = None \<longleftrightarrow> field_Type ms f = None"
proof -
  show fo: "fields_of ms' t = fields_of ms t" for t
    using types_like_None [OF assms, of t] by (cases "type_at ms t") (auto simp: fields_of_def elim!: types_like_Some [OF assms])
  then have "fields_of ms' = fields_of ms" by blast
  then show "layout ms' ts = layout ms ts" by (simp add: layout_def)
  show "field_Type ms' f = None \<longleftrightarrow> field_Type ms f = None"
    using types_like_None [OF assms] by (cases "field_type f") (auto simp: field_Type_def)
  show "is_reference ms' f = is_reference ms f"
  proof (cases "field_Type ms f")
    case None
    then have "field_Type ms' f = None" using types_like_None [OF assms] by (cases "field_type f") (auto simp: field_Type_def)
    then show ?thesis using None by (simp add: is_reference_def)
  next
    case (Some a)
    then obtain t where t: "field_type f = Some t" "type_at ms t = Some a" by (cases "field_type f") (auto simp: field_Type_def)
    from types_like_Some [OF assms t(2)] obtain b where "type_at ms' t = Some b" "primitive_type a = primitive_type b" by blast
    then show ?thesis using t by (simp add: is_reference_def field_Type_def)
  qed
qed

lemma class_ok_like:
  assumes "types_like ms ms'" "type_at ms' t = type_at ms t" "class_ok ms t"
  shows "class_ok ms' t"
proof -
  from assms(3) obtain type ts bits where "type_at ms t = Some type" "is_chain ms (Some t) ts" "all_fields type = layout ms ts"
     "distinct (map field_name (all_fields type))" "reference_fields type = Some bits"
     "\<forall>j < length (all_fields type). get_flag bits j = Some (is_reference ms (all_fields type ! j)) \<and>
       field_Type ms (all_fields type ! j) \<noteq> None"
    unfolding class_ok_def by blast
  then show ?thesis unfolding class_ok_def types_like_fields [OF assms(1)] assms(2)
    using types_like_chain [OF assms(1)] by blast
qed

lemma types_like_same: "(\<And>n. map_option type_defines (ms' n) = map_option type_defines (ms n)) \<Longrightarrow> type_at ms' = type_at ms"
proof
  fix t assume *: "\<And>n. map_option type_defines (ms' n) = map_option type_defines (ms n)"
  show "type_at ms' t = type_at ms t"
  proof (cases t)
    case (DefT m i)
    then show ?thesis using * [of m] by (cases "ms m"; cases "ms' m") (auto simp: type_at_def)
  qed (simp add: type_at_def)
qed

lemma types_like_refl: "type_at ms' = type_at ms \<Longrightarrow> types_like ms ms'"
  by (simp add: types_like_def option.rel_refl)

lemma class_ok_same: "(\<And>n. map_option type_defines (ms' n) = map_option type_defines (ms n)) \<Longrightarrow> class_ok ms t \<Longrightarrow> class_ok ms' t"
  using class_ok_like [of ms ms' t] types_like_same [of ms' ms] types_like_refl [of ms' ms] by metis

section \<open>Loops of the loader\<close>

lemma and_next_Next: "and_next r f = Inr (Next s') \<longleftrightarrow> (\<exists>s. r = Inr (Next s) \<and> f s = Inr (Next s'))"
  by (cases "(r, f)" rule: and_next.cases) auto

text \<open>An invariant over the elements the loop has visited.\<close>

lemma for_each_done:
  assumes "for_each f xs s = Inr (Next s')" "distinct xs" "set xs \<inter> D = {}" "J D s"
    and "\<And>x D s s'. x \<in> set xs \<Longrightarrow> x \<notin> D \<Longrightarrow> J D s \<Longrightarrow> f x s = Inr (Next s') \<Longrightarrow> J (insert x D) s'"
  shows "J (D \<union> set xs) s'"
  using assms
proof (induction xs arbitrary: s D)
  case (Cons x xs)
  then obtain s1 where s1: "f x s = Inr (Next s1)" "for_each f xs s1 = Inr (Next s')" by (auto simp: and_next_Next)
  have "J (insert x D) s1" using Cons.prems(3-5) s1(1) by auto
  then have "J (insert x D \<union> set xs) s'" using Cons.IH [OF s1(2), of "insert x D"] Cons.prems(2,3,5) by auto
  then show ?case by simp
qed simp

section \<open>The type phases\<close>

text \<open>
  What holds of every new module \<open>n\<close> of the table while types are resolved and laid out: the
  predicate \<open>Q\<close> tells the phases apart. Modules loaded before keep their entries.
\<close>

definition unlinked :: "modules \<Rightarrow> string \<Rightarrow> Module \<Rightarrow> bool" where
  "unlinked ms n md \<longleftrightarrow> mod_name md = n \<and> set (import_modules md) \<subseteq> dom ms \<and> using_types md = [] \<and>
     list_all new_function (mod_functions md)"

definition stage :: "string set \<Rightarrow> modules \<Rightarrow> (string \<Rightarrow> Module \<Rightarrow> bool) \<Rightarrow> modules \<Rightarrow> bool" where
  "stage N ms0 Q ms \<longleftrightarrow> dom ms = dom ms0 \<and> (\<forall>n. n \<notin> N \<longrightarrow> ms n = ms0 n) \<and> (\<forall>n \<in> N. \<exists>md. ms n = Some md \<and> Q n md)"

lemma stageD:
  assumes "stage N ms0 Q ms" "n \<in> N"
  obtains md where "ms n = Some md" "Q n md"
  using assms by (auto simp: stage_def)

lemma stage_upd:
  assumes "stage N ms0 Q ms" "n \<in> N" "Q' n md" "\<And>m md. m \<noteq> n \<Longrightarrow> Q m md \<Longrightarrow> Q' m md"
  shows "stage N ms0 Q' (ms(n \<mapsto> md))"
proof -
  from stageD [OF assms(1,2)] obtain md0 where "ms n = Some md0" .
  then have "dom (ms(n \<mapsto> md)) = dom ms" by auto
  also have "dom ms = dom ms0" using assms(1) by (simp add: stage_def)
  finally show ?thesis using assms unfolding stage_def by (auto simp del: dom_fun_upd)
qed

lemma stage_mono: "stage N ms0 Q ms \<Longrightarrow> (\<And>n md. n \<in> N \<Longrightarrow> Q n md \<Longrightarrow> Q' n md) \<Longrightarrow> stage N ms0 Q' ms"
  by (fastforce simp: stage_def)

lemma stage_dom: "stage N ms0 Q ms \<Longrightarrow> dom ms = dom ms0"
  by (simp add: stage_def)

definition typed :: "modules \<Rightarrow> string \<Rightarrow> Module \<Rightarrow> bool" where
  "typed ms n md \<longleftrightarrow> unlinked ms n md \<and> list_all new_type (type_defines md)"

lemma unlinked_dom: "dom ms = dom ms' \<Longrightarrow> unlinked ms = unlinked ms'"
  by (intro ext) (simp add: unlinked_def)

lemma update_type_simps [simp]:
  "mod_name (update_type i f md) = mod_name md" "import_modules (update_type i f md) = import_modules md"
  "using_types (update_type i f md) = using_types md" "mod_functions (update_type i f md) = mod_functions md"
  "type_defines (update_type i f md) = (type_defines md)[i := f (type_defines md ! i)]"
  by (simp_all add: update_type_def)

lemma resolve_type_stage:
  assumes "stage N ms0 (typed ms0) ms" "n \<in> N" "resolve_type n i ms = Inr (Next ms')"
  shows "stage N ms0 (typed ms0) ms'"
proof -
  from stageD [OF assms(1,2)] obtain md where md: "ms n = Some md" "typed ms0 n md" .
  obtain p fs where i: "i < length (type_defines md)"
    "ms' = ms(n \<mapsto> update_type i (\<lambda>t. t\<lparr>parent := p, add_fields := add_fields t @ fs\<rparr>) md)"
    using assms(3) md(1) by (auto simp: resolve_type_def and_then_Inr_iff nth_or_def split: if_splits)
  have "typed ms0 n (update_type i (\<lambda>t. t\<lparr>parent := p, add_fields := add_fields t @ fs\<rparr>) md)"
    using md(2) i(1) by (auto simp: typed_def unlinked_def list_all_length nth_list_update new_type_def)
  then show ?thesis unfolding i(2) by (intro stage_upd [OF assms(1,2)]) auto
qed

lemma for_types_run:
  assumes "for_types f n ms = Inr (Next ms')" "ms n = Some md"
  shows "for_each (f n) [0..<length (type_defines md)] ms = Inr (Next ms')"
  using assms by (auto simp: for_types_def and_then_Inr_iff)

lemma resolve_types_stage:
  assumes "stage N ms0 (typed ms0) ms" "set ns = N" "distinct ns" "for_each (for_types resolve_type) ns ms = Inr (Next ms')"
  shows "stage N ms0 (typed ms0) ms'"
proof (rule for_each_done [OF assms(4,3), of "{}" "\<lambda>_. stage N ms0 (typed ms0)"])
  fix n D s s'
  assume n: "n \<in> set ns" "stage N ms0 (typed ms0) s" "for_types resolve_type n s = Inr (Next s')"
  then obtain md where md: "s n = Some md" using assms(2) by (auto elim: stageD)
  show "stage N ms0 (typed ms0) s'"
    by (rule for_each_done [OF for_types_run [OF n(3) md], of "{}" "\<lambda>_. stage N ms0 (typed ms0)"])
      (use n assms(2) resolve_type_stage in auto)
qed (use assms in auto)

lemma layout_types_like:
  assumes "ms n = Some md" "i < length (type_defines md)"
  shows "types_like ms (ms(n \<mapsto> update_type i (\<lambda>t. t\<lparr>all_fields := fs, reference_fields := b\<rparr>) md))" (is "types_like ms ?ms'")
proof -
  have "rel_option (\<lambda>a b. primitive_type a = primitive_type b \<and> parent a = parent b \<and> add_fields a = add_fields b)
     (type_at ms t) (type_at ?ms' t)" for t
  proof (cases t)
    case (DefT m j)
    show ?thesis
    proof (cases "m = n \<and> j = i")
      case True
      then show ?thesis using DefT assms by (simp add: type_at_def at_def)
    next
      case False
      then have "type_at ?ms' t = type_at ms t" using DefT assms by (auto simp: type_at_def at_def)
      then show ?thesis by (simp add: option.rel_refl)
    qed
  qed (simp add: type_at_def)
  then show ?thesis by (simp add: types_like_def)
qed

lemma layout_type_run:
  assumes "layout_type n i ms = Inr (Next ms')" "ms n = Some md" "i < length (type_defines md)"
  obtains fs bits where "ms' = ms(n \<mapsto> update_type i (\<lambda>t. t\<lparr>all_fields := fs, reference_fields := Some bits\<rparr>) md)"
proof -
  obtain ts where ts: "parent_chain ms (Some (DefT n i)) [] = Some (Some ts)"
    using assms(1) by (auto simp: layout_type_def and_then_Inr_iff split: option.splits)
  obtain ok fs where a: "append_fields (concat (map (fields_of ms) (rev ts))) [] (all_fields (type_defines md ! i)) = (ok, fs)"
    by (metis surj_pair)
  show thesis using assms ts a that by (cases ok) (auto simp: layout_type_def and_then_Inr_iff nth_or_def)
qed

lemma layout_type_class_ok:
  assumes "layout_type n i ms = Inr (Next ms')" "ms n = Some md" "i < length (type_defines md)" "new_type (type_defines md ! i)"
  shows "types_like ms ms' \<and> class_ok ms' (DefT n i)"
proof -
  obtain fs bits where "ms' = ms(n \<mapsto> update_type i (\<lambda>t. t\<lparr>all_fields := fs, reference_fields := Some bits\<rparr>) md)"
    using layout_type_run [OF assms(1-3)] .
  then have like: "types_like ms ms'" using layout_types_like [of ms n md i, OF assms(2,3)] by simp
  from layout_type_spec [OF assms(1) type_at_DefT [of ms n md i, OF assms(2,3)]] obtain ts bits type' where
    t: "is_chain ms (Some (DefT n i)) ts" "distinct (map field_name (layout ms ts))" "type_at ms' (DefT n i) = Some type'"
      "all_fields type' = layout ms ts" "reference_fields type' = Some bits"
      "\<forall>j < length (all_fields type'). get_flag bits j = Some (is_reference ms (all_fields type' ! j)) \<and>
        field_Type ms (all_fields type' ! j) \<noteq> None"
    using assms(4) by (auto simp: new_type_def)
  then have "class_ok ms' (DefT n i)"
    unfolding class_ok_def types_like_fields [OF like] using types_like_chain [OF like t(1)] by metis
  then show ?thesis using like by blast
qed

definition laid :: "(string \<times> nat) set \<Rightarrow> modules \<Rightarrow> string \<Rightarrow> Module \<Rightarrow> bool" where
  "laid D ms n md \<longleftrightarrow> unlinked ms n md \<and>
     (\<forall>i < length (type_defines md). if (n, i) \<in> D then class_ok ms (DefT n i) else new_type (type_defines md ! i))"

definition type_counts :: "modules \<Rightarrow> string \<Rightarrow> nat option" where
  "type_counts ms n = map_option (\<lambda>md. length (type_defines md)) (ms n)"

definition layout_stage :: "string set \<Rightarrow> modules \<Rightarrow> (string \<times> nat) set \<Rightarrow> modules \<Rightarrow> bool" where
  "layout_stage N ms0 D ms \<longleftrightarrow> stage N ms0 (laid D ms) ms \<and> type_counts ms = type_counts ms0"

lemma layout_type_stage:
  assumes "layout_stage N ms0 D ms" "n \<in> N" "layout_type n i ms = Inr (Next ms')" "(n, i) \<notin> D"
  shows "layout_stage N ms0 (insert (n, i) D) ms'"
proof -
  have st: "stage N ms0 (laid D ms) ms" using assms(1) by (simp add: layout_stage_def)
  from stageD [OF this assms(2)] obtain md where md: "ms n = Some md" "laid D ms n md" .
  have i: "i < length (type_defines md)"
    using assms(3) md(1) by (auto simp: layout_type_def and_then_Inr_iff nth_or_def split: if_splits)
  then have "new_type (type_defines md ! i)" using md(2) assms(4) by (auto simp: laid_def)
  from layout_type_class_ok [OF assms(3) md(1) i this] have like: "types_like ms ms'" and new: "class_ok ms' (DefT n i)" by auto
  obtain fs bits where ms': "ms' = ms(n \<mapsto> update_type i (\<lambda>t. t\<lparr>all_fields := fs, reference_fields := Some bits\<rparr>) md)"
    using layout_type_run [OF assms(3) md(1) i] .
  let ?md = "update_type i (\<lambda>t. t\<lparr>all_fields := fs, reference_fields := Some bits\<rparr>) md"
  have "dom ms' = dom ms" using ms' md(1) by auto
  note un = unlinked_dom [OF this]
  have other: "type_at ms' (DefT m j) = type_at ms (DefT m j)" if "(m, j) \<noteq> (n, i)" for m j
    using that md(1) ms' by (auto simp: type_at_def at_def)
  have keep: "class_ok ms' (DefT m j)" if "class_ok ms (DefT m j)" "(m, j) \<noteq> (n, i)" for m j
    using class_ok_like [OF like other [OF that(2)] that(1)] .
  have "if (n, j) \<in> insert (n, i) D then class_ok ms' (DefT n j) else new_type (type_defines ?md ! j)"
    if "j < length (type_defines ?md)" for j
    using md(2) new keep [of n j] that by (cases "j = i") (auto simp: laid_def)
  then have "laid (insert (n, i) D) ms' n ?md" using md(2) by (auto simp: laid_def un unlinked_def)
  moreover have "laid (insert (n, i) D) ms' m mm" if "m \<noteq> n" "laid D ms m mm" for m mm
    using that keep by (auto simp: laid_def un)
  ultimately have "stage N ms0 (laid (insert (n, i) D) ms') ms'" unfolding ms' by (rule stage_upd [OF st assms(2)])
  moreover have "type_counts ms' = type_counts ms" using md(1) ms' by (auto simp: type_counts_def)
  ultimately show ?thesis using assms(1) by (simp add: layout_stage_def)
qed

lemma layout_stage_cong:
  assumes "layout_stage N ms0 D ms" "\<And>n i l. type_counts ms0 n = Some l \<Longrightarrow> i < l \<Longrightarrow> (n, i) \<in> D \<longleftrightarrow> (n, i) \<in> D'"
  shows "layout_stage N ms0 D' ms"
proof -
  have "laid D' ms n md" if "ms n = Some md" "laid D ms n md" for n md
  proof -
    have "type_counts ms0 n = Some (length (type_defines md))"
      using assms(1) that(1) by (metis layout_stage_def type_counts_def option.map(2))
    then show ?thesis using that(2) assms(2) by (auto simp: laid_def)
  qed
  then show ?thesis using assms(1) by (fastforce simp: layout_stage_def stage_def)
qed

lemma layout_module_stage:
  assumes "layout_stage N ms0 ({(m, j). m \<in> D}) ms" "n \<in> N" "n \<notin> D" "for_types layout_type n ms = Inr (Next ms')"
  shows "layout_stage N ms0 {(m, j). m \<in> insert n D} ms'"
proof -
  let ?D = "{(m, j). m \<in> D}"
  obtain md where md: "ms n = Some md" using assms(1,2) by (auto simp: layout_stage_def elim: stageD)
  have "layout_stage N ms0 (?D \<union> {n} \<times> ({} \<union> set [0..<length (type_defines md)])) ms'"
  proof (rule for_each_done [OF for_types_run [OF assms(4) md], of "{}" "\<lambda>X. layout_stage N ms0 (?D \<union> {n} \<times> X)"])
    fix i X s s'
    assume s: "i \<notin> X" "layout_stage N ms0 (?D \<union> {n} \<times> X) s" "layout_type n i s = Inr (Next s')"
    then have "layout_stage N ms0 (insert (n, i) (?D \<union> {n} \<times> X)) s'"
      using layout_type_stage [OF s(2) assms(2) s(3)] assms(3) by simp
    then show "layout_stage N ms0 (?D \<union> {n} \<times> insert i X) s'" by (simp add: insert_Times_insert)
  qed (use assms(1) in auto)
  moreover have "type_counts ms0 n = Some (length (type_defines md))"
    using assms(1) md by (metis layout_stage_def type_counts_def option.map(2))
  ultimately show ?thesis by (elim layout_stage_cong) auto
qed

lemma layouts_stage:
  assumes "stage N ms0 (typed ms0) ms" "set ns = N" "distinct ns" "for_each (for_types layout_type) ns ms = Inr (Next ms')"
  shows "layout_stage N ms {(m, j). m \<in> N} ms'"
proof -
  have "layout_stage N ms {(m, j). m \<in> {} \<union> set ns} ms'"
  proof (rule for_each_done [OF assms(4,3), of "{}" "\<lambda>D. layout_stage N ms {(m, j). m \<in> D}"])
    have "dom ms = dom ms0" using assms(1) by (simp add: stage_def)
    from unlinked_dom [OF this] have "laid {} ms n md" if "typed ms0 n md" for n md
      using that by (auto simp: typed_def laid_def list_all_length)
    then show "layout_stage N ms {(m, j). m \<in> {}} ms" using assms(1) by (fastforce simp: layout_stage_def stage_def)
  qed (use layout_module_stage assms(2) in auto)
  then show ?thesis using assms(2) by simp
qed

section \<open>The phases after the layout\<close>

definition placed :: "modules \<Rightarrow> string \<Rightarrow> Module \<Rightarrow> bool" where
  "placed ms n md \<longleftrightarrow> mod_name md = n \<and> set (import_modules md) \<subseteq> dom ms \<and>
     (\<forall>i < length (type_defines md). class_ok ms (DefT n i))"

definition late :: "string set \<Rightarrow> modules \<Rightarrow> (string \<Rightarrow> Module \<Rightarrow> bool) \<Rightarrow> modules \<Rightarrow> bool" where
  "late N ms0 A ms \<longleftrightarrow> stage N ms0 (\<lambda>n md. placed ms n md \<and> A n md) ms"

lemma late_upd:
  assumes "late N ms0 A ms" "n \<in> N" "ms n = Some md"
    "mod_name md' = mod_name md" "import_modules md' = import_modules md" "type_defines md' = type_defines md"
    "A n md \<Longrightarrow> A' n md'" "\<And>m mm. m \<noteq> n \<Longrightarrow> A m mm \<Longrightarrow> A' m mm"
  shows "late N ms0 A' (ms(n \<mapsto> md'))"
proof -
  let ?ms = "ms(n \<mapsto> md')"
  have st: "stage N ms0 (\<lambda>n md. placed ms n md \<and> A n md) ms" using assms(1) by (simp add: late_def)
  have n: "placed ms n md" "A n md" using st assms(2,3) by (auto elim: stageD)
  have d: "dom ?ms = dom ms" using assms(3) by auto
  have c: "class_ok ms t \<Longrightarrow> class_ok ?ms t" for t by (rule class_ok_same) (use assms(3,6) in auto)
  have p: "placed ms m mm \<Longrightarrow> placed ?ms m mm" for m mm using c unfolding placed_def d by blast
  have "placed ms n md'" using n(1) assms(4-6) by (simp add: placed_def)
  from p [OF this] have "placed ?ms n md' \<and> A' n md'" using n(2) assms(7) by simp
  then show ?thesis unfolding late_def by (rule stage_upd [OF st assms(2)]) (use p assms(8) in blast)
qed

lemma lateD:
  assumes "late N ms0 A ms" "n \<in> N"
  obtains md where "ms n = Some md" "placed ms n md" "A n md"
  using assms by (auto simp: late_def elim: stageD)

lemma late_mono: "late N ms0 A ms \<Longrightarrow> (\<And>n md. n \<in> N \<Longrightarrow> A n md \<Longrightarrow> A' n md) \<Longrightarrow> late N ms0 A' ms"
  unfolding late_def by (erule stage_mono) blast

text \<open>A phase that visits every new module once turns \<open>B\<close> into \<open>A\<close> for all of them.\<close>

lemma late_phase:
  assumes "for_each f ns ms = Inr (Next ms')" "distinct ns" "set ns = N" "late N ms0 B ms"
    and "\<And>n md ms ms'. n \<in> N \<Longrightarrow> ms n = Some md \<Longrightarrow> B n md \<Longrightarrow> f n ms = Inr (Next ms') \<Longrightarrow>
      \<exists>md'. ms' = ms(n \<mapsto> md') \<and> mod_name md' = mod_name md \<and> import_modules md' = import_modules md \<and>
        type_defines md' = type_defines md \<and> A n md'"
  shows "late N ms0 A ms'"
proof -
  let ?Q = "\<lambda>D n md. if n \<in> D then A n md else B n md"
  have "late N ms0 (?Q ({} \<union> set ns)) ms'"
  proof (rule for_each_done [OF assms(1,2), of "{}" "\<lambda>D. late N ms0 (?Q D)"])
    fix n D s s'
    assume n: "n \<in> set ns" "n \<notin> D" "late N ms0 (?Q D) s" "f n s = Inr (Next s')"
    then have nN: "n \<in> N" using assms(3) by simp
    from lateD [OF n(3) nN] obtain md where md: "s n = Some md" "B n md" using n(2) by auto
    from assms(5) [OF nN md n(4)] obtain md' where md': "s' = s(n \<mapsto> md')" "mod_name md' = mod_name md"
      "import_modules md' = import_modules md" "type_defines md' = type_defines md" "A n md'" by blast
    show "late N ms0 (?Q (insert n D)) s'"
      unfolding md'(1) by (rule late_upd [OF n(3) nN md(1) md'(2-4)]) (use md'(5) in auto)
  qed (use assms(4) in auto)
  then show ?thesis by (rule late_mono) (use assms(3) in auto)
qed

text \<open>Functions after their types are resolved, and after they are linked.\<close>

definition typed_signature :: "Module \<Rightarrow> Function \<Rightarrow> bool" where
  "typed_signature md f \<longleftrightarrow> argument_type md (return_type_info f) = Inr (return_type f) \<and>
     list_all2 (\<lambda>info t. argument_type md info = Inr t) (argument_type_infos f) (argument_types f)"

definition resolved :: "Module \<Rightarrow> Function \<Rightarrow> bool" where
  "resolved md f \<longleftrightarrow> label_block_map f = index_by_name (map label_name (label_blocks f)) 0 Map.empty \<and> typed_signature md f"

definition function_linked :: "Module \<Rightarrow> Function \<Rightarrow> bool" where
  "function_linked md f \<longleftrightarrow> typed_signature md f \<and>
     list_all (\<lambda>block. list_all (linked_order md (label_blocks f)) (orders block)) (label_blocks f)"

lemma traverse_length: "traverse f xs = Inr ys \<Longrightarrow> length ys = length xs"
  by (auto simp: traverse_Inr dest: list_all2_lengthD)

lemma resolve_function_resolved: "new_function f \<Longrightarrow> resolve_function md f = Inr g \<Longrightarrow> resolved md g"
  by (auto simp: resolve_function_def and_then_Inr_iff new_function_def resolved_def typed_signature_def traverse_Inr)

lemma link_function_done: "resolved md f \<Longrightarrow> link_function ms md f = Inr g \<Longrightarrow> function_linked md g"
  using link_function_linked [of f ms md g] link_function_blocks(6-9) [of ms md f g]
  by (simp add: resolved_def function_linked_def typed_signature_def)

lemma typed_signature_cong: "using_types md' = using_types md \<Longrightarrow> typed_signature md' = typed_signature md"
proof -
  assume "using_types md' = using_types md"
  then have "argument_type md' = argument_type md" by (intro ext) (simp add: argument_type_def split: option.split)
  then show ?thesis by (intro ext) (simp add: typed_signature_def)
qed

lemma resolved_cong: "using_types md' = using_types md \<Longrightarrow> resolved md' = resolved md"
  using typed_signature_cong [of md' md] by (intro ext) (simp add: resolved_def)

lemma traverse_list_all:
  assumes "traverse f xs = Inr ys" "list_all P xs" "\<And>x y. P x \<Longrightarrow> f x = Inr y \<Longrightarrow> Q y"
  shows "list_all Q ys"
  using assms by (auto simp: traverse_Inr list_all2_conv_all_nth list_all_length)

lemma function_linked_cong: "using_types md' = using_types md \<Longrightarrow> function_linked md' = function_linked md"
proof -
  assume "using_types md' = using_types md"
  then have "linked_order md' bs ord = linked_order md bs ord" for bs ord by (cases ord) auto
  then have "linked_order md' = linked_order md" by blast
  then show ?thesis using typed_signature_cong [OF \<open>using_types md' = using_types md\<close>] by (intro ext) (simp add: function_linked_def)
qed

definition with_types :: "Module \<Rightarrow> bool" where
  "with_types md \<longleftrightarrow> length (using_types md) = length (using_type_infos md)"

lemma using_types_phase:
  assumes "for_each resolve_using_types ns ms = Inr (Next ms')" "distinct ns" "set ns = N"
    "late N ms0 (\<lambda>_ md. using_types md = [] \<and> list_all new_function (mod_functions md)) ms"
  shows "late N ms0 (\<lambda>_ md. with_types md \<and> list_all new_function (mod_functions md)) ms'"
proof (rule late_phase [OF assms])
  fix n md s s'
  assume s: "s n = Some md" "using_types md = [] \<and> list_all new_function (mod_functions md)" "resolve_using_types n s = Inr (Next s')"
  then obtain ts where ts: "length ts = length (using_type_infos md)" "s' = s(n \<mapsto> md\<lparr>using_types := ts\<rparr>)"
    by (auto simp: resolve_using_types_def and_then_Inr_iff dest: traverse_length)
  then show "\<exists>md'. s' = s(n \<mapsto> md') \<and> mod_name md' = mod_name md \<and> import_modules md' = import_modules md \<and>
      type_defines md' = type_defines md \<and> with_types md' \<and> list_all new_function (mod_functions md')"
    using s(2) by (intro exI [of _ "md\<lparr>using_types := ts\<rparr>"]) (simp add: with_types_def)
qed

lemma functions_phase:
  assumes "for_each resolve_functions ns ms = Inr (Next ms')" "distinct ns" "set ns = N"
    "late N ms0 (\<lambda>_ md. with_types md \<and> list_all new_function (mod_functions md)) ms"
  shows "late N ms0 (\<lambda>_ md. with_types md \<and> list_all (resolved md) (mod_functions md)) ms'"
proof (rule late_phase [OF assms])
  fix n md s s'
  assume s: "s n = Some md" "with_types md \<and> list_all new_function (mod_functions md)" "resolve_functions n s = Inr (Next s')"
  then obtain fs where fs: "traverse (resolve_function md) (mod_functions md) = Inr fs" "s' = s(n \<mapsto> md\<lparr>mod_functions := fs\<rparr>)"
    by (auto simp: resolve_functions_def and_then_Inr_iff)
  then have "list_all (resolved md) fs" using traverse_list_all [OF fs(1)] resolve_function_resolved s(2) by blast
  moreover have "resolved (md\<lparr>mod_functions := fs\<rparr>) = resolved md" by (rule resolved_cong) simp
  ultimately show "\<exists>md'. s' = s(n \<mapsto> md') \<and> mod_name md' = mod_name md \<and> import_modules md' = import_modules md \<and>
      type_defines md' = type_defines md \<and> with_types md' \<and> list_all (resolved md') (mod_functions md')"
    using fs(2) s(2) by (intro exI [of _ "md\<lparr>mod_functions := fs\<rparr>"]) (simp add: with_types_def)
qed

lemma link_phase:
  assumes "for_each link_module ns ms = Inr (Next ms')" "distinct ns" "set ns = N"
    "late N ms0 (\<lambda>_ md. with_types md \<and> list_all (resolved md) (mod_functions md)) ms"
  shows "late N ms0 (\<lambda>_ md. with_types md \<and> list_all (function_linked md) (mod_functions md)) ms'"
proof (rule late_phase [OF assms])
  fix n md s s'
  assume s: "s n = Some md" "with_types md \<and> list_all (resolved md) (mod_functions md)" "link_module n s = Inr (Next s')"
  then obtain fs where fs: "traverse (link_function s md) (mod_functions md) = Inr fs" "s' = s(n \<mapsto> md\<lparr>mod_functions := fs\<rparr>)"
    by (auto simp: link_module_def and_then_Inr_iff)
  have "list_all (function_linked md) fs" using traverse_list_all [OF fs(1)] link_function_done s(2) by blast
  moreover have "function_linked (md\<lparr>mod_functions := fs\<rparr>) = function_linked md" by (rule function_linked_cong) simp
  ultimately show "\<exists>md'. s' = s(n \<mapsto> md') \<and> mod_name md' = mod_name md \<and> import_modules md' = import_modules md \<and>
      type_defines md' = type_defines md \<and> with_types md' \<and> list_all (function_linked md') (mod_functions md')"
    using fs(2) s(2) by (intro exI [of _ "md\<lparr>mod_functions := fs\<rparr>"]) (simp add: with_types_def)
qed

lemma allocate_phase:
  assumes "for_each allocate_module_fields ns vm = Inr (Next vm')" "distinct ns" "set ns = N"
    "late N ms0 (\<lambda>_ md. with_types md \<and> list_all (resolved md) (mod_functions md)) (loaded_module_map vm)"
  shows "late N ms0 (\<lambda>_ md. with_types md \<and> list_all (resolved md) (mod_functions md)) (loaded_module_map vm')"
proof (rule for_each_done [OF assms(1,2), of "{}" "\<lambda>_ vm. late N ms0 (\<lambda>_ md. with_types md \<and> list_all (resolved md) (mod_functions md))
    (loaded_module_map vm)"])
  fix n D v v'
  assume v: "n \<in> set ns" "late N ms0 (\<lambda>_ md. with_types md \<and> list_all (resolved md) (mod_functions md)) (loaded_module_map v)"
    "allocate_module_fields n v = Inr (Next v')"
  then have nN: "n \<in> N" using assms(3) by simp
  from lateD [OF v(2) nN] obtain md where md: "loaded_module_map v n = Some md" by blast
  consider "v' = v" | a where "loaded_module_map v' = (loaded_module_map v)(n \<mapsto> md\<lparr>module_fields := a\<rparr>)"
    using v(3) md by (auto simp: allocate_module_fields_def and_then_Inr_iff split: option.splits prod.splits)
  then show "late N ms0 (\<lambda>_ md. with_types md \<and> list_all (resolved md) (mod_functions md)) (loaded_module_map v')"
  proof cases
    case 2
    show ?thesis unfolding 2 by (rule late_upd [OF v(2) nN md]) (simp_all add: with_types_def resolved_cong [of "md\<lparr>module_fields := a\<rparr>" md])
  qed (use v(2) in simp)
qed (use assms(4) in auto)

section \<open>Well-formed modules\<close>

text \<open>
  A loaded module: its imports are loaded, its classes are well formed, its list of used types
  has an entry for each of the section (null for an unknown class), and its functions have the types
  their headers designate and are linked.
\<close>

definition module_ok :: "modules \<Rightarrow> string \<Rightarrow> Module \<Rightarrow> bool" where
  "module_ok ms n md \<longleftrightarrow> placed ms n md \<and> with_types md \<and> list_all (function_linked md) (mod_functions md)"

lemma on_modules_Next:
  "on_modules f vm = Inr (Next vm') \<longleftrightarrow> (\<exists>ms. f (loaded_module_map vm) = Inr (Next ms) \<and> vm' = vm\<lparr>loaded_module_map := ms\<rparr>)"
proof (cases "f (loaded_module_map vm)")
  case (Inr r)
  then show ?thesis by (cases r) (auto simp: on_modules_def)
qed (simp add: on_modules_def)

lemma link_phases_ok:
  assumes "link_phases ns vm = Inr (Next vm')" "distinct ns"
    and "\<forall>n \<in> set ns. \<exists>md. loaded_module_map vm n = Some md \<and> new_module n md \<and> set (import_module_names md) \<subseteq> dom (loaded_module_map vm)"
  shows "dom (loaded_module_map vm') = dom (loaded_module_map vm) \<and>
    (\<forall>n. n \<notin> set ns \<longrightarrow> loaded_module_map vm' n = loaded_module_map vm n) \<and>
    (\<forall>n \<in> set ns. \<exists>md. loaded_module_map vm' n = Some md \<and> module_ok (loaded_module_map vm') n md)"
proof -
  let ?ms = "loaded_module_map vm"
  obtain m1 m2 m3 m4 m5 v6 m7 where ph: "for_each resolve_imports ns ?ms = Inr (Next m1)"
    "for_each (for_types resolve_type) ns m1 = Inr (Next m2)" "for_each (for_types layout_type) ns m2 = Inr (Next m3)"
    "for_each resolve_using_types ns m3 = Inr (Next m4)" "for_each resolve_functions ns m4 = Inr (Next m5)"
    "for_each allocate_module_fields ns (vm\<lparr>loaded_module_map := m5\<rparr>) = Inr (Next v6)"
    "for_each link_module ns (loaded_module_map v6) = Inr (Next m7)" "loaded_module_map vm' = m7"
    using assms(1) by (auto simp: link_phases_def and_next_Next on_modules_Next)
  have m1: "m1 = (\<lambda>n. if n \<in> set ns
    then map_option (\<lambda>md. md\<lparr>import_modules := import_modules md @ import_module_names md\<rparr>) (?ms n) else ?ms n)"
    using resolve_imports_phase [OF assms(2), of ?ms] assms(3) ph(1) by fastforce
  have "dom m1 = dom ?ms" using m1 by (auto split: if_splits)
  then have "stage (set ns) m1 (typed m1) m1" unfolding stage_def
    using assms(3) m1 by (fastforce simp: typed_def unlinked_def new_module_def)
  then have "stage (set ns) m1 (typed m1) m2" by (rule resolve_types_stage [OF _ refl assms(2) ph(2)])
  note s2 = this and s3 = layouts_stage [OF this refl assms(2) ph(3)]
  have "late (set ns) m2 (\<lambda>_ md. using_types md = [] \<and> list_all new_function (mod_functions md)) m3"
    using s3 by (auto simp: late_def layout_stage_def laid_def placed_def unlinked_def elim!: stage_mono)
  from using_types_phase [OF ph(4) assms(2) refl this]
  have "late (set ns) m2 (\<lambda>_ md. with_types md \<and> list_all new_function (mod_functions md)) m4" .
  from functions_phase [OF ph(5) assms(2) refl this]
  have "late (set ns) m2 (\<lambda>_ md. with_types md \<and> list_all (resolved md) (mod_functions md)) (loaded_module_map (vm\<lparr>loaded_module_map := m5\<rparr>))"
    by simp
  from link_phase [OF ph(7) assms(2) refl allocate_phase [OF ph(6) assms(2) refl this]]
  have l: "late (set ns) m2 (\<lambda>_ md. with_types md \<and> list_all (function_linked md) (mod_functions md)) m7" .
  have "dom m2 = dom m1" "n \<notin> set ns \<Longrightarrow> m2 n = m1 n" for n using s2 by (simp_all add: stage_def)
  then show ?thesis using l \<open>dom m1 = dom ?ms\<close> m1 ph(8) by (simp add: late_def stage_def module_ok_def)
qed

lemma read_modules_head:
  assumes "read_modules stod pick pre [name] [] ms = Inr (Next (n # new, ms'))"
  shows "n = name" "ms name = None"
proof -
  have cur: "current_of pick [name] = name" by (simp add: current_of_def)
  show none: "ms name = None"
  proof (rule ccontr)
    assume "ms name \<noteq> None"
    then have "read_modules stod pick pre [] [] ms = Inr (Next (n # new, ms'))"
      using assms cur by (simp add: read_modules.simps [of _ _ _ "[name]"])
    then show False by (simp add: read_modules.simps [of _ _ _ "[]"])
  qed
  obtain md where "read_modules stod pick pre (fold insert_name (import_module_names md) []) [name] (ms(name \<mapsto> md)) =
      Inr (Next (n # new, ms'))"
    using assms cur none by (auto simp: read_modules.simps [of _ _ _ "[name]"] and_then_Inr_iff split: option.splits if_splits)
  from read_modules_spec [OF this] show "n = name" by auto
qed

lemma load_module_ok:
  assumes "load_module stod pick iter name vm = Inr (Some n, vm')"
    and "\<And>xs. distinct xs \<Longrightarrow> distinct (iter xs) \<and> set (iter xs) = set xs"
  shows "n = name \<and> loaded_module_map vm name = None \<and> name \<in> dom (loaded_module_map vm') \<and>
    (\<forall>m \<in> dom (loaded_module_map vm). loaded_module_map vm' m = loaded_module_map vm m) \<and>
    (\<forall>m md. loaded_module_map vm m = None \<and> loaded_module_map vm' m = Some md \<longrightarrow> module_ok (loaded_module_map vm') m md)"
proof -
  let ?ms = "loaded_module_map vm"
  obtain fl where fl: "read_modules stod pick (pre_loaded_module_map vm) [name] [] ?ms = Inr fl"
    using assms(1) unfolding load_module_def and_then_Inr_iff by blast
  then obtain new0 ms1 where f1: "fl = Next (new0, ms1)" using assms(1) by (cases fl) (auto simp: load_module_def)
  then obtain g where g: "link_phases (iter new0) (vm\<lparr>loaded_module_map := ms1\<rparr>) = Inr g"
    using assms(1) fl by (auto simp: load_module_def and_then_Inr_iff)
  with f1 fl assms(1) have "g = Next vm'" "hd new0 = n \<and> new0 \<noteq> []"
    by (cases g; cases new0; simp add: load_module_def)+
  with f1 fl g obtain new where r: "read_modules stod pick (pre_loaded_module_map vm) [name] [] ?ms = Inr (Next (n # new, ms1))"
    "link_phases (iter (n # new)) (vm\<lparr>loaded_module_map := ms1\<rparr>) = Inr (Next vm')"
    by (cases new0) auto
  from read_modules_spec [OF r(1)] have s: "distinct (n # new)" "set (n # new) \<inter> dom ?ms = {}" "dom ms1 = dom ?ms \<union> set (n # new)"
    "?ms \<subseteq>\<^sub>m ms1" "\<forall>m \<in> set (n # new). \<exists>md. ms1 m = Some md \<and> read_from stod (pre_loaded_module_map vm) m md \<and>
      set (import_module_names md) \<subseteq> dom ms1" by auto
  have i: "distinct (iter (n # new))" "set (iter (n # new)) = set (n # new)" using assms(2) [OF s(1)] by simp_all
  have "\<forall>m \<in> set (iter (n # new)). \<exists>md. loaded_module_map (vm\<lparr>loaded_module_map := ms1\<rparr>) m = Some md \<and> new_module m md \<and>
      set (import_module_names md) \<subseteq> dom (loaded_module_map (vm\<lparr>loaded_module_map := ms1\<rparr>))"
    using s(5) parse_new unfolding i(2) read_from_def by fastforce
  from link_phases_ok [OF r(2) i(1) this] have l: "dom (loaded_module_map vm') = dom ms1"
    "\<forall>m. m \<notin> set (n # new) \<longrightarrow> loaded_module_map vm' m = ms1 m"
    "\<forall>m \<in> set (n # new). \<exists>md. loaded_module_map vm' m = Some md \<and> module_ok (loaded_module_map vm') m md"
    unfolding i(2) by simp_all
  have "loaded_module_map vm' m = ?ms m" if "m \<in> dom ?ms" for m
  proof -
    have "m \<notin> set (n # new)" using that s(2) by blast
    then have "loaded_module_map vm' m = ms1 m" using l(2) by blast
    then show ?thesis using s(4) that by (simp add: map_le_def)
  qed
  moreover have "module_ok (loaded_module_map vm') m md" if "?ms m = None" "loaded_module_map vm' m = Some md" for m md
  proof -
    have "m \<in> set (n # new)" using that l(1) s(3) by (metis Un_iff domI domIff)
    then show ?thesis using l(3) that(2) by auto
  qed
  moreover have "name \<in> dom (loaded_module_map vm')" using read_modules_head [OF r(1)] l(1) s(3) by simp
  ultimately show ?thesis using read_modules_head [OF r(1)] by blast
qed

end
