(* ===== verification/Ref_Count.thy ===== *)
theory Ref_Count
  imports Heap_Object
begin

text \<open>
  Reference counting (\<^verbatim>\<open>src/gc/GC.h\<close>): taking a reference, dropping one, and the
  release of everything that dies with the last reference.

  The operations are modelled as they run in one thread: the atomic read-modify-write
  operations are single steps, and the locks are those of the code. The set of suspected
  objects is an \<^verbatim>\<open>unordered_set\<close>; it is modelled as a list without repetitions whose
  order stands for the unspecified iteration order, so a theorem for every list covers every
  order. The diagnostic \<^verbatim>\<open>printf\<close> calls are left out.
\<close>

section \<open>The collector object\<close>

record CycleCollector =
  suspected_object_list :: "addr list"

definition set_insert :: "addr \<Rightarrow> addr list \<Rightarrow> addr list" where
  "set_insert x xs = (if x \<in> set xs then xs else xs @ [x])"

definition CycleCollector_new :: CycleCollector where
  "CycleCollector_new = \<lparr>suspected_object_list = []\<rparr>"

definition add_suspected_object :: "CycleCollector \<Rightarrow> addr \<Rightarrow> CycleCollector" where
  "add_suspected_object cc object =
     cc\<lparr>suspected_object_list := set_insert object (suspected_object_list cc)\<rparr>"

section \<open>Taking a reference\<close>

definition fetch_add :: "heap \<Rightarrow> addr \<Rightarrow> (u64 \<times> heap) option" where
  "fetch_add h object =
     do { ob \<leftarrow> h object; Some (count ob, h(object \<mapsto> ob\<lparr>count := count ob + 1\<rparr>)) }"

definition fetch_sub :: "heap \<Rightarrow> addr \<Rightarrow> (u64 \<times> heap) option" where
  "fetch_sub h object =
     do { ob \<leftarrow> h object; Some (count ob, h(object \<mapsto> ob\<lparr>count := count ob - 1\<rparr>)) }"

definition increment_reference_count :: "CycleCollector \<Rightarrow> heap \<Rightarrow> addr \<Rightarrow> (CycleCollector \<times> heap) option" where
  "increment_reference_count cc h object =
     do { (previous, h) \<leftarrow> fetch_add h object;
          ob \<leftarrow> h object;
          if previous = 1 \<and> is_cyclic_type ob then
            if \<not> async_release ob
            then Some (add_suspected_object cc object, h(object \<mapsto> ob\<lparr>async_release := True\<rparr>))
            else Some (cc, h)
          else Some (cc, h) }"

section \<open>Dropping the last reference to an object the collector watches\<close>

definition watched :: "HeapObject \<Rightarrow> bool" where
  "watched ob \<longleftrightarrow> is_cyclic_type ob \<and> async_release ob"

text \<open>
  The loop over the fields of the current object: \<open>objs\<close> is the stack
  \<^verbatim>\<open>check_objects\<close>, \<open>roots\<close> the stack \<^verbatim>\<open>check_roots\<close> (top first).
\<close>

fun waiting_fields :: "addr \<Rightarrow> nat list \<Rightarrow> heap \<Rightarrow> addr list \<Rightarrow> addr list \<Rightarrow>
    (heap \<times> addr list \<times> addr list) option" where
  "waiting_fields current [] h objs roots = Some (h, objs, roots)"
| "waiting_fields current (i # is) h objs roots =
     do { field_object \<leftarrow> get_object_field h current i;
          if field_object \<noteq> nullptr then
            do { (previous, h) \<leftarrow> fetch_sub h field_object;
                 if previous = 1 then
                   do { fob \<leftarrow> h field_object;
                        if watched fob then
                          do { h \<leftarrow> set_object_field h current i nullptr;
                               waiting_fields current is h objs (field_object # roots) }
                        else waiting_fields current is h (field_object # objs) roots }
                 else
                   do { h \<leftarrow> set_object_field h current i nullptr;
                        waiting_fields current is h objs roots } }
          else waiting_fields current is h objs roots }"

definition waiting_object :: "addr \<Rightarrow> heap \<Rightarrow> addr list \<Rightarrow> addr list \<Rightarrow> (heap \<times> addr list \<times> addr list) option" where
  "waiting_object current h objs roots =
     do { h \<leftarrow> upd_obj h current (\<lambda>ob. ob\<lparr>state := process_gc\<rparr>);
          ob \<leftarrow> h current;
          waiting_fields current [0..<unat (field_length ob)] h objs roots }"

partial_function (option) waiting_tree :: "addr \<Rightarrow> heap \<Rightarrow> addr list \<Rightarrow> addr list \<Rightarrow> addr list \<Rightarrow>
    (heap \<times> addr list \<times> addr list) option" where
  "waiting_tree current h objs roots release_objects =
     do { (h, objs, roots) \<leftarrow> waiting_object current h objs roots;
          case objs of
            [] \<Rightarrow> Some (h, roots, release_objects @ [current])
          | next # objs' \<Rightarrow> waiting_tree next h objs' roots (release_objects @ [current]) }"

fun set_states :: "object_state \<Rightarrow> addr list \<Rightarrow> heap \<Rightarrow> heap option" where
  "set_states st [] h = Some h"
| "set_states st (p # ps) h = do { h \<leftarrow> upd_obj h p (\<lambda>ob. ob\<lparr>state := st\<rparr>); set_states st ps h }"

partial_function (option) waiting_roots :: "addr \<Rightarrow> heap \<Rightarrow> addr list \<Rightarrow> heap option" where
  "waiting_roots current_root h check_roots =
     do { (h, roots, release_objects) \<leftarrow> waiting_tree current_root h [] check_roots [];
          h \<leftarrow> set_states waiting_for_gc release_objects h;
          case roots of
            [] \<Rightarrow> Some h
          | next # roots' \<Rightarrow> waiting_roots next h roots' }"

definition decrement_reference_count_waiting_gc_object :: "heap \<Rightarrow> addr \<Rightarrow> heap option" where
  "decrement_reference_count_waiting_gc_object h object = waiting_roots object h []"

section \<open>Dropping a reference\<close>

fun release_fields :: "addr \<Rightarrow> nat list \<Rightarrow> heap \<Rightarrow> addr list \<Rightarrow> (heap \<times> addr list) option" where
  "release_fields current [] h objs = Some (h, objs)"
| "release_fields current (i # is) h objs =
     do { field_object \<leftarrow> get_object_field h current i;
          if field_object \<noteq> nullptr then
            do { (previous, h) \<leftarrow> fetch_sub h field_object;
                 if previous = 1 then
                   do { fob \<leftarrow> h field_object;
                        if watched fob then
                          do { h \<leftarrow> decrement_reference_count_waiting_gc_object h field_object;
                               release_fields current is h objs }
                        else release_fields current is h (field_object # objs) }
                 else release_fields current is h objs }
          else release_fields current is h objs }"

definition release_object :: "addr \<Rightarrow> heap \<Rightarrow> addr list \<Rightarrow> (heap \<times> addr list) option" where
  "release_object current h objs =
     do { ob \<leftarrow> h current;
          (h, objs) \<leftarrow> release_fields current [0..<unat (field_length ob)] h objs;
          h \<leftarrow> upd_obj h current (\<lambda>ob. ob\<lparr>state := dead\<rparr>);
          Some (h, objs) }"

partial_function (option) release_loop :: "addr \<Rightarrow> heap \<Rightarrow> addr list \<Rightarrow> heap option" where
  "release_loop current h objs =
     do { (h, objs) \<leftarrow> release_object current h objs;
          case objs of
            [] \<Rightarrow> Some h
          | next # objs' \<Rightarrow> release_loop next h objs' }"

definition decrement_reference_count :: "heap \<Rightarrow> addr \<Rightarrow> heap option" where
  "decrement_reference_count h object =
     do { (previous, h) \<leftarrow> fetch_sub h object;
          if previous = 1 then
            do { ob \<leftarrow> h object;
                 if watched ob then decrement_reference_count_waiting_gc_object h object
                 else release_loop object h [] }
          else Some h }"

end
