(* ===== verification/Field_Access.thy ===== *)
theory Field_Access
  imports Ref_Count
begin

text \<open>
  The field accessors of \<^verbatim>\<open>src/CatLa.cpp\<close>: reading and writing a reference field of an
  object under the object's lock, cloning the reference or moving it. A field that holds the
  value 1 is being used by another thread, and the accessors wait until it is given back. Run by
  themselves they wait forever, so the loops are \<open>partial_function\<close>s.
\<close>

abbreviation borrowed :: u64 where
  "borrowed \<equiv> 1"

definition set_object_field_atomic :: "heap \<Rightarrow> addr \<Rightarrow> nat \<Rightarrow> addr \<Rightarrow> heap option" where
  "set_object_field_atomic h parent field_index field_object =
     do { h \<leftarrow> object_lock h parent;
          old_object \<leftarrow> get_object_field h parent field_index;
          h \<leftarrow> set_object_field h parent field_index field_object;
          object_unlock h parent }"

partial_function (option) get_object_field_atomic :: "heap \<Rightarrow> addr \<Rightarrow> nat \<Rightarrow> (addr \<times> heap) option" where
  "get_object_field_atomic h parent field_index =
     do { h \<leftarrow> object_lock h parent;
          field_object \<leftarrow> get_object_field h parent field_index;
          h \<leftarrow> object_unlock h parent;
          if field_object \<noteq> borrowed then Some (field_object, h)
          else get_object_field_atomic h parent field_index }"

text \<open>The loop that the two setters share: the old field is returned.\<close>

partial_function (option) exchange_field :: "heap \<Rightarrow> addr \<Rightarrow> nat \<Rightarrow> addr \<Rightarrow> (addr \<times> heap) option" where
  "exchange_field h parent field_index field_object =
     do { h \<leftarrow> object_lock h parent;
          old_field_object \<leftarrow> get_object_field h parent field_index;
          if old_field_object \<noteq> borrowed then
            do { h \<leftarrow> set_object_field h parent field_index field_object;
                 h \<leftarrow> object_unlock h parent;
                 Some (old_field_object, h) }
          else
            do { h \<leftarrow> object_unlock h parent;
                 exchange_field h parent field_index field_object } }"

definition set_clone_object_field :: "CycleCollector \<Rightarrow> heap \<Rightarrow> addr \<Rightarrow> nat \<Rightarrow> addr \<Rightarrow>
    (CycleCollector \<times> heap) option" where
  "set_clone_object_field cc h parent field_index field_object =
     do { (cc, h) \<leftarrow> increment_reference_count cc h field_object;
          (old_field_object, h) \<leftarrow> exchange_field h parent field_index field_object;
          if old_field_object \<noteq> nullptr then
            do { h \<leftarrow> decrement_reference_count h old_field_object; Some (cc, h) }
          else Some (cc, h) }"

partial_function (option) get_clone_object_field :: "CycleCollector \<Rightarrow> heap \<Rightarrow> addr \<Rightarrow> nat \<Rightarrow>
    (addr \<times> CycleCollector \<times> heap) option" where
  "get_clone_object_field cc h parent field_index =
     do { h \<leftarrow> object_lock h parent;
          field_object \<leftarrow> get_object_field h parent field_index;
          if field_object \<noteq> borrowed then
            do { (cc, h) \<leftarrow> (if field_object \<noteq> nullptr then increment_reference_count cc h field_object
                             else Some (cc, h));
                 h \<leftarrow> object_unlock h parent;
                 Some (field_object, cc, h) }
          else
            do { h \<leftarrow> object_unlock h parent;
                 get_clone_object_field cc h parent field_index } }"

definition set_move_object_field :: "heap \<Rightarrow> addr \<Rightarrow> nat \<Rightarrow> addr \<Rightarrow> heap option" where
  "set_move_object_field h parent field_index field_object =
     do { (old_field_object, h) \<leftarrow> exchange_field h parent field_index field_object;
          if old_field_object \<noteq> nullptr then decrement_reference_count h old_field_object
          else Some h }"

definition get_move_object_field :: "heap \<Rightarrow> addr \<Rightarrow> nat \<Rightarrow> (addr \<times> heap) option" where
  "get_move_object_field h parent field_index = exchange_field h parent field_index nullptr"

definition set_move_object_field_uncheck :: "heap \<Rightarrow> addr \<Rightarrow> nat \<Rightarrow> addr \<Rightarrow> heap option" where
  "set_move_object_field_uncheck h parent field_index field_object =
     do { h \<leftarrow> object_lock h parent;
          h \<leftarrow> set_object_field h parent field_index field_object;
          object_unlock h parent }"

end
