(* ===== verification/Cycle_Collector.thy ===== *)
theory Cycle_Collector
  imports Ref_Count
begin

text \<open>
  The cycle collector (\<^verbatim>\<open>src/gc/GC.cpp\<close>, \<^verbatim>\<open>CycleCollector::gc_collect\<close>), run while no
  other thread touches the heap. The colour map and the count map are \<^verbatim>\<open>unordered_map\<close>s: a
  missing key reads as the zero value (red, and count zero), and only the first phase asks
  whether a key is present. The order in which a \<^verbatim>\<open>for\<close> loop visits an \<^verbatim>\<open>unordered_set\<close> is not
  specified, so it is an argument \<open>iter\<close> of the collector. The diagnostic \<^verbatim>\<open>printf\<close> calls
  are left out.
\<close>

section \<open>Colours\<close>

datatype object_color = red | gray | white | black

type_synonym color_map = "addr \<rightharpoonup> object_color"
type_synonym count_map = "addr \<rightharpoonup> u64"

definition color_of :: "color_map \<Rightarrow> addr \<Rightarrow> object_color" where
  "color_of cm p = (case cm p of None \<Rightarrow> red | Some c \<Rightarrow> c)"

definition count_of :: "count_map \<Rightarrow> addr \<Rightarrow> u64" where
  "count_of nm p = (case nm p of None \<Rightarrow> 0 | Some n \<Rightarrow> n)"

section \<open>Lock phase: everything reachable from the root\<close>

fun red_fields :: "addr \<Rightarrow> addr \<Rightarrow> nat list \<Rightarrow> heap \<Rightarrow> color_map \<Rightarrow> addr list \<Rightarrow> bool \<Rightarrow>
    (color_map \<times> addr list \<times> bool) option" where
  "red_fields root current [] h cm check_objects cyclic = Some (cm, check_objects, cyclic)"
| "red_fields root current (i # is) h cm check_objects cyclic =
     do { field_object \<leftarrow> get_object_field h current i;
          if field_object \<noteq> nullptr then
            if cm field_object = None
            then red_fields root current is h (cm(field_object \<mapsto> red)) (field_object # check_objects) cyclic
            else red_fields root current is h cm check_objects (cyclic \<or> field_object = root)
          else red_fields root current is h cm check_objects cyclic }"

partial_function (option) red_phase :: "addr \<Rightarrow> addr \<Rightarrow> heap \<Rightarrow> color_map \<Rightarrow> addr list \<Rightarrow> addr list \<Rightarrow> bool \<Rightarrow>
    (heap \<times> color_map \<times> addr list \<times> bool) option" where
  "red_phase root current h cm check_objects cycle_objects cyclic =
     do { h \<leftarrow> object_lock h current;
          ob \<leftarrow> h current;
          (cm, check_objects, cyclic) \<leftarrow>
            red_fields root current [0..<unat (field_length ob)] h cm check_objects cyclic;
          case check_objects of
            [] \<Rightarrow> Some (h, cm, cycle_objects @ [current], cyclic)
          | next # rest \<Rightarrow> red_phase root next h cm rest (cycle_objects @ [current]) cyclic }"

section \<open>Gray phase: take away the references from inside\<close>

fun gray_fields :: "addr \<Rightarrow> nat list \<Rightarrow> heap \<Rightarrow> color_map \<Rightarrow> count_map \<Rightarrow> addr list \<Rightarrow>
    (color_map \<times> count_map \<times> addr list) option" where
  "gray_fields current [] h cm nm check_objects = Some (cm, nm, check_objects)"
| "gray_fields current (i # is) h cm nm check_objects =
     do { field_object \<leftarrow> get_object_field h current i;
          if field_object \<noteq> nullptr then
            if color_of cm field_object = gray then
              if 0 < count_of nm field_object
              then gray_fields current is h cm (nm(field_object \<mapsto> count_of nm field_object - 1)) check_objects
              else gray_fields current is h cm nm check_objects
            else
              do { fob \<leftarrow> h field_object;
                   gray_fields current is h (cm(field_object \<mapsto> gray)) (nm(field_object \<mapsto> count fob - 1))
                     (field_object # check_objects) }
          else gray_fields current is h cm nm check_objects }"

partial_function (option) gray_phase :: "addr \<Rightarrow> heap \<Rightarrow> color_map \<Rightarrow> count_map \<Rightarrow> addr list \<Rightarrow>
    (color_map \<times> count_map) option" where
  "gray_phase current h cm nm check_objects =
     do { ob \<leftarrow> h current;
          (cm, nm, check_objects) \<leftarrow> gray_fields current [0..<unat (field_length ob)] h cm nm check_objects;
          case check_objects of
            [] \<Rightarrow> Some (cm, nm)
          | next # rest \<Rightarrow> gray_phase next h cm nm rest }"

section \<open>White phase: what is not held from outside\<close>

fun white_fields :: "object_color \<Rightarrow> addr \<Rightarrow> nat list \<Rightarrow> heap \<Rightarrow> color_map \<Rightarrow> count_map \<Rightarrow> addr list \<Rightarrow>
    (color_map \<times> count_map \<times> addr list) option" where
  "white_fields current_object_color current [] h cm nm check_objects = Some (cm, nm, check_objects)"
| "white_fields current_object_color current (i # is) h cm nm check_objects =
     do { field_object \<leftarrow> get_object_field h current i;
          if field_object \<noteq> nullptr then
            let field_object_color = color_of cm field_object;
                field_object_rc = count_of nm field_object
            in if current_object_color = white then
                 if field_object_rc = 0 then
                   if field_object_color = gray
                   then white_fields current_object_color current is h (cm(field_object \<mapsto> white)) nm
                          (field_object # check_objects)
                   else white_fields current_object_color current is h cm nm check_objects
                 else white_fields current_object_color current is h (cm(field_object \<mapsto> black)) nm
                        (if field_object_color \<noteq> black then field_object # check_objects else check_objects)
               else if current_object_color = black then
                 if field_object_color \<noteq> black
                 then white_fields current_object_color current is h (cm(field_object \<mapsto> black))
                        (nm(field_object \<mapsto> field_object_rc + 1)) (field_object # check_objects)
                 else white_fields current_object_color current is h cm
                        (nm(field_object \<mapsto> field_object_rc + 1)) check_objects
               else white_fields current_object_color current is h cm nm check_objects
          else white_fields current_object_color current is h cm nm check_objects }"

partial_function (option) white_phase :: "addr \<Rightarrow> heap \<Rightarrow> color_map \<Rightarrow> count_map \<Rightarrow> addr list \<Rightarrow>
    (color_map \<times> count_map) option" where
  "white_phase current h cm nm check_objects =
     do { ob \<leftarrow> h current;
          (cm, nm, check_objects) \<leftarrow>
            white_fields (color_of cm current) current [0..<unat (field_length ob)] h cm nm check_objects;
          case check_objects of
            [] \<Rightarrow> Some (cm, nm)
          | next # rest \<Rightarrow> white_phase next h cm nm rest }"

section \<open>One suspected root\<close>

fun unlock_all :: "addr list \<Rightarrow> heap \<Rightarrow> heap option" where
  "unlock_all [] h = Some h"
| "unlock_all (p # ps) h = do { h \<leftarrow> object_unlock h p; unlock_all ps h }"

fun collect_white :: "addr list \<Rightarrow> color_map \<Rightarrow> heap \<Rightarrow> addr list \<Rightarrow> (heap \<times> addr list) option" where
  "collect_white [] cm h release_objects = Some (h, release_objects)"
| "collect_white (p # ps) cm h release_objects =
     (if color_of cm p = white then
        do { h \<leftarrow> upd_obj h p (\<lambda>ob. ob\<lparr>state := waiting_for_gc\<rparr>);
             collect_white ps cm h (set_insert p release_objects) }
      else collect_white ps cm h release_objects)"

definition cyclic_root :: "addr \<Rightarrow> addr list \<Rightarrow> color_map \<Rightarrow> heap \<Rightarrow> addr list \<Rightarrow> (heap \<times> addr list) option" where
  "cyclic_root root cycle_objects cm h release_objects =
     do { ob \<leftarrow> h root;
          (cm, nm) \<leftarrow> gray_phase root h (cm(root \<mapsto> gray)) [root \<mapsto> count ob] [];
          (cm, nm) \<leftarrow> white_phase root h (cm(root \<mapsto> if count_of nm root = 0 then white else black)) nm [];
          (h, release_objects) \<leftarrow> collect_white cycle_objects cm h release_objects;
          h \<leftarrow> unlock_all cycle_objects h;
          Some (h, release_objects) }"

fun push_fields :: "addr \<Rightarrow> nat list \<Rightarrow> heap \<Rightarrow> addr list \<Rightarrow> addr list \<Rightarrow> addr list option" where
  "push_fields current [] h seen check_objects = Some check_objects"
| "push_fields current (i # is) h seen check_objects =
     do { field_object \<leftarrow> get_object_field h current i;
          if field_object \<noteq> nullptr \<and> field_object \<notin> set seen
          then push_fields current is h seen (field_object # check_objects)
          else push_fields current is h seen check_objects }"

partial_function (option) ready_to_release :: "addr \<Rightarrow> heap \<Rightarrow> addr list \<Rightarrow> addr list \<Rightarrow> (bool \<times> addr list) option" where
  "ready_to_release current h non_cycle_objects check_objects =
     do { ob \<leftarrow> h current;
          if state ob \<noteq> waiting_for_gc then Some (False, non_cycle_objects)
          else
            do { check_objects \<leftarrow> push_fields current [0..<unat (field_length ob)] h
                   (set_insert current non_cycle_objects) check_objects;
                 case check_objects of
                   [] \<Rightarrow> Some (True, set_insert current non_cycle_objects)
                 | next # rest \<Rightarrow> ready_to_release next h (set_insert current non_cycle_objects) rest } }"

definition non_cyclic_root :: "(addr list \<Rightarrow> addr list) \<Rightarrow> addr \<Rightarrow> addr list \<Rightarrow> heap \<Rightarrow> addr list \<Rightarrow>
    (heap \<times> addr list) option" where
  "non_cyclic_root iter root cycle_objects h release_objects =
     do { h \<leftarrow> unlock_all cycle_objects h;
          (ready, non_cycle_objects) \<leftarrow> ready_to_release root h [] [];
          Some (h, if ready then fold set_insert (iter non_cycle_objects) release_objects else release_objects) }"

definition check_root :: "(addr list \<Rightarrow> addr list) \<Rightarrow> addr \<Rightarrow> heap \<Rightarrow> addr list \<Rightarrow> (heap \<times> addr list) option" where
  "check_root iter root h release_objects =
     do { (h, cm, cycle_objects, is_cyclic_root) \<leftarrow> red_phase root root h [root \<mapsto> red] [] [] False;
          if is_cyclic_root then cyclic_root root cycle_objects cm h release_objects
          else non_cyclic_root iter root cycle_objects h release_objects }"

fun check_roots :: "(addr list \<Rightarrow> addr list) \<Rightarrow> addr list \<Rightarrow> heap \<Rightarrow> addr list \<Rightarrow> (heap \<times> addr list) option" where
  "check_roots iter [] h release_objects = Some (h, release_objects)"
| "check_roots iter (root # roots) h release_objects =
     do { (h, release_objects) \<leftarrow> check_root iter root h release_objects;
          check_roots iter roots h release_objects }"

section \<open>Release\<close>

fun drop_live_fields :: "addr \<Rightarrow> nat list \<Rightarrow> heap \<Rightarrow> heap option" where
  "drop_live_fields object [] h = Some h"
| "drop_live_fields object (i # is) h =
     do { field_object \<leftarrow> get_object_field h object i;
          if field_object \<noteq> nullptr then
            do { fob \<leftarrow> h field_object;
                 if state fob = live then
                   do { h \<leftarrow> decrement_reference_count h field_object;
                        drop_live_fields object is h }
                 else drop_live_fields object is h }
          else drop_live_fields object is h }"

definition set_erase :: "addr \<Rightarrow> addr list \<Rightarrow> addr list" where
  "set_erase x xs = filter (\<lambda>y. y \<noteq> x) xs"

fun release_all :: "addr list \<Rightarrow> addr list \<Rightarrow> CycleCollector \<Rightarrow> heap \<Rightarrow> (addr list \<times> CycleCollector \<times> heap) option" where
  "release_all [] roots cc h = Some (roots, cc, h)"
| "release_all (object # objects) roots cc h =
     do { ob \<leftarrow> h object;
          let roots = set_erase object roots;
          let cc = (if watched ob
            then cc\<lparr>suspected_object_list := set_erase object (suspected_object_list cc)\<rparr> else cc);
          h \<leftarrow> drop_live_fields object [0..<unat (field_length ob)] h;
          release_all objects roots cc h }"

definition gc_collect :: "(addr list \<Rightarrow> addr list) \<Rightarrow> CycleCollector \<Rightarrow> heap \<Rightarrow> (CycleCollector \<times> heap) option" where
  "gc_collect iter cc h =
     do { let roots = suspected_object_list cc;
          let cc = cc\<lparr>suspected_object_list := []\<rparr>;
          (h, release_objects) \<leftarrow> check_roots iter (iter roots) h [];
          (roots, cc, h) \<leftarrow> release_all (iter release_objects) roots cc h;
          h \<leftarrow> set_states dead (iter release_objects) h;
          Some (fold (\<lambda>root cc. add_suspected_object cc root) (iter roots) cc, h) }"

end
