(* ===== verification/Ref_Count_Correct.thy ===== *)
theory Ref_Count_Correct
  imports Ref_Count
begin

text \<open>
  Correctness of reference counting in one thread. The invariant \<open>rc_ok H h ext\<close> says that
  the objects in \<open>H\<close> are live, refer only to each other, and that the count of each is the
  number of references to it: \<open>ext x\<close> references from outside the heap (registers,
  variables, the stack) and one for each field of an object in \<open>H\<close> that holds it. It says
  nothing about objects outside \<open>H\<close>, so an object that is being taken apart leaves \<open>H\<close>,
  and the fields it has not given up yet count as references from outside.
\<close>

section \<open>The invariant\<close>

definition refs :: "heap \<Rightarrow> addr \<Rightarrow> addr \<Rightarrow> nat" where
  "refs h p x = (case h p of None \<Rightarrow> 0 | Some ob \<Rightarrow> count_list (slots ob) x)"

definition obj_ok :: "addr set \<Rightarrow> heap \<Rightarrow> (addr \<Rightarrow> nat) \<Rightarrow> addr \<Rightarrow> HeapObject \<Rightarrow> bool" where
  "obj_ok H h ext p ob \<longleftrightarrow> state ob = live \<and> length (slots ob) = unat (field_length ob) \<and>
     (\<forall>f \<in> set (slots ob). f \<noteq> nullptr \<longrightarrow> f \<in> H) \<and>
     unat (count ob) = ext p + (\<Sum>q\<in>H. refs h q p)"

definition rc_ok :: "addr set \<Rightarrow> heap \<Rightarrow> (addr \<Rightarrow> nat) \<Rightarrow> bool" where
  "rc_ok H h ext \<longleftrightarrow> finite H \<and> nullptr \<notin> H \<and> (\<forall>x. 0 < ext x \<longrightarrow> x \<in> H) \<and>
     (\<forall>p\<in>H. \<exists>ob. h p = Some ob \<and> obj_ok H h ext p ob)"

definition zeros :: "addr set \<Rightarrow> heap \<Rightarrow> addr set" where
  "zeros H h = {x \<in> H. \<exists>ob. h x = Some ob \<and> count ob = 0}"

lemma rc_okD:
  assumes "rc_ok H h ext" "p \<in> H"
  obtains ob where "h p = Some ob" "obj_ok H h ext p ob"
  using assms by (auto simp: rc_ok_def)

lemma rc_ok_finite [simp]: "rc_ok H h ext \<Longrightarrow> finite H"
  by (simp add: rc_ok_def)

lemma rc_ok_ext: "rc_ok H h ext \<Longrightarrow> 0 < ext x \<Longrightarrow> x \<in> H"
  by (simp add: rc_ok_def)

lemma zeros_subset: "zeros H h \<subseteq> H"
  by (auto simp: zeros_def)

text \<open>An object with count zero is not referred to by anything.\<close>

lemma zero_unreferenced:
  assumes "rc_ok H h ext" "x \<in> zeros H h"
  shows "ext x = 0" "q \<in> H \<Longrightarrow> refs h q x = 0"
proof -
  obtain ob where ob: "h x = Some ob" "count ob = 0" "obj_ok H h ext x ob"
    using assms by (auto simp: zeros_def rc_ok_def)
  then have z: "ext x + (\<Sum>q\<in>H. refs h q x) = 0" by (simp add: obj_ok_def)
  then show "ext x = 0" by simp
  show "q \<in> H \<Longrightarrow> refs h q x = 0" using z assms(1) by (simp add: rc_ok_def)
qed

text \<open>Only the objects in \<open>H\<close> matter.\<close>

lemma rc_ok_frame:
  assumes "rc_ok H h ext" "\<And>p. p \<in> H \<Longrightarrow> h' p = h p"
  shows "rc_ok H h' ext"
proof -
  have "(\<Sum>q\<in>H. refs h' q p) = (\<Sum>q\<in>H. refs h q p)" for p
    using assms(2) by (intro sum.cong) (auto simp: refs_def)
  then show ?thesis using assms by (simp add: rc_ok_def obj_ok_def)
qed

lemma zeros_frame: "(\<And>p. p \<in> H \<Longrightarrow> h' p = h p) \<Longrightarrow> zeros H h' = zeros H h"
  by (auto simp: zeros_def)

text \<open>Giving up a reference from outside.\<close>

lemma refs_upd_count [simp]:
  "h p = Some ob \<Longrightarrow> refs (h(p \<mapsto> ob\<lparr>count := k\<rparr>)) q x = refs h q x"
  by (simp add: refs_def)

lemma rc_ok_dec:
  assumes rc: "rc_ok H h ext" and pos: "0 < ext f"
  shows "\<exists>ob. h f = Some ob \<and> 0 < unat (count ob) \<and> f \<in> H \<and>
    rc_ok H (h(f \<mapsto> ob\<lparr>count := count ob - 1\<rparr>)) (ext(f := ext f - 1)) \<and>
    zeros H (h(f \<mapsto> ob\<lparr>count := count ob - 1\<rparr>)) = (if count ob = 1 then insert f (zeros H h) else zeros H h) \<and>
    f \<notin> zeros H h"
proof -
  have f: "f \<in> H" using rc pos by (rule rc_ok_ext)
  obtain ob where ob: "h f = Some ob" "obj_ok H h ext f ob" using rc_okD [OF rc f] by blast
  then have cnt: "0 < unat (count ob)" using pos by (simp add: obj_ok_def)
  let ?h = "h(f \<mapsto> ob\<lparr>count := count ob - 1\<rparr>)"
  have "\<exists>ob'. ?h p = Some ob' \<and> obj_ok H ?h (ext(f := ext f - 1)) p ob'" if p: "p \<in> H" for p
  proof (cases "p = f")
    case True
    then show ?thesis using ob pos cnt by (simp add: obj_ok_def unat_dec)
  next
    case False
    obtain ob' where "h p = Some ob'" "obj_ok H h ext p ob'" using rc_okD [OF rc p] by blast
    then show ?thesis using False ob(1) by (simp add: obj_ok_def)
  qed
  moreover have "\<forall>x. 0 < (ext(f := ext f - 1)) x \<longrightarrow> x \<in> H"
    using rc f by (simp add: rc_ok_def)
  ultimately have "rc_ok H ?h (ext(f := ext f - 1))"
    using rc by (simp add: rc_ok_def)
  moreover have "f \<notin> zeros H h" using ob(1) cnt by (auto simp: zeros_def)
  moreover have "count ob - 1 = 0 \<longleftrightarrow> count ob = 1" by simp
  then have "zeros H ?h = (if count ob = 1 then insert f (zeros H h) else zeros H h)"
    using f ob(1) \<open>f \<notin> zeros H h\<close> by (auto simp: zeros_def)
  ultimately show ?thesis using ob(1) cnt f by simp
qed

text \<open>Taking an unreferenced object apart: its fields become references from outside.\<close>

lemma rc_ok_drop:
  assumes rc: "rc_ok H h ext" and c: "c \<in> zeros H h"
  shows "rc_ok (H - {c}) h (\<lambda>x. ext x + (if x = nullptr then 0 else refs h c x))"
proof -
  let ?H = "H - {c}" and ?e = "\<lambda>x. ext x + (if x = nullptr then 0 else refs h c x)"
  have cH: "c \<in> H" using c zeros_subset by auto
  have fin: "finite H" using rc by simp
  have nocref: "c \<notin> set (slots ob)" if "h q = Some ob" "q \<in> H" for q ob
    using zero_unreferenced(2) [OF rc c that(2)] that(1) by (simp add: refs_def count_list_0_iff)
  have "\<exists>ob. h p = Some ob \<and> obj_ok ?H h ?e p ob" if p: "p \<in> ?H" for p
  proof -
    obtain ob where ob: "h p = Some ob" "obj_ok H h ext p ob" using rc_okD [OF rc, of p] p by auto
    have "p \<noteq> nullptr" using p rc by (auto simp: rc_ok_def)
    moreover have "(\<Sum>q\<in>H. refs h q p) = refs h c p + (\<Sum>q\<in>?H. refs h q p)"
      using fin cH by (rule sum.remove)
    ultimately show ?thesis
      using ob nocref [OF ob(1)] p by (auto simp: obj_ok_def)
  qed
  moreover have "\<forall>x. 0 < ?e x \<longrightarrow> x \<in> ?H"
  proof (intro allI impI)
    fix x assume x: "0 < ?e x"
    obtain ob where ob: "h c = Some ob" "obj_ok H h ext c ob" using rc_okD [OF rc cH] by blast
    have "x \<noteq> c" using x zero_unreferenced(1) [OF rc c] zero_unreferenced(2) [OF rc c cH] by (auto split: if_splits)
    moreover have "x \<in> H"
    proof (cases "0 < ext x")
      case True
      then show ?thesis using rc by (simp add: rc_ok_def)
    next
      case False
      then have "x \<noteq> nullptr" "0 < count_list (slots ob) x"
        using x ob(1) by (auto simp: refs_def split: if_splits)
      then have "x \<in> set (slots ob)" using count_list_0_iff by (metis less_irrefl)
      then show ?thesis using ob(2) \<open>x \<noteq> nullptr\<close> by (simp add: obj_ok_def)
    qed
    ultimately show "x \<in> ?H" by simp
  qed
  ultimately show ?thesis using rc by (simp add: rc_ok_def)
qed

lemma zeros_remove: "zeros (H - {c}) h = zeros H h - {c}"
  by (auto simp: zeros_def)

section \<open>What the loops may change\<close>

text \<open>Objects that stay in use only have their counts changed.\<close>

definition counts_only :: "addr set \<Rightarrow> heap \<Rightarrow> heap \<Rightarrow> bool" where
  "counts_only H h h' \<longleftrightarrow> (\<forall>p\<in>H. \<exists>ob k. h p = Some ob \<and> h' p = Some (ob\<lparr>count := k\<rparr>))"

definition unchanged_outside :: "addr set \<Rightarrow> heap \<Rightarrow> heap \<Rightarrow> bool" where
  "unchanged_outside H h h' \<longleftrightarrow> (\<forall>p. p \<notin> H \<longrightarrow> h' p = h p)"

definition watched_at :: "heap \<Rightarrow> addr \<Rightarrow> bool" where
  "watched_at h p \<longleftrightarrow> (\<exists>ob. h p = Some ob \<and> watched ob)"

lemma counts_only_refl: "rc_ok H h ext \<Longrightarrow> counts_only H h h"
proof -
  assume rc: "rc_ok H h ext"
  have "\<exists>ob k. h p = Some ob \<and> h p = Some (ob\<lparr>count := k\<rparr>)" if p: "p \<in> H" for p
  proof -
    obtain ob where "h p = Some ob" using rc_okD [OF rc p] by blast
    then show ?thesis by (intro exI [of _ ob] exI [of _ "count ob"]) simp
  qed
  then show ?thesis by (auto simp: counts_only_def)
qed

lemma counts_only_trans:
  assumes "counts_only H h h1" "counts_only H' h1 h2" "H' \<subseteq> H"
  shows "counts_only H' h h2"
  unfolding counts_only_def
proof
  fix p assume p: "p \<in> H'"
  then obtain ob k where "h p = Some ob" "h1 p = Some (ob\<lparr>count := k\<rparr>)"
    using assms(1,3) unfolding counts_only_def by blast
  moreover obtain ob' k' where "h1 p = Some ob'" "h2 p = Some (ob'\<lparr>count := k'\<rparr>)"
    using assms(2) p unfolding counts_only_def by blast
  ultimately show "\<exists>ob k. h p = Some ob \<and> h2 p = Some (ob\<lparr>count := k\<rparr>)" by auto
qed

lemma counts_only_subset: "counts_only H h h' \<Longrightarrow> H' \<subseteq> H \<Longrightarrow> counts_only H' h h'"
  unfolding counts_only_def by blast

lemma counts_only_watched: "counts_only H h h' \<Longrightarrow> p \<in> H \<Longrightarrow> watched_at h' p = watched_at h p"
  by (auto simp: counts_only_def watched_at_def watched_def dest!: bspec [of _ _ p])

lemma counts_only_dec:
  assumes "rc_ok H h ext" "h f = Some ob"
  shows "counts_only H h (h(f \<mapsto> ob\<lparr>count := k\<rparr>))"
  using counts_only_refl [OF assms(1)] assms(2) by (auto simp: counts_only_def)

lemma unchanged_outside_trans:
  "unchanged_outside A h h1 \<Longrightarrow> unchanged_outside B h1 h2 \<Longrightarrow> A \<subseteq> C \<Longrightarrow> B \<subseteq> C \<Longrightarrow> unchanged_outside C h h2"
  unfolding unchanged_outside_def by (metis subsetD)


section \<open>The fields of an object put aside for the collector\<close>

text \<open>The references in the slots that are still to be visited.\<close>

definition pend :: "HeapObject \<Rightarrow> nat list \<Rightarrow> addr \<Rightarrow> nat" where
  "pend ob is x = (if x = nullptr then 0 else length (filter (\<lambda>j. slots ob ! j = x) is))"

lemma pend_Nil [simp]: "pend ob [] = (\<lambda>x. 0)"
  by (simp add: pend_def fun_eq_iff)

lemma pend_null: "slots ob ! i = nullptr \<Longrightarrow> pend ob (i # is) = pend ob is"
  by (auto simp: pend_def fun_eq_iff)

lemma pend_step:
  assumes "slots ob ! i = f" "f \<noteq> nullptr"
  shows "0 < ext f + pend ob (i # is) f"
    and "(\<lambda>x. ext x + pend ob (i # is) x)(f := ext f + pend ob (i # is) f - 1) = (\<lambda>x. ext x + pend ob is x)"
  using assms by (auto simp: pend_def fun_eq_iff)

lemma pend_upd: "i \<notin> set is \<Longrightarrow> pend (ob\<lparr>slots := (slots ob)[i := v]\<rparr>) is = pend ob is"
proof
  fix x assume "i \<notin> set is"
  then have "filter (\<lambda>j. (slots ob)[i := v] ! j = x) is = filter (\<lambda>j. slots ob ! j = x) is"
    by (intro filter_cong refl) (metis nth_list_update_neq)
  then show "pend (ob\<lparr>slots := (slots ob)[i := v]\<rparr>) is x = pend ob is x" by (simp add: pend_def)
qed

lemma pend_all:
  "pend ob [0..<length (slots ob)] x = (if x = nullptr then 0 else count_list (slots ob) x)"
proof -
  have "length (filter (\<lambda>j. xs ! j = x) [0..<length xs]) = count_list xs x" for xs :: "addr list"
  proof (induction xs rule: rev_induct)
    case Nil
    then show ?case by simp
  next
    case (snoc y ys)
    have "filter (\<lambda>j. (ys @ [y]) ! j = x) [0..<length ys] = filter (\<lambda>j. ys ! j = x) [0..<length ys]"
      by (intro filter_cong) (auto simp: nth_append)
    then show ?case using snoc by (simp add: nth_append)
  qed
  then show ?thesis by (simp add: pend_def)
qed

text \<open>The non-null pointers an object holds.\<close>

definition kept :: "HeapObject \<Rightarrow> addr list" where
  "kept ob = filter (\<lambda>f. f \<noteq> nullptr) (slots ob)"

lemma fetch_sub_Some [heap_simps]:
  "h p = Some ob \<Longrightarrow> fetch_sub h p = Some (count ob, h(p \<mapsto> ob\<lparr>count := count ob - 1\<rparr>))"
  by (simp add: fetch_sub_def)

lemma get_object_field_Some [heap_simps]:
  "h p = Some ob \<Longrightarrow> i < length (slots ob) \<Longrightarrow> get_object_field h p i = Some (slots ob ! i)"
  by (simp add: get_object_field_def at_def)

lemma set_object_field_Some [heap_simps]:
  "h p = Some ob \<Longrightarrow> i < length (slots ob) \<Longrightarrow>
     set_object_field h p i v = Some (h(p \<mapsto> ob\<lparr>slots := (slots ob)[i := v]\<rparr>))"
  by (simp add: set_object_field_def put_def)

text \<open>
  The stacks hold, without repetition, exactly the objects in \<open>H\<close> whose count has become
  zero and that are still to be processed; \<open>Z\<close> are others that the caller keeps.
\<close>

definition pending :: "addr set \<Rightarrow> heap \<Rightarrow> addr list \<Rightarrow> addr set \<Rightarrow> bool" where
  "pending H h stk Z \<longleftrightarrow> zeros H h = set stk \<union> Z \<and> distinct stk \<and> set stk \<inter> Z = {}"

lemma pending_in: "pending H h stk Z \<Longrightarrow> x \<in> set stk \<Longrightarrow> x \<in> H"
  unfolding pending_def using zeros_subset [of H h] by blast

lemma pending_frame: "pending H h stk Z \<Longrightarrow> (\<And>p. p \<in> H \<Longrightarrow> h' p = h p) \<Longrightarrow> pending H h' stk Z"
  using zeros_frame [of H h' h] by (auto simp: pending_def)

lemma pending_perm:
  assumes "pending H h stk Z" "set stk' = set stk" "distinct stk'"
  shows "pending H h stk' Z"
  using assms by (simp add: pending_def)

text \<open>One field: the reference is given up, and the object it referred to may become pending.\<close>

lemma drop_field:
  assumes rc: "rc_ok H h (\<lambda>x. ext x + pend ob (i # is) x)" and f: "slots ob ! i = f" "f \<noteq> nullptr"
    and pnd: "pending H h stk Z" and c: "h c = Some ob" "c \<notin> H"
  obtains fob where "h f = Some fob" "f \<in> H" "f \<noteq> c"
    "rc_ok H (h(f \<mapsto> fob\<lparr>count := count fob - 1\<rparr>)) (\<lambda>x. ext x + pend ob is x)"
    "pending H (h(f \<mapsto> fob\<lparr>count := count fob - 1\<rparr>)) (if count fob = 1 then f # stk else stk) Z"
    "counts_only H h (h(f \<mapsto> fob\<lparr>count := count fob - 1\<rparr>))"
proof -
  note e = pend_step [OF f, of ext "is"]
  from rc_ok_dec [OF rc e(1)] obtain fob where fob: "h f = Some fob" "f \<in> H"
    "rc_ok H (h(f \<mapsto> fob\<lparr>count := count fob - 1\<rparr>)) (\<lambda>x. ext x + pend ob is x)"
    "zeros H (h(f \<mapsto> fob\<lparr>count := count fob - 1\<rparr>)) =
       (if count fob = 1 then insert f (zeros H h) else zeros H h)" "f \<notin> zeros H h"
    unfolding e(2) by blast
  show thesis
  proof (rule that [OF fob(1,2) _ fob(3) _ counts_only_dec [OF rc fob(1)]])
    show "f \<noteq> c" using fob(2) c(2) by auto
    show "pending H (h(f \<mapsto> fob\<lparr>count := count fob - 1\<rparr>)) (if count fob = 1 then f # stk else stk) Z"
      using pnd fob(4,5) by (auto simp: pending_def)
  qed
qed


text \<open>
  What the loop leaves of the object it takes apart: only slots have changed, and the
  pointers it still holds in the visited slots are, in order, the objects it pushed.
\<close>

definition put_aside :: "nat list \<Rightarrow> HeapObject \<Rightarrow> HeapObject \<Rightarrow> addr list \<Rightarrow> addr list \<Rightarrow> bool" where
  "put_aside is ob ob' objs objs' \<longleftrightarrow> length (slots ob') = length (slots ob) \<and>
     (\<exists>s. ob' = ob\<lparr>slots := s\<rparr>) \<and> (\<forall>j. j \<notin> set is \<longrightarrow> slots ob' ! j = slots ob ! j) \<and>
     objs' = rev (filter (\<lambda>f. f \<noteq> nullptr) (map (\<lambda>j. slots ob' ! j) is)) @ objs"

lemma put_aside_Nil: "put_aside [] ob ob objs objs"
  by (auto simp: put_aside_def intro: exI [of _ "slots ob"])

lemma put_aside_skip:
  assumes "put_aside is ob1 ob' objs objs'" "i \<notin> set is" "i < length (slots ob)"
    "ob1 = ob\<lparr>slots := (slots ob)[i := nullptr]\<rparr>"
  shows "put_aside (i # is) ob ob' objs objs'"
  using assms by (auto simp: put_aside_def nth_list_update)

lemma put_aside_null:
  assumes "put_aside is ob ob' objs objs'" "i \<notin> set is" "slots ob ! i = nullptr"
  shows "put_aside (i # is) ob ob' objs objs'"
  using assms by (auto simp: put_aside_def)

lemma put_aside_push:
  assumes "put_aside is ob ob' (slots ob ! i # objs) objs'" "i \<notin> set is" "slots ob ! i \<noteq> nullptr"
  shows "put_aside (i # is) ob ob' objs objs'"
  using assms by (auto simp: put_aside_def)

lemma waiting_fields_spec:
  assumes "rc_ok H h (\<lambda>x. ext x + pend ob is x)" "h c = Some ob" "c \<notin> H" "distinct is"
    "\<forall>i \<in> set is. i < length (slots ob)" "pending H h (objs @ roots) Z"
  shows "\<exists>h' ob' objs' roots'. waiting_fields c is h objs roots = Some (h', objs', roots') \<and>
     rc_ok H h' ext \<and> pending H h' (objs' @ roots') Z \<and>
     h' c = Some ob' \<and> put_aside is ob ob' objs objs' \<and>
     counts_only H h h' \<and> unchanged_outside (insert c H) h h' \<and>
     (\<forall>r \<in> set roots' - set roots. watched_at h r) \<and> (\<forall>x \<in> set objs' - set objs. \<not> watched_at h x)"
  using assms
proof (induction "is" arbitrary: h ob objs roots)
  case Nil
  then show ?case
    using put_aside_Nil counts_only_refl [of H h ext] by (auto simp: unchanged_outside_def)
next
  case (Cons i "is")
  note rc = Cons.prems(1) and hc = Cons.prems(2,3) and pnd = Cons.prems(6)
  have i: "i < length (slots ob)" "i \<notin> set is" "distinct is" "\<forall>i \<in> set is. i < length (slots ob)"
    using Cons.prems(4,5) by auto
  let ?f = "slots ob ! i"
  show ?case
  proof (cases "?f = nullptr")
    case True
    have step: "waiting_fields c (i # is) h objs roots = waiting_fields c is h objs roots"
      using True hc i by (simp add: heap_simps)
    from Cons.IH [OF rc [unfolded pend_null [OF True]] hc i(3,4) pnd]
    obtain h' ob' objs' roots' where r: "waiting_fields c is h objs roots = Some (h', objs', roots')"
      "rc_ok H h' ext" "pending H h' (objs' @ roots') Z" "h' c = Some ob'"
      "put_aside is ob ob' objs objs'" "counts_only H h h'" "unchanged_outside (insert c H) h h'"
      "\<forall>r \<in> set roots' - set roots. watched_at h r" "\<forall>x \<in> set objs' - set objs. \<not> watched_at h x" by blast
    show ?thesis unfolding step
      by (intro exI [of _ h'] exI [of _ ob'] exI [of _ objs'] exI [of _ roots'] conjI
          r(1-4) put_aside_null [OF r(5) i(2) True] r(6-9))
  next
    case False
    obtain fob where f: "h ?f = Some fob" "?f \<in> H" "?f \<noteq> c"
      and rc1: "rc_ok H (h(?f \<mapsto> fob\<lparr>count := count fob - 1\<rparr>)) (\<lambda>x. ext x + pend ob is x)"
      and pnd1: "pending H (h(?f \<mapsto> fob\<lparr>count := count fob - 1\<rparr>))
         (if count fob = 1 then ?f # objs @ roots else objs @ roots) Z"
      and co1: "counts_only H h (h(?f \<mapsto> fob\<lparr>count := count fob - 1\<rparr>))"
      by (rule drop_field [OF rc refl False pnd hc])
    let ?h = "h(?f \<mapsto> fob\<lparr>count := count fob - 1\<rparr>)"
    let ?ob = "ob\<lparr>slots := (slots ob)[i := nullptr]\<rparr>"
    let ?h2 = "?h(c \<mapsto> ?ob)"
    have hc1: "?h c = Some ob" using f(3) hc(1) by simp
    have same: "?h2 p = ?h p" if "p \<in> H" for p using that hc(2) by auto
    have co2: "counts_only H h ?h2" using co1 hc(2) by (auto simp: counts_only_def)
    have rc2: "rc_ok H ?h2 (\<lambda>x. ext x + pend ?ob is x)"
      unfolding pend_upd [OF i(2)] by (rule rc_ok_frame [OF rc1 same])
    have w: "watched_at ?h x = watched_at h x" "watched_at ?h2 x = watched_at h x" for x
      using f hc(1) by (auto simp: watched_at_def watched_def)
    have out: "unchanged_outside (insert c H) h h'" if "unchanged_outside (insert c H) ?h h' \<or>
        unchanged_outside (insert c H) ?h2 h'" for h'
      using that f(2) by (auto simp: unchanged_outside_def)
    show ?thesis
    proof (cases "count fob = 1 \<and> \<not> watched fob")
      case True
      then have step: "waiting_fields c (i # is) h objs roots = waiting_fields c is ?h (?f # objs) roots"
        using False f hc i by (auto simp: heap_simps watched_def)
      have "pending H ?h ((?f # objs) @ roots) Z" using pnd1 True by simp
      from Cons.IH [OF rc1 hc1 hc(2) i(3,4) this]
      obtain h' ob' objs' roots' where r: "waiting_fields c is ?h (?f # objs) roots = Some (h', objs', roots')"
        "rc_ok H h' ext" "pending H h' (objs' @ roots') Z" "h' c = Some ob'"
        "put_aside is ob ob' (?f # objs) objs'" "counts_only H ?h h'" "unchanged_outside (insert c H) ?h h'"
        "\<forall>r \<in> set roots' - set roots. watched_at ?h r" "\<forall>x \<in> set objs' - set (?f # objs). \<not> watched_at ?h x" by blast
      have "\<not> watched_at h ?f" using True f(1) by (simp add: watched_at_def)
      then show ?thesis
        unfolding step using r(1-4,8,9) put_aside_push [OF r(5) i(2) False] out [of h'] r(7)
          counts_only_trans [OF co1 r(6)] w by auto
    next
      case other: False
      have step: "waiting_fields c (i # is) h objs roots =
          waiting_fields c is ?h2 objs (if count fob = 1 then ?f # roots else roots)"
        using False other f hc hc1 i by (simp add: heap_simps watched_def)
      have pnd2: "pending H ?h2 (objs @ (if count fob = 1 then ?f # roots else roots)) Z"
      proof -
        have "pending H ?h (objs @ (if count fob = 1 then ?f # roots else roots)) Z"
          using pnd1 by (auto simp: pending_def split: if_splits)
        then show ?thesis by (rule pending_frame [OF _ same])
      qed
      have hc2: "?h2 c = Some ?ob" and i4: "\<forall>i \<in> set is. i < length (slots ?ob)" using i(4) by auto
      from Cons.IH [OF rc2 hc2 hc(2) i(3) i4 pnd2]
      obtain h' ob' objs' roots' where r:
        "waiting_fields c is ?h2 objs (if count fob = 1 then ?f # roots else roots) = Some (h', objs', roots')"
        "rc_ok H h' ext" "pending H h' (objs' @ roots') Z" "h' c = Some ob'"
        "put_aside is ?ob ob' objs objs'" "counts_only H ?h2 h'" "unchanged_outside (insert c H) ?h2 h'"
        "\<forall>r \<in> set roots' - set (if count fob = 1 then ?f # roots else roots). watched_at ?h2 r"
        "\<forall>x \<in> set objs' - set objs. \<not> watched_at ?h2 x" by blast
      have "count fob = 1 \<longrightarrow> watched_at h ?f" using other f(1) by (auto simp: watched_at_def)
      then have rw: "\<forall>r \<in> set roots' - set roots. watched_at h r" using r(8) w by (auto split: if_splits)
      show ?thesis
        unfolding step using r(1-4,9) put_aside_skip [OF r(5) i(2,1)] out [of h'] r(7) rw
          counts_only_trans [OF co2 r(6)] w by auto
    qed
  qed
qed


section \<open>Putting objects aside for the collector\<close>

text \<open>
  What becomes of an object that is put aside: it keeps its header but for its state and a
  count of zero, and some of its slots are cleared.
\<close>

definition retired :: "object_state \<Rightarrow> HeapObject \<Rightarrow> HeapObject \<Rightarrow> bool" where
  "retired st ob ob' \<longleftrightarrow>
     (\<exists>s. ob' = ob\<lparr>state := st, slots := s, count := 0\<rparr> \<and> length s = length (slots ob))"

lemma waiting_object_spec:
  assumes rc: "rc_ok H h ext" and pnd: "pending H h (c # objs @ roots) Z"
  shows "\<exists>h' ob ob' objs' roots'. waiting_object c h objs roots = Some (h', objs', roots') \<and>
     rc_ok (H - {c}) h' ext \<and> pending (H - {c}) h' (objs' @ roots') Z \<and>
     h c = Some ob \<and> h' c = Some ob' \<and> retired process_gc ob ob' \<and> objs' = rev (kept ob') @ objs \<and>
     counts_only (H - {c}) h h' \<and> unchanged_outside H h h' \<and>
     (\<forall>r \<in> set roots' - set roots. watched_at h r) \<and> (\<forall>x \<in> set (kept ob'). x \<noteq> c \<and> \<not> watched_at h x)"
proof -
  have cz: "c \<in> zeros H h" using pnd by (auto simp: pending_def)
  then have cH: "c \<in> H" using zeros_subset by blast
  obtain ob where ob: "h c = Some ob" "obj_ok H h ext c ob" using rc_okD [OF rc cH] by blast
  have cnt0: "count ob = 0" using cz ob(1) by (simp add: zeros_def)
  let ?ob = "ob\<lparr>state := process_gc\<rparr>" and ?H = "H - {c}"
  let ?h = "h(c \<mapsto> ?ob)"
  have same: "?h p = h p" if "p \<in> ?H" for p using that by simp
  have "(if x = nullptr then 0 else refs h c x) = pend ?ob [0..<length (slots ?ob)] x" for x
    unfolding pend_all using ob(1) by (simp add: refs_def)
  then have "rc_ok ?H h (\<lambda>x. ext x + pend ?ob [0..<length (slots ?ob)] x)"
    using rc_ok_drop [OF rc cz] by simp
  then have rc1: "rc_ok ?H ?h (\<lambda>x. ext x + pend ?ob [0..<length (slots ?ob)] x)"
    by (rule rc_ok_frame) (use same in auto)
  have "pending ?H h (objs @ roots) Z"
    using pnd by (auto simp: pending_def zeros_remove)
  then have pnd1: "pending ?H ?h (objs @ roots) Z"
    by (rule pending_frame) (use same in auto)
  have len: "unat (field_length ?ob) = length (slots ?ob)" using ob(2) by (simp add: obj_ok_def)
  have hyps: "?h c = Some ?ob" "c \<notin> ?H" "distinct [0..<length (slots ?ob)]"
    "\<forall>i \<in> set [0..<length (slots ?ob)]. i < length (slots ?ob)" by auto
  from waiting_fields_spec [OF rc1 hyps pnd1] obtain h' ob' objs' roots' where r:
    "waiting_fields c [0..<length (slots ?ob)] ?h objs roots = Some (h', objs', roots')"
    "rc_ok ?H h' ext" "pending ?H h' (objs' @ roots') Z" "h' c = Some ob'"
    "put_aside [0..<length (slots ?ob)] ?ob ob' objs objs'"
    "counts_only ?H ?h h'" "unchanged_outside (insert c ?H) ?h h'"
    "\<forall>r \<in> set roots' - set roots. watched_at ?h r" "\<forall>x \<in> set objs' - set objs. \<not> watched_at ?h x" by blast
  have "length (slots ob') = length (slots ob)" using r(5) by (simp add: put_aside_def)
  then have "map (\<lambda>j. slots ob' ! j) [0..<length (slots ob)] = slots ob'"
    using map_nth [of "slots ob'"] by simp
  then have objs': "objs' = rev (kept ob') @ objs" using r(5) by (simp add: put_aside_def kept_def)
  have run: "waiting_object c h objs roots = Some (h', objs', roots')"
    using r(1) ob(1) len by (simp add: waiting_object_def heap_simps)
  have ret: "retired process_gc ob ob'"
    using r(5) cnt0 by (cases ob) (auto simp: put_aside_def retired_def)
  have co: "counts_only ?H h h'"
    using r(6) same by (auto simp: counts_only_def)
  have out: "unchanged_outside H h h'"
    using r(7) cH by (auto simp: unchanged_outside_def)
  have k: "\<forall>x \<in> set (kept ob'). x \<noteq> c \<and> \<not> watched_at h x"
  proof
    fix x assume x: "x \<in> set (kept ob')"
    then have "x \<in> ?H" using pending_in [OF r(3)] objs' by auto
    moreover have "x \<notin> set objs" using x r(3) objs' by (auto simp: pending_def)
    ultimately have "x \<noteq> c" "\<not> watched_at ?h x" using x r(9) objs' by auto
    then show "x \<noteq> c \<and> \<not> watched_at h x" by (simp add: watched_at_def)
  qed
  have rw: "\<forall>r \<in> set roots' - set roots. watched_at h r" 
  proof -
    have "watched_at ?h x = watched_at h x" for x using ob(1) by (simp add: watched_at_def watched_def)
    then show ?thesis using r(8) by simp
  qed
  show ?thesis
    by (intro exI [of _ h'] exI [of _ ob] exI [of _ ob'] exI [of _ objs'] exI [of _ roots'] conjI
        run r(2,3) ob(1) r(4) ret objs' co out rw k)
qed


definition kept_at :: "heap \<Rightarrow> addr \<Rightarrow> addr list" where
  "kept_at h p = (case h p of None \<Rightarrow> [] | Some ob \<Rightarrow> kept ob)"

definition edges :: "heap \<Rightarrow> (addr \<times> addr) set" where
  "edges h = {(p, f). f \<in> set (kept_at h p)}"

lemma edges_iff: "(p, f) \<in> edges h \<longleftrightarrow> f \<in> set (kept_at h p)"
  by (simp add: edges_def)

text \<open>A path from inside a closed set only depends on what the heap has there.\<close>

lemma path_in_closed:
  assumes "(r, p) \<in> (edges h)\<^sup>*" "r \<in> P" "\<And>q. q \<in> P \<Longrightarrow> set (kept_at h q) \<subseteq> P"
    "\<And>q. q \<in> P \<Longrightarrow> kept_at h' q = kept_at h q"
  shows "p \<in> P \<and> (r, p) \<in> (edges h')\<^sup>*"
  using assms(1)
proof (induction rule: rtrancl_induct)
  case base
  then show ?case using assms(2) by simp
next
  case (step q p)
  then have "p \<in> P" "(q, p) \<in> edges h'" using assms(3,4) by (auto simp: edges_iff)
  with step.IH show ?case by (meson rtrancl_into_rtrancl)
qed

text \<open>
  A set of retired objects is a forest: the pointers they still hold lead to retired objects
  the collector does not watch, no two of these pointers lead to the same object, and every
  retired object is reached by such pointers from one that the collector watches.
\<close>

definition branching :: "addr set \<Rightarrow> heap \<Rightarrow> bool" where
  "branching P h \<longleftrightarrow> (\<forall>p\<in>P. distinct (kept_at h p) \<and> set (kept_at h p) \<subseteq> P \<and>
     (\<forall>x \<in> set (kept_at h p). \<not> watched_at h x) \<and>
     (\<forall>q\<in>P. q \<noteq> p \<longrightarrow> set (kept_at h p) \<inter> set (kept_at h q) = {}))"

definition rooted :: "addr set \<Rightarrow> heap \<Rightarrow> bool" where
  "rooted P h \<longleftrightarrow> (\<forall>p\<in>P. \<exists>r\<in>P. watched_at h r \<and> (r, p) \<in> (edges h)\<^sup>*)"

definition forest :: "addr set \<Rightarrow> heap \<Rightarrow> bool" where
  "forest P h \<longleftrightarrow> branching P h \<and> rooted P h"

lemma forest_closed: "forest P h \<Longrightarrow> p \<in> P \<Longrightarrow> set (kept_at h p) \<subseteq> P"
  unfolding forest_def branching_def by blast

lemma forest_empty [simp]: "forest {} h"
  by (simp add: forest_def branching_def rooted_def)

lemma forest_union:
  assumes "forest P h" "forest Q h" "P \<inter> Q = {}"
  shows "forest (P \<union> Q) h"
proof -
  have b: "branching P h" "branching Q h" "rooted P h" "rooted Q h" using assms by (simp_all add: forest_def)
  have "set (kept_at h p) \<inter> set (kept_at h q) = {}" if "p \<in> P" "q \<in> Q" for p q
    using that b(1,2) assms(3) unfolding branching_def by blast
  then have "branching (P \<union> Q) h" using b(1,2) unfolding branching_def by blast
  moreover have "rooted (P \<union> Q) h" using b(3,4) unfolding rooted_def by blast
  ultimately show ?thesis by (simp add: forest_def)
qed

lemma forest_cong:
  assumes "forest P h" "\<And>p. p \<in> P \<Longrightarrow> kept_at h' p = kept_at h p" "\<And>p. p \<in> P \<Longrightarrow> watched_at h' p = watched_at h p"
  shows "forest P h'"
proof -
  have "\<exists>r\<in>P. watched_at h' r \<and> (r, p) \<in> (edges h')\<^sup>*" if p: "p \<in> P" for p
  proof -
    obtain r where r: "r \<in> P" "watched_at h r" "(r, p) \<in> (edges h)\<^sup>*"
      using assms(1) p unfolding forest_def rooted_def by blast
    have "(r, p) \<in> (edges h')\<^sup>*"
      using path_in_closed [OF r(3,1) forest_closed [OF assms(1)] assms(2)] by blast
    then show ?thesis using r assms(3) by blast
  qed
  then have "rooted P h'" by (simp add: rooted_def)
  moreover have "branching P h" using assms(1) by (simp add: forest_def)
  then have "branching P h'" using assms(2,3) unfolding branching_def by (metis subsetD)
  ultimately show ?thesis by (simp add: forest_def)
qed

definition retires :: "object_state \<Rightarrow> addr set \<Rightarrow> heap \<Rightarrow> heap \<Rightarrow> bool" where
  "retires st P h h' \<longleftrightarrow> (\<forall>p\<in>P. \<exists>ob ob'. h p = Some ob \<and> h' p = Some ob' \<and> retired st ob ob')"

lemma retires_empty [simp]: "retires st {} h h'"
  by (simp add: retires_def)

lemma retires_after_counts:
  assumes "counts_only H h h1" "retires st P h1 h'" "P \<subseteq> H"
  shows "retires st P h h'"
  unfolding retires_def
proof
  fix p assume p: "p \<in> P"
  then obtain ob k where h: "h p = Some ob" "h1 p = Some (ob\<lparr>count := k\<rparr>)"
    using assms(1,3) unfolding counts_only_def by blast
  moreover obtain ob1 ob' where "h1 p = Some ob1" "h' p = Some ob'" "retired st ob1 ob'"
    using assms(2) p unfolding retires_def by blast
  ultimately show "\<exists>ob ob'. h p = Some ob \<and> h' p = Some ob' \<and> retired st ob ob'"
    by (auto simp: retired_def)
qed

lemma retires_insert:
  assumes "h c = Some ob" "h' c = Some ob'" "retired st ob ob'" "retires st P h h'"
  shows "retires st (insert c P) h h'"
  using assms by (auto simp: retires_def)

lemma retires_watched: "retires st P h h' \<Longrightarrow> p \<in> P \<Longrightarrow> watched_at h' p = watched_at h p"
  by (fastforce simp: retires_def watched_at_def watched_def retired_def)

lemma waiting_tree_spec:
  assumes "rc_ok H h ext" "pending H h (c # objs @ roots) Z"
  shows "\<exists>h' roots' ps ks. waiting_tree c h objs roots rel = Some (h', roots', rel @ ps) \<and>
     set ps \<subseteq> H \<and> distinct ps \<and> rc_ok (H - set ps) h' ext \<and> pending (H - set ps) h' roots' Z \<and>
     retires process_gc (set ps) h h' \<and> counts_only (H - set ps) h h' \<and> unchanged_outside H h h' \<and>
     ks = concat (map (kept_at h') ps) \<and> distinct (c # objs @ ks) \<and> set ps = set (c # objs @ ks) \<and>
     (\<forall>x \<in> set ks. \<not> watched_at h x) \<and> (\<forall>p \<in> set ps. \<exists>r \<in> set (c # objs). (r, p) \<in> (edges h')\<^sup>*) \<and>
     (\<forall>r \<in> set roots' - set roots. watched_at h r)"
  using assms
proof (induction "card H" arbitrary: H h c objs roots rel rule: less_induct)
  case less
  have cH: "c \<in> H" using pending_in [OF less.prems(2)] by simp
  have fin: "finite H" using less.prems(1) by simp
  let ?H = "H - {c}"
  from waiting_object_spec [OF less.prems] obtain h1 ob ob1 objs1 roots1 where w:
    "waiting_object c h objs roots = Some (h1, objs1, roots1)" "rc_ok ?H h1 ext"
    "pending ?H h1 (objs1 @ roots1) Z" "h c = Some ob" "h1 c = Some ob1" "retired process_gc ob ob1"
    "objs1 = rev (kept ob1) @ objs" "counts_only ?H h h1" "unchanged_outside H h h1"
    "\<forall>x \<in> set (kept ob1). x \<noteq> c \<and> \<not> watched_at h x" "\<forall>r \<in> set roots1 - set roots. watched_at h r" by blast
  have in1: "x \<in> ?H" if "x \<in> set objs1" for x using pending_in [OF w(3)] that by simp
  have d1: "distinct objs1" using w(3) by (simp add: pending_def)
  show ?case
  proof (cases objs1)
    case Nil
    then have e: "kept ob1 = []" "objs = []" using w(7) by auto
    have "waiting_tree c h objs roots rel = Some (h1, roots1, rel @ [c])"
      using w(1) Nil by (simp add: waiting_tree.simps)
    moreover have "retires process_gc (set [c]) h h1" using w(4,5,6) by (simp add: retires_def)
    moreover have "[] = concat (map (kept_at h1) [c])" using w(5) e by (simp add: kept_at_def)
    ultimately show ?thesis
      using w(2,3,8,9,11) Nil cH e
      by (intro exI [of _ h1] exI [of _ roots1] exI [of _ "[c]"] exI [of _ "[]"] conjI) auto
  next
    case (Cons n objs2)
    have lt: "card ?H < card H" using fin cH by (rule card_Diff1_less)
    have p2: "pending ?H h1 (n # objs2 @ roots1) Z" using w(3) Cons by simp
    from less.hyps [OF lt w(2) p2, of "rel @ [c]"] obtain h' roots' ps ks where r:
      "waiting_tree n h1 objs2 roots1 (rel @ [c]) = Some (h', roots', (rel @ [c]) @ ps)"
      "set ps \<subseteq> ?H" "distinct ps" "rc_ok (?H - set ps) h' ext" "pending (?H - set ps) h' roots' Z"
      "retires process_gc (set ps) h1 h'" "counts_only (?H - set ps) h1 h'" "unchanged_outside ?H h1 h'"
      "distinct (n # objs2 @ ks)" "set ps = set (n # objs2 @ ks)"
      "\<forall>x \<in> set ks. \<not> watched_at h1 x" "\<forall>p \<in> set ps. \<exists>r \<in> set (n # objs2). (r, p) \<in> (edges h')\<^sup>*"
      "\<forall>r \<in> set roots' - set roots1. watched_at h1 r"
      and ksd: "ks = concat (map (kept_at h') ps)"
      by blast
    have H: "H - set (c # ps) = ?H - set ps" by auto
    have hc: "h' c = Some ob1" using r(8) w(5) by (simp add: unchanged_outside_def)
    then have kc: "kept_at h' c = kept ob1" by (simp add: kept_at_def)
    have "\<forall>r \<in> set roots'. r \<in> ?H - set ps" using pending_in [OF r(5)] by blast
    then have rw: "\<forall>r \<in> set roots' - set roots. watched_at h r"
      using r(13) w(11) counts_only_watched [OF w(8)] by blast
    have rooted: "\<forall>p \<in> set (c # ps). \<exists>r \<in> set (c # objs). (r, p) \<in> (edges h')\<^sup>*"
    proof
      fix p assume "p \<in> set (c # ps)"
      then consider "p = c" | "p \<in> set ps" by auto
      then show "\<exists>r \<in> set (c # objs). (r, p) \<in> (edges h')\<^sup>*"
      proof cases
        case 2
        then obtain r where r: "r \<in> set objs1" "(r, p) \<in> (edges h')\<^sup>*" using r(12) Cons by auto
        have "r \<in> set objs \<or> (c, r) \<in> edges h'" using r(1) w(7) kc by (auto simp: edges_iff)
        then show ?thesis using r(2) by (auto intro: converse_rtrancl_into_rtrancl)
      qed auto
    qed
    have run: "waiting_tree c h objs roots rel = Some (h', roots', rel @ c # ps)"
      using w(1) Cons r(1) by (subst waiting_tree.simps) simp
    have ret: "retires process_gc (set (c # ps)) h h'"
      using retires_insert [OF w(4) hc w(6) retires_after_counts [OF w(8) r(6,2)]] by simp
    have ks: "set ks \<subseteq> ?H" using r(2,10) by auto
    have r9: "distinct (objs1 @ ks)" and r10: "set ps = set objs1 \<union> set ks"
      using r(9,10) Cons by auto
    have dist: "distinct (c # objs @ kept ob1 @ ks)"
      using r9 in1 ks unfolding w(7) by auto
    have elems: "set (c # ps) = set (c # objs @ kept ob1 @ ks)"
      using r10 unfolding w(7) by auto
    have "\<not> watched_at h x" if "x \<in> set ks" for x
      using that r(11) ks counts_only_watched [OF w(8), of x] by blast
    then have nw: "\<forall>x \<in> set (kept ob1 @ ks). \<not> watched_at h x" using w(10) by auto
    have "counts_only (H - set (c # ps)) h h'"
      unfolding H using counts_only_trans [OF w(8) r(7)] by auto
    moreover have "unchanged_outside H h h'"
      using unchanged_outside_trans [OF w(9) r(8)] by auto
    moreover have "kept ob1 @ ks = concat (map (kept_at h') (c # ps))" by (simp add: kc ksd)
    moreover have "set (c # ps) \<subseteq> H" "distinct (c # ps)" using r(2,3) cH by auto
    moreover have "rc_ok (H - set (c # ps)) h' ext" "pending (H - set (c # ps)) h' roots' Z"
      unfolding H by (rule r(4), rule r(5))
    ultimately show ?thesis
      using run ret dist elems nw rooted rw by blast
  qed
qed


lemma set_states_spec:
  assumes "distinct ps" "\<forall>p \<in> set ps. p \<in> dom h"
  shows "set_states st ps h = Some (\<lambda>p. if p \<in> set ps then map_option (\<lambda>ob. ob\<lparr>state := st\<rparr>) (h p) else h p)"
  using assms
proof (induction ps arbitrary: h)
  case Nil
  then show ?case by simp
next
  case (Cons p ps)
  then obtain ob where ob: "h p = Some ob" by auto
  let ?h = "h(p \<mapsto> ob\<lparr>state := st\<rparr>)"
  have "\<forall>q \<in> set ps. q \<in> dom ?h" using Cons.prems by auto
  with Cons.IH Cons.prems have "set_states st ps ?h =
      Some (\<lambda>q. if q \<in> set ps then map_option (\<lambda>ob. ob\<lparr>state := st\<rparr>) (?h q) else ?h q)" by auto
  moreover have "(\<lambda>q. if q \<in> set ps then map_option (\<lambda>ob. ob\<lparr>state := st\<rparr>) (?h q) else ?h q) =
      (\<lambda>q. if q \<in> set (p # ps) then map_option (\<lambda>ob. ob\<lparr>state := st\<rparr>) (h q) else h q)"
    using ob Cons.prems(1) by (auto simp: fun_eq_iff)
  ultimately show ?case using ob by (simp add: heap_simps del: fun_upd_apply)
qed

lemma retires_state:
  assumes "retires st P h h1" "\<And>p. p \<in> P \<Longrightarrow> h' p = map_option (\<lambda>ob. ob\<lparr>state := st'\<rparr>) (h1 p)"
  shows "retires st' P h h'"
  unfolding retires_def
proof
  fix p assume p: "p \<in> P"
  then obtain ob ob1 where "h p = Some ob" "h1 p = Some ob1" "retired st ob ob1"
    using assms(1) unfolding retires_def by blast
  then show "\<exists>ob ob'. h p = Some ob \<and> h' p = Some ob' \<and> retired st' ob ob'"
    using assms(2) [OF p] by (cases ob) (auto simp: retired_def)
qed

lemma retires_trans_outside:
  assumes "retires st P h h1" "unchanged_outside H h1 h'" "P \<inter> H = {}"
  shows "retires st P h h'"
proof -
  have "h' p = h1 p" if "p \<in> P" for p using assms(2,3) that by (auto simp: unchanged_outside_def)
  then show ?thesis using assms(1) by (simp add: retires_def)
qed

lemma retires_union: "retires st P h h' \<Longrightarrow> retires st Q h h' \<Longrightarrow> retires st (P \<union> Q) h h'"
  by (auto simp: retires_def)

lemma forest_of_list:
  assumes "distinct ps" "distinct (concat (map (kept_at h) ps))" "set (concat (map (kept_at h) ps)) \<subseteq> set ps"
    "\<forall>x \<in> set (concat (map (kept_at h) ps)). \<not> watched_at h x"
    "\<forall>p \<in> set ps. \<exists>r \<in> set ps. watched_at h r \<and> (r, p) \<in> (edges h)\<^sup>*"
  shows "forest (set ps) h"
proof -
  have "set (kept_at h p) \<inter> set (kept_at h q) = {}" if "p \<in> set ps" "q \<in> set ps" "q \<noteq> p" for p q
    using assms(1,2) that
  proof (induction ps)
    case (Cons r rs)
    then show ?case by auto
  qed simp
  moreover have "distinct (kept_at h p)" if "p \<in> set ps" for p
    using assms(2) that by (auto simp: distinct_concat_iff)
  moreover have "set (kept_at h p) \<subseteq> set ps \<and> (\<forall>x \<in> set (kept_at h p). \<not> watched_at h x)" if "p \<in> set ps" for p
    using assms(3,4) that by auto
  ultimately have "branching (set ps) h" unfolding branching_def by blast
  then show ?thesis using assms(5) by (simp add: forest_def rooted_def)
qed

lemma waiting_roots_spec:
  assumes "rc_ok H h ext" "pending H h (c # roots) Z" "\<forall>r \<in> set (c # roots). watched_at h r"
  shows "\<exists>h' P. waiting_roots c h roots = Some h' \<and> c \<in> P \<and> P \<subseteq> H \<and> rc_ok (H - P) h' ext \<and>
     pending (H - P) h' [] Z \<and> retires waiting_for_gc P h h' \<and> counts_only (H - P) h h' \<and>
     unchanged_outside H h h' \<and> forest P h'"
  using assms
proof (induction "card H" arbitrary: H h c roots rule: less_induct)
  case less
  have fin: "finite H" using less.prems(1) by simp
  have "pending H h (c # [] @ roots) Z" using less.prems(2) by simp
  from waiting_tree_spec [OF less.prems(1) this, of "[]"] obtain h1 roots1 ps ks where t:
    "waiting_tree c h [] roots [] = Some (h1, roots1, [] @ ps)" "set ps \<subseteq> H" "distinct ps"
    "rc_ok (H - set ps) h1 ext" "pending (H - set ps) h1 roots1 Z" "retires process_gc (set ps) h h1"
    "counts_only (H - set ps) h h1" "unchanged_outside H h h1"
    "distinct (c # [] @ ks)" "set ps = set (c # [] @ ks)" "\<forall>x \<in> set ks. \<not> watched_at h x"
    "\<forall>p \<in> set ps. \<exists>r \<in> set [c]. (r, p) \<in> (edges h1)\<^sup>*" "\<forall>r \<in> set roots1 - set roots. watched_at h r"
    and ksd: "ks = concat (map (kept_at h1) ps)"
    by blast
  define h2 where "h2 = (\<lambda>p. if p \<in> set ps then map_option (\<lambda>ob. ob\<lparr>state := waiting_for_gc\<rparr>) (h1 p) else h1 p)"
  let ?H = "H - set ps"
  have dom1: "\<forall>p \<in> set ps. p \<in> dom h1" using t(6) by (auto simp: retires_def)
  have st: "set_states waiting_for_gc ps h1 = Some h2"
    unfolding h2_def by (rule set_states_spec [OF t(3) dom1])
  have same: "h2 p = h1 p" if "p \<notin> set ps" for p using that by (simp add: h2_def)
  have k2: "kept_at h2 = kept_at h1"
    by (rule ext) (auto simp: h2_def kept_at_def kept_def split: option.splits)
  have w2: "watched_at h2 p = watched_at h p" if "p \<in> set ps" for p
    using retires_watched [OF t(6) that] that by (auto simp: h2_def watched_at_def watched_def)
  have rc2: "rc_ok ?H h2 ext" using t(4) by (rule rc_ok_frame) (simp add: same)
  have p2: "pending ?H h2 roots1 Z" using t(5) by (rule pending_frame) (simp add: same)
  have ret2: "retires waiting_for_gc (set ps) h h2" using t(6) by (rule retires_state) (simp add: h2_def)
  have co2: "counts_only ?H h h2" using t(7) same by (auto simp: counts_only_def)
  have out2: "unchanged_outside H h h2" using t(2,8) same unfolding unchanged_outside_def by (metis subsetD)
  have ks2: "concat (map (kept_at h2) ps) = ks" by (simp add: k2 ksd)
  have cps: "c \<in> set ps" using t(10) by simp
  have "edges h2 = edges h1" by (simp add: edges_def k2)
  then have root2: "\<forall>p \<in> set ps. \<exists>r \<in> set ps. watched_at h2 r \<and> (r, p) \<in> (edges h2)\<^sup>*"
    using t(12) cps w2 [OF cps] less.prems(3) by auto
  have nw2: "\<forall>x \<in> set ks. \<not> watched_at h2 x" using t(10,11) w2 by simp
  have fo2: "forest (set ps) h2"
    by (rule forest_of_list [OF t(3) _ _ _ root2]) (unfold ks2, use t(9,10) nw2 in auto)
  show ?case
  proof (cases roots1)
    case Nil
    then have "waiting_roots c h roots = Some h2" using t(1) st by (simp add: waiting_roots.simps)
    then show ?thesis using cps t(2) rc2 p2 Nil ret2 co2 out2 fo2 by blast
  next
    case (Cons n roots2)
    have lt: "card ?H < card H" using fin cps t(2) by (intro psubset_card_mono) auto
    have "pending ?H h2 (n # roots2) Z" using p2 Cons by simp
    have r1: "\<forall>r \<in> set roots1. r \<in> ?H \<and> watched_at h r"
      using pending_in [OF t(5)] t(13) less.prems(3) by auto
    then have rw: "\<forall>r \<in> set (n # roots2). watched_at h2 r"
      using counts_only_watched [OF co2] unfolding Cons by blast
    from less.hyps [OF lt rc2 \<open>pending ?H h2 (n # roots2) Z\<close> rw] obtain h' P where r: "waiting_roots n h2 roots2 = Some h'" "n \<in> P" "P \<subseteq> ?H"
      "rc_ok (?H - P) h' ext" "pending (?H - P) h' [] Z" "retires waiting_for_gc P h2 h'"
      "counts_only (?H - P) h2 h'" "unchanged_outside ?H h2 h'" "forest P h'" by blast
    have run: "waiting_roots c h roots = Some h'"
      using t(1) st Cons r(1) by (subst waiting_roots.simps) simp
    let ?P = "set ps \<union> P"
    have H: "H - ?P = ?H - P" by auto
    have disj: "set ps \<inter> ?H = {}" "set ps \<inter> P = {}" using r(3) by auto
    have ret: "retires waiting_for_gc ?P h h'"
      using retires_union [OF retires_trans_outside [OF ret2 r(8) disj(1)] retires_after_counts [OF co2 r(6,3)]] .
    have kw: "h' p = h2 p" if "p \<in> set ps" for p using r(8) that by (simp add: unchanged_outside_def)
    have "forest (set ps) h'"
      using fo2 by (rule forest_cong) (auto simp: kept_at_def watched_at_def kw)
    then have fo: "forest ?P h'" using r(9) disj(2) by (rule forest_union)
    have co: "counts_only (H - ?P) h h'" unfolding H by (rule counts_only_trans [OF co2 r(7)]) auto
    have out: "unchanged_outside H h h'" by (rule unchanged_outside_trans [OF out2 r(8)]) auto
    show ?thesis
      using run cps t(2) r(3,4,5) ret co out fo by (intro exI [of _ h'] exI [of _ ?P] conjI) (auto simp: H)
  qed
qed


section \<open>Releasing objects\<close>

text \<open>
  The outcome of releasing some objects of \<open>H\<close>: those in \<open>D\<close> are dead, those in \<open>W\<close> wait
  for the collector as a forest, the others satisfy the invariant and differ only in counts.
\<close>

definition outcome :: "addr set \<Rightarrow> heap \<Rightarrow> (addr \<Rightarrow> nat) \<Rightarrow> addr list \<Rightarrow> addr set \<Rightarrow> addr set \<Rightarrow> addr set \<Rightarrow> heap \<Rightarrow> bool" where
  "outcome H h ext stk Z D W h' \<longleftrightarrow> D \<subseteq> H \<and> W \<subseteq> H \<and> D \<inter> W = {} \<and>
     rc_ok (H - (D \<union> W)) h' ext \<and> pending (H - (D \<union> W)) h' stk Z \<and>
     retires dead D h h' \<and> retires waiting_for_gc W h h' \<and>
     counts_only (H - (D \<union> W)) h h' \<and> unchanged_outside H h h' \<and> forest W h' \<and> (\<forall>p\<in>D. \<not> watched_at h p)"

lemma outcome_watched:
  assumes "outcome H h ext stk Z D W h'"
  shows "watched_at h' p = watched_at h p"
proof -
  consider "p \<in> D" | "p \<in> W" | "p \<in> H - (D \<union> W)" | "p \<notin> H" by blast
  then show ?thesis
  proof cases
    case 4
    then show ?thesis using assms by (simp add: outcome_def unchanged_outside_def watched_at_def)
  next
    case 3
    then show ?thesis using assms counts_only_watched [of "H - (D \<union> W)" h h' p] by (simp add: outcome_def)
  qed (use assms retires_watched [of _ _ h h' p] in \<open>auto simp: outcome_def\<close>)
qed

lemma outcome_none:
  assumes "rc_ok H h' ext" "pending H h' stk Z" "counts_only H h h'" "unchanged_outside H h h'"
  shows "outcome H h ext stk Z {} {} h'"
  using assms by (simp add: outcome_def)

lemma outcome_waiting:
  assumes "W \<subseteq> H" "rc_ok (H - W) h' ext" "pending (H - W) h' stk Z" "retires waiting_for_gc W h h'"
    "counts_only (H - W) h h'" "unchanged_outside H h h'" "forest W h'"
  shows "outcome H h ext stk Z {} W h'"
  using assms by (simp add: outcome_def)

lemma outcome_trans:
  assumes a: "outcome H h e stk1 Z1 D1 W1 h1" and b: "outcome (H - (D1 \<union> W1)) h1 ext stk Z D2 W2 h2"
  shows "outcome H h ext stk Z (D1 \<union> D2) (W1 \<union> W2) h2"
proof -
  let ?H = "H - (D1 \<union> W1)"
  have H: "H - ((D1 \<union> D2) \<union> (W1 \<union> W2)) = ?H - (D2 \<union> W2)" by auto
  have sub: "D2 \<subseteq> ?H" "W2 \<subseteq> ?H" using b by (simp_all add: outcome_def)
  have co: "counts_only ?H h h1" and out: "unchanged_outside ?H h1 h2"
    using a b by (simp_all add: outcome_def)
  have "retires dead D1 h h2" "retires waiting_for_gc W1 h h2"
    using a by (auto simp: outcome_def intro: retires_trans_outside [OF _ out])
  moreover have "retires dead D2 h h2" "retires waiting_for_gc W2 h h2"
    using b retires_after_counts [OF co _ sub(1)] retires_after_counts [OF co _ sub(2)]
    by (simp_all add: outcome_def)
  ultimately have d: "retires dead (D1 \<union> D2) h h2" and w: "retires waiting_for_gc (W1 \<union> W2) h h2"
    by (simp_all add: retires_union)
  have same: "h2 p = h1 p" if "p \<in> W1" for p using out that by (simp add: unchanged_outside_def)
  have "forest W1 h1" using a by (simp add: outcome_def)
  then have "forest W1 h2"
    by (rule forest_cong) (auto simp: kept_at_def watched_at_def same)
  moreover have "forest W2 h2" "W1 \<inter> W2 = {}" using b sub by (auto simp: outcome_def)
  ultimately have f: "forest (W1 \<union> W2) h2" by (rule forest_union)
  have c: "counts_only (?H - (D2 \<union> W2)) h h2"
    by (rule counts_only_trans [OF co]) (use b in \<open>auto simp: outcome_def\<close>)
  have o: "unchanged_outside H h h2"
    by (rule unchanged_outside_trans [OF _ out]) (use a in \<open>auto simp: outcome_def\<close>)
  have "\<forall>p \<in> D2. \<not> watched_at h p"
    using b sub(1) counts_only_watched [OF co] unfolding outcome_def by blast
  then have u: "\<forall>p \<in> D1 \<union> D2. \<not> watched_at h p" using a by (auto simp: outcome_def)
  have "D1 \<union> D2 \<subseteq> H" "W1 \<union> W2 \<subseteq> H" "(D1 \<union> D2) \<inter> (W1 \<union> W2) = {}"
    using a b sub by (auto simp: outcome_def)
  then show ?thesis
    unfolding outcome_def H using b d w c o f u by (simp add: outcome_def)
qed

lemma waiting_gc_object_spec:
  assumes "rc_ok H h ext" "pending H h (c # objs) Z" "watched_at h c"
  shows "\<exists>h' W. decrement_reference_count_waiting_gc_object h c = Some h' \<and> c \<in> W \<and>
     outcome H h ext objs Z {} W h'"
proof -
  have z: "zeros H h = insert c (set objs \<union> Z)" "distinct (c # objs)" "set (c # objs) \<inter> Z = {}"
    using assms(2) by (simp_all add: pending_def)
  then have "pending H h [c] (set objs \<union> Z)" by (auto simp: pending_def)
  moreover have "\<forall>r \<in> set [c]. watched_at h r" using assms(3) by simp
  ultimately obtain h' W where r: "waiting_roots c h [] = Some h'"
    "c \<in> W" "W \<subseteq> H" "rc_ok (H - W) h' ext" "pending (H - W) h' [] (set objs \<union> Z)"
    "retires waiting_for_gc W h h'" "counts_only (H - W) h h'" "unchanged_outside H h h'" "forest W h'"
    using waiting_roots_spec [OF assms(1)] by blast
  have "pending (H - W) h' objs Z" using r(5) z by (auto simp: pending_def)
  from outcome_waiting [OF r(3,4) this r(6-9)] show ?thesis
    using r(1,2) by (auto simp: decrement_reference_count_waiting_gc_object_def)
qed

lemma release_fields_spec:
  assumes "rc_ok H h (\<lambda>x. ext x + pend ob is x)" "h c = Some ob" "c \<notin> H"
    "\<forall>i \<in> set is. i < length (slots ob)" "pending H h objs Z"
  shows "\<exists>h' objs' W. release_fields c is h objs = Some (h', objs') \<and> outcome H h ext objs' Z {} W h' \<and>
     (\<forall>x \<in> set objs' - set objs. \<not> watched_at h x)"
  using assms
proof (induction "is" arbitrary: H h objs)
  case Nil
  then have "rc_ok H h ext" by simp
  then show ?case
    using Nil outcome_none [of H h ext objs Z h] counts_only_refl [of H h ext] by (auto simp: unchanged_outside_def)
next
  case (Cons i "is")
  note rc = Cons.prems(1) and hc = Cons.prems(2,3) and pnd = Cons.prems(5)
  have i: "i < length (slots ob)" "\<forall>i \<in> set is. i < length (slots ob)"
    using Cons.prems(4) by auto
  let ?f = "slots ob ! i"
  show ?case
  proof (cases "?f = nullptr")
    case True
    then have "release_fields c (i # is) h objs = release_fields c is h objs"
      using hc i by (simp add: heap_simps)
    then show ?thesis using Cons.IH [OF rc [unfolded pend_null [OF True]] hc i(2) pnd] by simp
  next
    case False
    obtain fob where f: "h ?f = Some fob" "?f \<in> H" "?f \<noteq> c"
      and rc1: "rc_ok H (h(?f \<mapsto> fob\<lparr>count := count fob - 1\<rparr>)) (\<lambda>x. ext x + pend ob is x)"
      and pnd1: "pending H (h(?f \<mapsto> fob\<lparr>count := count fob - 1\<rparr>)) (if count fob = 1 then ?f # objs else objs) Z"
      and co1: "counts_only H h (h(?f \<mapsto> fob\<lparr>count := count fob - 1\<rparr>))"
      by (rule drop_field [OF rc refl False pnd hc])
    let ?h = "h(?f \<mapsto> fob\<lparr>count := count fob - 1\<rparr>)"
    let ?e = "\<lambda>x. ext x + pend ob is x"
    have out1: "unchanged_outside H h ?h" using f(2) by (auto simp: unchanged_outside_def)
    have hc1: "?h c = Some ob" using f(3) hc(1) by simp
    note o1 = outcome_none [OF rc1 pnd1 co1 out1]
    show ?thesis
    proof (cases "count fob = 1 \<and> watched fob")
      case True
      then have "pending H ?h (?f # objs) Z" using pnd1 by simp
      moreover have "watched_at ?h ?f" using True by (simp add: watched_at_def watched_def)
      ultimately obtain h2 W2 where w:
        "decrement_reference_count_waiting_gc_object ?h ?f = Some h2" "outcome H ?h ?e objs Z {} W2 h2"
        using waiting_gc_object_spec [OF rc1] by blast
      have H: "H - ({} \<union> {}) = H" by simp
      note o2 = outcome_trans [OF o1, unfolded H, OF w(2), simplified]
      have rc2: "rc_ok (H - W2) h2 ?e" "pending (H - W2) h2 objs Z" "c \<notin> H - W2" "h2 c = Some ob"
        using o2 hc by (auto simp: outcome_def unchanged_outside_def)
      from Cons.IH [OF rc2(1,4,3) i(2) rc2(2)] obtain h' objs' W3 where
        r: "release_fields c is h2 objs = Some (h', objs')" "outcome (H - W2) h2 ext objs' Z {} W3 h'"
          "\<forall>x \<in> set objs' - set objs. \<not> watched_at h2 x" by blast
      have "outcome H h ext objs' Z {} (W2 \<union> W3) h'"
        using outcome_trans [OF o2, of ext objs' Z "{}" W3 h'] r(2) by simp
      moreover have "release_fields c (i # is) h objs = Some (h', objs')"
        using False True f hc i w(1) r(1) by (simp add: heap_simps watched_def)
      ultimately show ?thesis using r(3) outcome_watched [OF o2] by blast
    next
      case other: False
      let ?objs = "if count fob = 1 then ?f # objs else objs"
      from Cons.IH [OF rc1 hc1 hc(2) i(2) pnd1] obtain h' objs' W where
        r: "release_fields c is ?h ?objs = Some (h', objs')" "outcome H ?h ext objs' Z {} W h'"
          "\<forall>x \<in> set objs' - set ?objs. \<not> watched_at ?h x" by blast
      have "outcome H h ext objs' Z {} W h'"
        using outcome_trans [OF o1, of ext objs' Z "{}" W h'] r(2) by simp
      moreover have "release_fields c (i # is) h objs = release_fields c is ?h ?objs"
        using False other f hc i by (auto simp: heap_simps watched_def)
      moreover have "count fob = 1 \<longrightarrow> \<not> watched_at h ?f" using other f(1) by (auto simp: watched_at_def)
      then have "\<forall>x \<in> set objs' - set objs. \<not> watched_at h x"
        using r(3) outcome_watched [OF o1] by (auto split: if_splits)
      ultimately show ?thesis using r(1) by auto
    qed
  qed
qed

lemma release_object_spec:
  assumes rc: "rc_ok H h ext" and pnd: "pending H h (c # objs) Z" and nw: "\<forall>x \<in> set (c # objs). \<not> watched_at h x"
  shows "\<exists>h' objs' W. release_object c h objs = Some (h', objs') \<and> outcome H h ext objs' Z {c} W h' \<and>
     (\<forall>x \<in> set objs'. \<not> watched_at h' x)"
proof -
  have cz: "c \<in> zeros H h" using pnd by (auto simp: pending_def)
  then have cH: "c \<in> H" using zeros_subset by blast
  obtain ob where ob: "h c = Some ob" "obj_ok H h ext c ob" using rc_okD [OF rc cH] by blast
  have cnt0: "count ob = 0" using cz ob(1) by (simp add: zeros_def)
  have len: "unat (field_length ob) = length (slots ob)" using ob(2) by (simp add: obj_ok_def)
  let ?H = "H - {c}"
  have "(if x = nullptr then 0 else refs h c x) = pend ob [0..<length (slots ob)] x" for x
    unfolding pend_all using ob(1) by (simp add: refs_def)
  then have rc1: "rc_ok ?H h (\<lambda>x. ext x + pend ob [0..<length (slots ob)] x)"
    using rc_ok_drop [OF rc cz] by simp
  have pnd1: "pending ?H h objs Z" using pnd by (auto simp: pending_def zeros_remove)
  have "c \<notin> ?H" "\<forall>i \<in> set [0..<length (slots ob)]. i < length (slots ob)" by auto
  from release_fields_spec [OF rc1 ob(1) this pnd1] obtain h1 objs' W where r:
    "release_fields c [0..<length (slots ob)] h objs = Some (h1, objs')" "outcome ?H h ext objs' Z {} W h1"
    "\<forall>x \<in> set objs' - set objs. \<not> watched_at h x" by blast
  have hc: "h1 c = Some ob" using r(2) ob(1) by (auto simp: outcome_def unchanged_outside_def)
  let ?h = "h1(c \<mapsto> ob\<lparr>state := dead\<rparr>)"
  have run: "release_object c h objs = Some (?h, objs')"
    using r(1) ob(1) len hc by (simp add: release_object_def heap_simps)
  have WH: "W \<subseteq> ?H" "c \<notin> W" using r(2) by (auto simp: outcome_def)
  have H: "H - ({c} \<union> W) = ?H - ({} \<union> W)" by auto
  have same: "?h p = h1 p" if "p \<noteq> c" for p using that by simp
  have "retired dead ob (ob\<lparr>state := dead\<rparr>)"
    using cnt0 by (cases ob) (auto simp: retired_def)
  then have d: "retires dead {c} h ?h" using ob(1) by (simp add: retires_def)
  have sameW: "?h p = h1 p" if "p \<in> W" for p using that WH(2) by auto
  have "forest W h1" "retires waiting_for_gc W h h1" using r(2) by (simp_all add: outcome_def)
  then have w: "retires waiting_for_gc W h ?h" "forest W ?h"
    by (simp_all add: retires_def sameW kept_at_def watched_at_def forest_cong [of W h1 ?h] del: fun_upd_apply)
  have o: "unchanged_outside H h ?h" "counts_only (?H - ({} \<union> W)) h ?h"
    using r(2) cH by (auto simp: outcome_def unchanged_outside_def counts_only_def)
  have "rc_ok (?H - ({} \<union> W)) h1 ext" "pending (?H - ({} \<union> W)) h1 objs' Z"
    using r(2) by (simp_all add: outcome_def)
  then have "rc_ok (?H - ({} \<union> W)) ?h ext" "pending (?H - ({} \<union> W)) ?h objs' Z"
    by (auto intro!: rc_ok_frame [of _ h1] pending_frame [of _ h1] split: if_splits)
  then have oc: "outcome H h ext objs' Z {c} W ?h"
    unfolding outcome_def H using d w o cH WH nw by auto
  moreover have "\<forall>x \<in> set objs'. \<not> watched_at ?h x"
    unfolding outcome_watched [OF oc] using r(3) nw by auto
  ultimately show ?thesis using run by blast
qed

lemma release_loop_spec:
  assumes "rc_ok H h ext" "pending H h (c # objs) Z" "\<forall>x \<in> set (c # objs). \<not> watched_at h x"
  shows "\<exists>h' D W. release_loop c h objs = Some h' \<and> c \<in> D \<and> outcome H h ext [] Z D W h'"
  using assms
proof (induction "card H" arbitrary: H h c objs rule: less_induct)
  case less
  from release_object_spec [OF less.prems] obtain h1 objs1 W1 where
    r: "release_object c h objs = Some (h1, objs1)" "outcome H h ext objs1 Z {c} W1 h1"
    "\<forall>x \<in> set objs1. \<not> watched_at h1 x" by blast
  show ?case
  proof (cases objs1)
    case Nil
    then have "release_loop c h objs = Some h1" using r(1) by (simp add: release_loop.simps)
    then show ?thesis using r(2) Nil by blast
  next
    case (Cons n objs2)
    let ?H = "H - ({c} \<union> W1)"
    have rc1: "rc_ok ?H h1 ext" "pending ?H h1 (n # objs2) Z" "c \<in> H"
      using r(2) Cons by (simp_all add: outcome_def)
    have "card ?H < card H" using less.prems(1) rc1(3) by (intro psubset_card_mono) auto
    from less.hyps [OF this rc1(1,2)] r(3) Cons obtain h' D W where
      i: "release_loop n h1 objs2 = Some h'" "outcome ?H h1 ext [] Z D W h'" by auto
    have "release_loop c h objs = Some h'"
      using r(1) Cons i(1) by (subst release_loop.simps) simp
    then show ?thesis using outcome_trans [OF r(2) i(2)] by blast
  qed
qed


lemma decrement_spec:
  assumes rc: "rc_ok H h ext" and pos: "0 < ext object" and pnd: "pending H h [] Z"
  shows "\<exists>h' D W. decrement_reference_count h object = Some h' \<and>
     outcome H h (ext(object := ext object - 1)) [] Z D W h' \<and>
     (case h object of None \<Rightarrow> False | Some ob \<Rightarrow> (count ob = 1 \<longleftrightarrow> object \<in> D \<union> W) \<and>
        (if count ob = 1 \<and> watched ob then object \<in> W \<and> D = {} else if count ob = 1 then object \<in> D else D = {} \<and> W = {}))"
proof -
  let ?e = "ext(object := ext object - 1)"
  from rc_ok_dec [OF rc pos] obtain ob where ob: "h object = Some ob" "object \<in> H"
    "rc_ok H (h(object \<mapsto> ob\<lparr>count := count ob - 1\<rparr>)) ?e"
    "zeros H (h(object \<mapsto> ob\<lparr>count := count ob - 1\<rparr>)) = (if count ob = 1 then insert object (zeros H h) else zeros H h)"
    "object \<notin> zeros H h" by blast
  let ?h = "h(object \<mapsto> ob\<lparr>count := count ob - 1\<rparr>)"
  have pnd1: "pending H ?h (if count ob = 1 then [object] else []) Z"
    using pnd ob(4,5) by (auto simp: pending_def)
  have "unchanged_outside H h ?h" using ob(2) by (auto simp: unchanged_outside_def)
  note o1 = outcome_none [OF ob(3) pnd1 counts_only_dec [OF rc ob(1)] this]
  have H: "H - ({} \<union> {}) = H" by simp
  note o1t = outcome_trans [OF o1, unfolded H, simplified]
  have run: "decrement_reference_count h object = (if count ob = 1
      then if watched ob then decrement_reference_count_waiting_gc_object ?h object else release_loop object ?h []
      else Some ?h)"
    using ob(1) by (simp add: decrement_reference_count_def heap_simps watched_def)
  show ?thesis
  proof (cases "count ob = 1")
    case False
    then show ?thesis using run o1 ob(1) by fastforce
  next
    case True
    then have p: "pending H ?h [object] Z" using pnd1 by simp
    show ?thesis
    proof (cases "watched ob")
      case w: True
      have "watched_at ?h object" using w by (simp add: watched_at_def watched_def)
      from waiting_gc_object_spec [OF ob(3) p this] obtain h' W where
        "decrement_reference_count_waiting_gc_object ?h object = Some h'" "object \<in> W" "outcome H ?h ?e [] Z {} W h'"
        by blast
      then show ?thesis using run True w ob(1) o1t [of ?e "[]" Z "{}" W h'] by fastforce
    next
      case w: False
      have "\<forall>x \<in> set [object]. \<not> watched_at ?h x" using w by (simp add: watched_at_def watched_def)
      from release_loop_spec [OF ob(3) p this] obtain h' D W where
        "release_loop object ?h [] = Some h'" "object \<in> D" "outcome H ?h ?e [] Z D W h'" by blast
      then show ?thesis using run True w ob(1) o1t [of ?e "[]" Z D W h'] by fastforce
    qed
  qed
qed

lemma increment_spec:
  assumes "rc_ok H h ext" "object \<in> H" "h object = Some ob" "unat (count ob) < 2 ^ 64 - 1"
    "distinct (suspected_object_list cc)"
  shows "\<exists>cc' h'. increment_reference_count cc h object = Some (cc', h') \<and>
     rc_ok H h' (ext(object := ext object + 1)) \<and>
     h' = h(object \<mapsto> ob\<lparr>count := count ob + 1,
        async_release := async_release ob \<or> (is_cyclic_type ob \<and> count ob = 1)\<rparr>) \<and>
     set (suspected_object_list cc') = set (suspected_object_list cc) \<union>
        (if is_cyclic_type ob \<and> \<not> async_release ob \<and> count ob = 1 then {object} else {}) \<and>
     distinct (suspected_object_list cc')"
proof -
  let ?ob = "ob\<lparr>count := count ob + 1, async_release := async_release ob \<or> (is_cyclic_type ob \<and> count ob = 1)\<rparr>"
  let ?h = "h(object \<mapsto> ?ob)"
  have run: "\<exists>cc'. increment_reference_count cc h object = Some (cc', ?h) \<and>
     set (suspected_object_list cc') = set (suspected_object_list cc) \<union>
        (if is_cyclic_type ob \<and> \<not> async_release ob \<and> count ob = 1 then {object} else {}) \<and>
     distinct (suspected_object_list cc')"
    using assms(3,5)
    by (cases ob) (auto simp: increment_reference_count_def fetch_add_def add_suspected_object_def set_insert_def)
  have ok: "obj_ok H h ext object ob" using assms(1-3) by (auto elim!: rc_okD)
  have refs: "refs ?h q x = refs h q x" for q x using assms(3) by (simp add: refs_def)
  have cnt: "unat (count ob + 1) = unat (count ob) + 1" using assms(4) by (intro unat_inc) simp
  have "\<exists>ob'. ?h p = Some ob' \<and> obj_ok H ?h (ext(object := ext object + 1)) p ob'" if "p \<in> H" for p
  proof (cases "p = object")
    case True
    then show ?thesis using ok cnt by (simp add: obj_ok_def refs)
  next
    case False
    then show ?thesis using that assms(1) by (auto elim!: rc_okD [of _ _ _ p] simp: obj_ok_def refs)
  qed
  then have "rc_ok H ?h (ext(object := ext object + 1))"
    using assms(1,2) unfolding rc_ok_def by auto
  then show ?thesis using run by auto
qed

section \<open>Properties\<close>

text \<open>
  C10. Dropping a reference is correct. If every live object's count is the number of
  references to it and no live object is unreferenced, then dropping a reference that is held
  from outside the heap terminates without touching an invalid address. It retires some
  objects, \<open>D\<close> marked dead and \<open>W\<close> left waiting for the collector, so that afterwards the
  counts of the objects that stay are again exact, none of them is unreferenced (nothing is
  leaked), and none of them changed except in its count. No object that is still referenced
  is retired, and objects outside the live heap are not written.
\<close>

theorem decrement_reference_count_correct:
  assumes "rc_ok H h ext" "zeros H h = {}" "0 < ext object"
  shows "\<exists>h' D W. decrement_reference_count h object = Some h' \<and>
     D \<subseteq> H \<and> W \<subseteq> H \<and> D \<inter> W = {} \<and>
     rc_ok (H - (D \<union> W)) h' (ext(object := ext object - 1)) \<and> zeros (H - (D \<union> W)) h' = {} \<and>
     counts_only (H - (D \<union> W)) h h' \<and> retires dead D h h' \<and> retires waiting_for_gc W h h' \<and>
     (\<forall>p. p \<notin> H \<longrightarrow> h' p = h p)"
proof -
  have "pending H h [] {}" using assms(2) by (simp add: pending_def)
  from decrement_spec [OF assms(1,3) this] obtain h' D W where
    "decrement_reference_count h object = Some h'" "outcome H h (ext(object := ext object - 1)) [] {} D W h'"
    by blast
  then show ?thesis by (auto simp: outcome_def pending_def unchanged_outside_def)
qed

text \<open>
  C23. What a dropped reference does to the object itself: it is retired exactly if its count
  was one; then it becomes dead, or, if the collector watches it, it is left waiting for the
  collector with every object that dies with it, and no object is marked dead. The objects
  left waiting form a forest: a pointer that a waiting object still holds leads to another
  waiting object, which the collector does not watch, and no two of them lead to the same one.
\<close>

theorem decrement_reference_count_fate:
  assumes "rc_ok H h ext" "zeros H h = {}" "0 < ext object" "h object = Some ob"
  shows "\<exists>h' ob'. decrement_reference_count h object = Some h' \<and> h' object = Some ob' \<and>
     state ob' = (if count ob \<noteq> 1 then live else if watched ob then waiting_for_gc else dead) \<and>
     (watched ob \<longrightarrow> (\<forall>p\<in>H. map_option state (h' p) \<noteq> Some dead)) \<and>
     forest {p \<in> H. map_option state (h' p) = Some waiting_for_gc} h'"
proof -
  have "pending H h [] {}" using assms(2) by (simp add: pending_def)
  from decrement_spec [OF assms(1,3) this] obtain h' D W where
    run: "decrement_reference_count h object = Some h'" and
    o: "outcome H h (ext(object := ext object - 1)) [] {} D W h'" and
    mem: "if count ob = 1 \<and> watched ob then object \<in> W \<and> D = {} else if count ob = 1 then object \<in> D else D = {} \<and> W = {}"
    using assms(4) by (auto split: option.splits)
  have st: "map_option state (h' p) = Some (if p \<in> D then dead else if p \<in> W then waiting_for_gc else live)"
    if "p \<in> H" for p
  proof -
    have "rc_ok (H - (D \<union> W)) h' (ext(object := ext object - 1))" using o by (simp add: outcome_def)
    then have "p \<notin> D \<union> W \<Longrightarrow> \<exists>ob. h' p = Some ob \<and> state ob = live"
      using that by (auto elim!: rc_okD [of _ _ _ p] simp: obj_ok_def)
    moreover have "\<exists>ob. h' p = Some ob \<and> state ob = dead" if "p \<in> D"
      using o that by (auto simp: outcome_def retires_def retired_def)
    moreover have "\<exists>ob. h' p = Some ob \<and> state ob = waiting_for_gc" if "p \<in> W"
      using o that by (auto simp: outcome_def retires_def retired_def)
    ultimately show ?thesis by auto
  qed
  have W: "{p \<in> H. map_option state (h' p) = Some waiting_for_gc} = W"
  proof -
    have sub: "W \<subseteq> H" "D \<inter> W = {}" using o by (simp_all add: outcome_def)
    have "map_option state (h' p) = Some waiting_for_gc \<longleftrightarrow> p \<in> W" if "p \<in> H" for p
      unfolding st [OF that] using sub by auto
    then show ?thesis using sub(1) by blast
  qed
  have oH: "object \<in> H" using assms(1,3) by (rule rc_ok_ext)
  then obtain ob' where ob': "h' object = Some ob'" "state ob' = (if object \<in> D then dead else if object \<in> W then waiting_for_gc else live)"
    using st [OF oH] by auto
  have "object \<notin> D \<or> object \<notin> W" using o by (auto simp: outcome_def)
  moreover have "forest {p \<in> H. map_option state (h' p) = Some waiting_for_gc} h'"
    unfolding W using o by (simp add: outcome_def)
  moreover have "watched ob \<longrightarrow> (\<forall>p\<in>H. map_option state (h' p) \<noteq> Some dead)"
    using mem st by (simp del: map_option_eq_Some split: if_splits)
  ultimately show ?thesis
    using run mem ob' by (intro exI [of _ h'] exI [of _ ob'] conjI) (auto split: if_splits)
qed


text \<open>
  C24. Taking a reference is correct: the count of the object stays the number of references
  to it as long as it has not reached its maximum. The collector is told about an object of a
  cyclic type exactly when a second reference to it is taken for the first time, and from then
  on watches it; nothing else changes.
\<close>

theorem increment_reference_count_correct:
  assumes "rc_ok H h ext" "object \<in> H" "h object = Some ob" "unat (count ob) < 2 ^ 64 - 1"
    "distinct (suspected_object_list cc)"
  shows "\<exists>cc' h'. increment_reference_count cc h object = Some (cc', h') \<and>
     rc_ok H h' (ext(object := ext object + 1)) \<and>
     h' = h(object \<mapsto> ob\<lparr>count := count ob + 1,
        async_release := async_release ob \<or> (is_cyclic_type ob \<and> count ob = 1)\<rparr>) \<and>
     set (suspected_object_list cc') = set (suspected_object_list cc) \<union>
        (if is_cyclic_type ob \<and> \<not> async_release ob \<and> count ob = 1 then {object} else {}) \<and>
     distinct (suspected_object_list cc')"
  using increment_spec [OF assms] .

text \<open>
  A reference dropped once too often is not noticed: on an object whose count is already
  zero the count wraps around to its maximum and nothing is released.
\<close>

lemma decrement_reference_count_wraps:
  assumes "h object = Some ob" "count ob = 0"
  shows "decrement_reference_count h object = Some (h(object \<mapsto> ob\<lparr>count := SIZE_MAX\<rparr>))"
  using assms by (simp add: decrement_reference_count_def heap_simps)

section \<open>Witnesses\<close>

text \<open>
  Three objects: 1 holds 2 and 3, and 2 holds 3; one reference from outside to 1. The
  collector watches 2.
\<close>

definition sample_heap :: heap where
  "sample_heap = [
     1 \<mapsto> zero_object\<lparr>count := 1, state := live, field_length := 2, slots := [2, 3]\<rparr>,
     2 \<mapsto> zero_object\<lparr>count := 1, state := live, is_cyclic_type := True, async_release := True,
          field_length := 1, slots := [3]\<rparr>,
     3 \<mapsto> zero_object\<lparr>count := 2, state := live\<rparr>]"

definition sample_ext :: "addr \<Rightarrow> nat" where
  "sample_ext x = (if x = 1 then 1 else 0)"

lemma sample_rc_ok: "rc_ok {1, 2, 3} sample_heap sample_ext"
  by (simp add: rc_ok_def obj_ok_def sample_heap_def sample_ext_def zero_object_def refs_def)

lemma sample_zeros: "zeros {1, 2, 3} sample_heap = {}"
  by (auto simp: zeros_def sample_heap_def zero_object_def)

theorem decrement_reference_count_correct_witness:
  "\<exists>h' D W. decrement_reference_count sample_heap 1 = Some h' \<and> D \<subseteq> {1, 2, 3} \<and> W \<subseteq> {1, 2, 3} \<and> D \<inter> W = {} \<and>
     rc_ok ({1, 2, 3} - (D \<union> W)) h' (sample_ext(1 := 0)) \<and> zeros ({1, 2, 3} - (D \<union> W)) h' = {} \<and>
     counts_only ({1, 2, 3} - (D \<union> W)) sample_heap h' \<and> retires dead D sample_heap h' \<and>
     retires waiting_for_gc W sample_heap h' \<and> (\<forall>p. p \<notin> {1, 2, 3} \<longrightarrow> h' p = sample_heap p)"
  using decrement_reference_count_correct [OF sample_rc_ok sample_zeros, of 1] by (simp add: sample_ext_def)

theorem decrement_reference_count_fate_witness:
  "\<exists>h' ob'. decrement_reference_count sample_heap 1 = Some h' \<and> h' 1 = Some ob' \<and> state ob' = dead \<and>
     forest {p \<in> {1, 2, 3}. map_option state (h' p) = Some waiting_for_gc} h'"
proof -
  have "0 < sample_ext 1" "sample_heap 1 = Some (zero_object\<lparr>count := 1, state := live, field_length := 2, slots := [2, 3]\<rparr>)"
    by (simp_all add: sample_ext_def sample_heap_def)
  from decrement_reference_count_fate [OF sample_rc_ok sample_zeros this] show ?thesis
    by (auto simp: watched_def zero_object_def)
qed

theorem increment_reference_count_correct_witness:
  "\<exists>cc' h'. increment_reference_count CycleCollector_new sample_heap 1 = Some (cc', h') \<and>
     rc_ok {1, 2, 3} h' (sample_ext(1 := 2)) \<and> suspected_object_list cc' = []"
proof -
  have "sample_heap 1 = Some (zero_object\<lparr>count := 1, state := live, field_length := 2, slots := [2, 3]\<rparr>)"
    by (simp add: sample_heap_def)
  from increment_reference_count_correct [OF sample_rc_ok _ this, where cc = CycleCollector_new] show ?thesis
    by (auto simp: sample_ext_def zero_object_def CycleCollector_new_def simp flip: numeral_2_eq_2)
qed

lemma decrement_reference_count_wraps_example:
  "decrement_reference_count [7 \<mapsto> zero_object] 7 = Some [7 \<mapsto> zero_object\<lparr>count := SIZE_MAX\<rparr>]"
  using decrement_reference_count_wraps [of "[7 \<mapsto> zero_object]" 7 zero_object]
  by (simp add: zero_object_def)

end
