(* ===== verification/Trace_Phases.thy ===== *)
theory Trace_Phases
  imports Cycle_Collector Ref_Count_Correct
begin

text \<open>
  The three marking phases of the collector on the graph of objects. Each field loop only
  reads the heap, so it is a recursion over the non-null pointers of the current object; each
  phase is then shown to compute a set: the lock phase the objects reachable from the root,
  the gray phase the number of references to each of them from outside, the white phase the
  objects that no reference from outside leads to.
\<close>

section \<open>Reading the fields\<close>

definition readable :: "heap \<Rightarrow> addr \<Rightarrow> bool" where
  "readable h p \<longleftrightarrow> (\<exists>ob. h p = Some ob \<and> length (slots ob) = unat (field_length ob))"

lemma readableE:
  assumes "readable h p"
  obtains ob where "h p = Some ob" "unat (field_length ob) = length (slots ob)" "kept_at h p = kept ob"
  using assms by (auto simp: readable_def kept_at_def)

definition some_at :: "HeapObject \<Rightarrow> nat list \<Rightarrow> addr list" where
  "some_at ob is = filter (\<lambda>f. f \<noteq> nullptr) (map (\<lambda>j. slots ob ! j) is)"

lemma some_at_all: "some_at ob [0..<length (slots ob)] = kept ob"
  by (simp add: some_at_def kept_def map_nth)

lemma some_at_Cons [simp]:
  "some_at ob (i # is) = (if slots ob ! i = nullptr then some_at ob is else slots ob ! i # some_at ob is)"
  by (simp add: some_at_def)

lemma some_at_Nil [simp]: "some_at ob [] = []"
  by (simp add: some_at_def)

definition cnt :: "heap \<Rightarrow> addr \<Rightarrow> nat" where
  "cnt h p = (case h p of None \<Rightarrow> 0 | Some ob \<Rightarrow> unat (count ob))"

lemma refs_kept: "x \<noteq> nullptr \<Longrightarrow> refs h p x = count_list (kept_at h p) x"
proof -
  have "x \<noteq> nullptr \<Longrightarrow> count_list (filter (\<lambda>f. f \<noteq> nullptr) xs) x = count_list xs x" for xs :: "addr list"
    by (induction xs) auto
  then show "x \<noteq> nullptr \<Longrightarrow> refs h p x = count_list (kept_at h p) x"
    by (simp add: refs_def kept_at_def kept_def split: option.splits)
qed

lemma null_not_kept [simp]: "nullptr \<notin> set (kept_at h p)"
  by (simp add: kept_at_def kept_def split: option.splits)

definition graph :: "addr set \<Rightarrow> heap \<Rightarrow> bool" where
  "graph R h \<longleftrightarrow> finite R \<and> nullptr \<notin> R \<and> (\<forall>p\<in>R. readable h p \<and> set (kept_at h p) \<subseteq> R)"

lemma graph_readable: "graph R h \<Longrightarrow> p \<in> R \<Longrightarrow> readable h p"
  by (simp add: graph_def)

lemma graph_closed: "graph R h \<Longrightarrow> p \<in> R \<Longrightarrow> f \<in> set (kept_at h p) \<Longrightarrow> f \<in> R"
  unfolding graph_def by blast

section \<open>Lock phase\<close>

fun red_list :: "addr \<Rightarrow> addr list \<Rightarrow> color_map \<Rightarrow> addr list \<Rightarrow> bool \<Rightarrow> color_map \<times> addr list \<times> bool" where
  "red_list root [] cm stk cyc = (cm, stk, cyc)"
| "red_list root (f # fs) cm stk cyc =
     (if cm f = None then red_list root fs (cm(f \<mapsto> red)) (f # stk) cyc
      else red_list root fs cm stk (cyc \<or> f = root))"

lemma red_fields_list:
  assumes "h c = Some ob" "\<forall>i \<in> set is. i < length (slots ob)"
  shows "red_fields root c is h cm stk cyc = Some (red_list root (some_at ob is) cm stk cyc)"
  using assms(2) by (induction "is" arbitrary: cm stk cyc) (auto simp: get_object_field_Some [of h c ob] assms(1))

lemma red_list_spec:
  assumes "red_list root fs cm stk cyc = (cm', stk', cyc')" "root \<in> dom cm"
  shows "dom cm' = dom cm \<union> set fs \<and> (cyc' \<longleftrightarrow> cyc \<or> root \<in> set fs) \<and>
    (\<exists>new. stk' = new @ stk \<and> distinct new \<and> set new = set fs - dom cm) \<and>
    (\<forall>x. color_of cm' x = color_of cm x)"
  using assms
proof (induction fs arbitrary: cm stk cyc)
  case Nil
  then show ?case by auto
next
  case (Cons f fs)
  show ?case
  proof (cases "cm f = None")
    case True
    then have eq: "red_list root fs (cm(f \<mapsto> red)) (f # stk) cyc = (cm', stk', cyc')" using Cons.prems by simp
    have "root \<in> dom (cm(f \<mapsto> red))" using Cons.prems(2) by simp
    from Cons.IH [OF eq this] obtain new where
      r: "dom cm' = dom (cm(f \<mapsto> red)) \<union> set fs" "cyc' \<longleftrightarrow> cyc \<or> root \<in> set fs"
        "stk' = new @ f # stk" "distinct new" "set new = set fs - dom (cm(f \<mapsto> red))"
        "\<forall>x. color_of cm' x = color_of (cm(f \<mapsto> red)) x" by blast
    have "color_of (cm(f \<mapsto> red)) x = color_of cm x" for x using True by (simp add: color_of_def)
    moreover have "root \<noteq> f" "f \<notin> dom cm" using True Cons.prems(2) by auto
    ultimately show ?thesis using r by (intro conjI exI [of _ "new @ [f]"]) auto
  next
    case False
    then have eq: "red_list root fs cm stk (cyc \<or> f = root) = (cm', stk', cyc')" using Cons.prems by (simp split: if_splits)
    from Cons.IH [OF this Cons.prems(2)] False show ?thesis by auto
  qed
qed

text \<open>The heap in the middle of the phase: the objects visited so far are locked.\<close>

definition with_locks :: "addr set \<Rightarrow> heap \<Rightarrow> heap" where
  "with_locks A h = (\<lambda>p. if p \<in> A then map_option (\<lambda>ob. ob\<lparr>lock_flag := True\<rparr>) (h p) else h p)"

lemma with_locks_empty [simp]: "with_locks {} h = h"
  by (simp add: with_locks_def)

lemma kept_at_locks [simp]: "kept_at (with_locks A h) = kept_at h"
  by (rule ext) (simp add: kept_at_def kept_def with_locks_def split: option.splits)

lemma with_locks_insert:
  assumes "h p = Some ob" "p \<notin> A"
  shows "(with_locks A h)(p \<mapsto> ob\<lparr>lock_flag := True\<rparr>) = with_locks (insert p A) h"
  using assms by (auto simp: with_locks_def fun_eq_iff)

definition unlocked :: "addr set \<Rightarrow> heap \<Rightarrow> bool" where
  "unlocked A h \<longleftrightarrow> (\<forall>p\<in>A. \<forall>ob. h p = Some ob \<longrightarrow> \<not> lock_flag ob)"

lemma red_object:
  assumes "readable h c" "\<not> lock_flag (the (h c))" "c \<notin> set co"
    "red_list root (kept_at h c) cm stk cyc = (cm', stk', cyc')"
  shows "red_phase root c (with_locks (set co) h) cm stk co cyc =
     (case stk' of [] \<Rightarrow> Some (with_locks (set (co @ [c])) h, cm', co @ [c], cyc')
      | n # rest \<Rightarrow> red_phase root n (with_locks (set (co @ [c])) h) cm' rest (co @ [c]) cyc')"
proof -
  obtain ob where ob: "h c = Some ob" "unat (field_length ob) = length (slots ob)" "kept_at h c = kept ob"
    using assms(1) by (rule readableE)
  have lk: "object_lock (with_locks (set co) h) c = Some (with_locks (set (co @ [c])) h)"
    using object_lock_free [of "with_locks (set co) h" c ob] ob(1) assms(2,3) with_locks_insert [of h c ob "set co"]
    by (simp add: with_locks_def)
  have hc: "with_locks (set (co @ [c])) h c = Some (ob\<lparr>lock_flag := True\<rparr>)"
    using ob(1) by (simp add: with_locks_def)
  have fl: "red_fields root c [0..<length (slots ob)] (with_locks (set (co @ [c])) h) cm stk cyc = Some (cm', stk', cyc')"
    using red_fields_list [of "with_locks (set (co @ [c])) h" c "ob\<lparr>lock_flag := True\<rparr>" "[0..<length (slots ob)]"]
      hc assms(4) some_at_all [of "ob\<lparr>lock_flag := True\<rparr>"] ob(3)
    by (simp add: kept_def)
  show ?thesis
    by (subst red_phase.simps) (simp add: lk hc [simplified] fl [simplified] ob(2) split: list.split)
qed

lemma red_phase_spec:
  assumes g: "graph R h" and ul: "unlocked R h"
    and inv: "dom cm = set (co @ c # stk)" "distinct (co @ c # stk)" "dom cm \<subseteq> R" "root \<in> dom cm"
      "\<forall>x \<in> set co. set (kept_at h x) \<subseteq> dom cm" "cyc \<longleftrightarrow> (\<exists>x \<in> set co. root \<in> set (kept_at h x))"
      "\<forall>x. color_of cm x = red"
  shows "\<exists>cm' co'. red_phase root c (with_locks (set co) h) cm stk co cyc =
      Some (with_locks (set co') h, cm', co', \<exists>x \<in> set co'. root \<in> set (kept_at h x)) \<and>
      distinct co' \<and> set co' \<subseteq> R \<and> root \<in> set co' \<and> dom cm' = set co' \<and> (\<forall>x \<in> set co'. set (kept_at h x) \<subseteq> set co') \<and>
      (\<forall>x. color_of cm' x = red)"
  using inv
proof (induction "card (R - set co)" arbitrary: cm co c stk cyc rule: less_induct)
  case less
  have cR: "c \<in> R" "c \<notin> set co" using less.prems by auto
  have rd: "readable h c" using graph_readable [OF g cR(1)] .
  then have nl: "\<not> lock_flag (the (h c))" using ul cR(1) by (auto simp: unlocked_def readable_def)
  obtain cm' stk' cyc' where rl: "red_list root (kept_at h c) cm stk cyc = (cm', stk', cyc')"
    by (cases "red_list root (kept_at h c) cm stk cyc") auto
  from red_list_spec [OF rl less.prems(4)] obtain new where
    r: "dom cm' = dom cm \<union> set (kept_at h c)" "cyc' \<longleftrightarrow> cyc \<or> root \<in> set (kept_at h c)"
      "stk' = new @ stk" "distinct new" "set new = set (kept_at h c) - dom cm"
      "\<forall>x. color_of cm' x = color_of cm x" by blast
  have red: "\<forall>x. color_of cm' x = red" using r(6) less.prems(7) by simp
  note step = red_object [OF rd nl cR(2) rl]
  have kR: "set (kept_at h c) \<subseteq> R" using graph_closed [OF g cR(1)] by blast
  have cyc: "cyc' \<longleftrightarrow> (\<exists>x \<in> set (co @ [c]). root \<in> set (kept_at h x))" using r(2) less.prems(6) by auto
  have dom': "dom cm' = set ((co @ [c]) @ stk')" using r(1,3,5) less.prems(1) by auto
  have closed: "\<forall>x \<in> set (co @ [c]). set (kept_at h x) \<subseteq> dom cm'" using r(1) less.prems(5) by auto
  have dist: "distinct ((co @ [c]) @ stk')" using r(3,4,5) less.prems(1,2) by auto
  have subR: "dom cm' \<subseteq> R" "root \<in> dom cm'" using r(1) kR less.prems(3,4) by auto
  show ?case
  proof (cases stk')
    case Nil
    have dc: "dom cm' = set (co @ [c])" using dom' Nil by simp
    have "red_phase root c (with_locks (set co) h) cm stk co cyc =
        Some (with_locks (set (co @ [c])) h, cm', co @ [c], \<exists>x \<in> set (co @ [c]). root \<in> set (kept_at h x))"
      using step Nil cyc by simp
    moreover have "distinct (co @ [c])" "set (co @ [c]) \<subseteq> R" "root \<in> set (co @ [c])"
      "\<forall>x \<in> set (co @ [c]). set (kept_at h x) \<subseteq> set (co @ [c])"
      using dist Nil subR closed dc by simp_all
    ultimately show ?thesis using dc red by blast
  next
    case (Cons n rest)
    have lt: "card (R - set (co @ [c])) < card (R - set co)"
      using cR g by (intro psubset_card_mono) (auto simp: graph_def)
    have "dom cm' = set ((co @ [c]) @ n # rest)" "distinct ((co @ [c]) @ n # rest)" using dom' dist Cons by simp_all
    from less.hyps [OF lt this subR closed cyc red] show ?thesis using step Cons by simp
  qed
qed

section \<open>Gray phase\<close>

definition nv :: "count_map \<Rightarrow> addr \<Rightarrow> nat" where
  "nv nm y = unat (count_of nm y)"

lemma nv_upd [simp]: "nv (nm(f \<mapsto> k)) y = (if y = f then unat k else nv nm y)"
  by (simp add: nv_def count_of_def)

lemma color_of_upd [simp]: "color_of (cm(f \<mapsto> k)) y = (if y = f then k else color_of cm y)"
  by (simp add: color_of_def)

definition of_color :: "object_color \<Rightarrow> color_map \<Rightarrow> addr set" where
  "of_color k cm = {x. color_of cm x = k}"

lemma of_color_iff [simp]: "x \<in> of_color k cm \<longleftrightarrow> color_of cm x = k"
  by (simp add: of_color_def)

fun gray_list :: "heap \<Rightarrow> addr list \<Rightarrow> color_map \<Rightarrow> count_map \<Rightarrow> addr list \<Rightarrow> color_map \<times> count_map \<times> addr list" where
  "gray_list h [] cm nm stk = (cm, nm, stk)"
| "gray_list h (f # fs) cm nm stk =
     (if color_of cm f = gray
      then gray_list h fs cm (if 0 < count_of nm f then nm(f \<mapsto> count_of nm f - 1) else nm) stk
      else gray_list h fs (cm(f \<mapsto> gray)) (nm(f \<mapsto> count (the (h f)) - 1)) (f # stk))"

lemma gray_fields_list:
  assumes "h c = Some ob" "\<forall>i \<in> set is. i < length (slots ob)" "\<forall>f \<in> set (some_at ob is). h f \<noteq> None"
  shows "gray_fields c is h cm nm stk = Some (gray_list h (some_at ob is) cm nm stk)"
  using assms(2,3)
  by (induction "is" arbitrary: cm nm stk) (auto simp: get_object_field_Some [of h c ob] assms(1))

lemma gray_list_spec:
  assumes "gray_list h fs cm nm stk = (cm', nm', stk')" "\<forall>f \<in> set fs. h f \<noteq> None"
    "\<forall>y. count_list fs y \<le> (if y \<in> of_color gray cm then nv nm y else cnt h y)"
  shows "of_color gray cm' = of_color gray cm \<union> set fs \<and>
    (\<forall>y \<in> of_color gray cm'. nv nm' y + count_list fs y = (if y \<in> of_color gray cm then nv nm y else cnt h y)) \<and>
    (\<exists>new. stk' = new @ stk \<and> distinct new \<and> set new = set fs - of_color gray cm)"
  using assms
proof (induction fs arbitrary: cm nm stk)
  case Nil
  then show ?case by auto
next
  case (Cons f fs)
  have nz: "0 < (if f \<in> of_color gray cm then nv nm f else cnt h f)" using Cons.prems(3) [rule_format, of f] by simp
  have h: "\<forall>f \<in> set fs. h f \<noteq> None" using Cons.prems(2) by simp
  show ?case
  proof (cases "color_of cm f = gray")
    case True
    let ?nm = "nm(f \<mapsto> count_of nm f - 1)"
    have pos: "0 < count_of nm f" using nz True by (simp add: nv_def unat_gt_0 word_greater_zero_iff)
    then have eq: "gray_list h fs cm ?nm stk = (cm', nm', stk')" using Cons.prems(1) True by simp
    have "nv ?nm f = unat (count_of nm f - 1)" by simp
    then have nvf: "nv ?nm f = nv nm f - 1" using nz True unat_dec [of "count_of nm f"] by (simp add: nv_def)
    have pre: "\<forall>y. count_list fs y \<le> (if y \<in> of_color gray cm then nv ?nm y else cnt h y)"
    proof
      fix y show "count_list fs y \<le> (if y \<in> of_color gray cm then nv ?nm y else cnt h y)"
        using Cons.prems(3) [rule_format, of y] nvf True nz by (cases "y = f") auto
    qed
    from Cons.IH [OF eq h pre] obtain new where r: "of_color gray cm' = of_color gray cm \<union> set fs"
      "\<forall>y \<in> of_color gray cm'. nv nm' y + count_list fs y = (if y \<in> of_color gray cm then nv ?nm y else cnt h y)"
      "stk' = new @ stk" "distinct new" "set new = set fs - of_color gray cm" by blast
    have "\<forall>y \<in> of_color gray cm'. nv nm' y + count_list (f # fs) y = (if y \<in> of_color gray cm then nv nm y else cnt h y)"
      using r(2) nvf nz True by auto
    moreover have "f \<in> of_color gray cm" using True by simp
    ultimately show ?thesis using r(1,3,4,5) by (intro conjI exI [of _ new]) auto
  next
    case False
    let ?nm = "nm(f \<mapsto> count (the (h f)) - 1)" and ?cm = "cm(f \<mapsto> gray)"
    have eq: "gray_list h fs ?cm ?nm (f # stk) = (cm', nm', stk')" using Cons.prems(1) False by simp
    obtain fob where fob: "h f = Some fob" using Cons.prems(2) by auto
    have nvf: "nv ?nm f = cnt h f - 1" "0 < cnt h f" using nz False fob by (simp_all add: cnt_def unat_dec)
    have G: "of_color gray ?cm = insert f (of_color gray cm)" by (auto split: if_splits)
    have pre: "\<forall>y. count_list fs y \<le> (if y \<in> of_color gray ?cm then nv ?nm y else cnt h y)"
    proof
      fix y show "count_list fs y \<le> (if y \<in> of_color gray ?cm then nv ?nm y else cnt h y)"
        using Cons.prems(3) [rule_format, of y] nvf False by (cases "y = f") auto
    qed
    from Cons.IH [OF eq h pre] obtain new where r: "of_color gray cm' = of_color gray ?cm \<union> set fs"
      "\<forall>y \<in> of_color gray cm'. nv nm' y + count_list fs y = (if y \<in> of_color gray ?cm then nv ?nm y else cnt h y)"
      "stk' = new @ f # stk" "distinct new" "set new = set fs - of_color gray ?cm" by blast
    have "nv nm' y + count_list (f # fs) y = (if y \<in> of_color gray cm then nv nm y else cnt h y)"
      if "y \<in> of_color gray cm'" for y
      using r(2) that nvf False by (cases "y = f") auto
    then show ?thesis using r(1,3,4,5) G False by (intro conjI exI [of _ "new @ [f]"]) auto
  qed
qed

lemma gray_object:
  assumes g: "graph R h" "c \<in> R" and l: "gray_list h (kept_at h c) cm nm stk = (cm', nm', stk')"
  shows "gray_phase c h cm nm stk = (case stk' of [] \<Rightarrow> Some (cm', nm') | n # rest \<Rightarrow> gray_phase n h cm' nm' rest)"
proof -
  obtain ob where ob: "h c = Some ob" "unat (field_length ob) = length (slots ob)" "kept_at h c = kept ob"
    using graph_readable [OF g] by (rule readableE)
  have "\<forall>f \<in> set (kept ob). h f \<noteq> None"
    using graph_closed [OF g] graph_readable [OF g(1)] ob(3) by (force simp: readable_def)
  then have "gray_fields c [0..<length (slots ob)] h cm nm stk = Some (cm', nm', stk')"
    using gray_fields_list [of h c ob "[0..<length (slots ob)]"] ob some_at_all [of ob] l by simp
  then show ?thesis by (subst gray_phase.simps) (simp add: ob split: list.split)
qed

lemma gray_phase_spec:
  assumes g: "graph R h" and enough: "\<forall>y\<in>R. (\<Sum>q\<in>R. refs h q y) \<le> cnt h y"
    and inv: "of_color gray cm = Dn \<union> set (c # stk)" "Dn \<inter> set (c # stk) = {}" "distinct (c # stk)"
      "of_color gray cm \<subseteq> R" "\<forall>x\<in>Dn. set (kept_at h x) \<subseteq> of_color gray cm"
      "\<forall>y \<in> of_color gray cm. nv nm y + (\<Sum>q\<in>Dn. refs h q y) = cnt h y"
  shows "\<exists>cm' nm'. gray_phase c h cm nm stk = Some (cm', nm') \<and> of_color gray cm \<subseteq> of_color gray cm' \<and>
     of_color gray cm' \<subseteq> R \<and> (\<forall>x \<in> of_color gray cm'. set (kept_at h x) \<subseteq> of_color gray cm') \<and>
     (\<forall>y \<in> of_color gray cm'. nv nm' y + (\<Sum>q \<in> of_color gray cm'. refs h q y) = cnt h y)"
  using inv
proof (induction "card (R - Dn)" arbitrary: cm nm Dn c stk rule: less_induct)
  case less
  have fin: "finite R" using g by (simp add: graph_def)
  have cR: "c \<in> R" "c \<notin> Dn" and DnR: "Dn \<subseteq> R" using less.prems by auto
  have finD: "finite Dn" using fin DnR by (rule rev_finite_subset)
  obtain cm' nm' stk' where gl: "gray_list h (kept_at h c) cm nm stk = (cm', nm', stk')"
    by (cases "gray_list h (kept_at h c) cm nm stk") auto
  have kR: "set (kept_at h c) \<subseteq> R" using graph_closed [OF g cR(1)] by blast
  have some: "\<forall>f \<in> set (kept_at h c). h f \<noteq> None"
    using kR graph_readable [OF g] by (force simp: readable_def)
  have sumD: "(\<Sum>q\<in>insert c Dn. refs h q y) = refs h c y + (\<Sum>q\<in>Dn. refs h q y)" for y
    using finD cR(2) by simp
  have none: "(\<Sum>q\<in>Dn. refs h q y) = 0" if "y \<notin> of_color gray cm" "y \<noteq> nullptr" for y
  proof -
    have "y \<notin> set (kept_at h q)" if "q \<in> Dn" for q
      using less.prems(5) that \<open>y \<notin> of_color gray cm\<close> by blast
    then show ?thesis using that(2) by (simp add: refs_kept count_list_0_iff)
  qed
  have pre: "\<forall>y. count_list (kept_at h c) y \<le> (if y \<in> of_color gray cm then nv nm y else cnt h y)"
  proof
    fix y
    show "count_list (kept_at h c) y \<le> (if y \<in> of_color gray cm then nv nm y else cnt h y)"
    proof (cases "y \<in> set (kept_at h c)")
      case False
      then show ?thesis by (simp add: count_list_0_iff)
    next
      case True
      then have y: "y \<in> R" "y \<noteq> nullptr" using kR g by (auto simp: graph_def)
      have "(\<Sum>q\<in>insert c Dn. refs h q y) \<le> (\<Sum>q\<in>R. refs h q y)"
        using fin DnR cR by (intro sum_mono2) auto
      then have "refs h c y + (\<Sum>q\<in>Dn. refs h q y) \<le> cnt h y" using enough y(1) sumD by fastforce
      then show ?thesis
        using less.prems(6) [rule_format, of y] none [of y] refs_kept [OF y(2), of h c] y(2) by auto
    qed
  qed
  from gray_list_spec [OF gl some pre] obtain new where r:
    "of_color gray cm' = of_color gray cm \<union> set (kept_at h c)"
    "\<forall>y \<in> of_color gray cm'. nv nm' y + count_list (kept_at h c) y = (if y \<in> of_color gray cm then nv nm y else cnt h y)"
    "stk' = new @ stk" "distinct new" "set new = set (kept_at h c) - of_color gray cm" by blast
  have subR: "of_color gray cm' \<subseteq> R" using r(1) less.prems(4) kR by blast
  have inv1: "of_color gray cm' = insert c Dn \<union> set stk'" using r(1,3,5) less.prems(1) by auto
  have inv2: "insert c Dn \<inter> set stk' = {}" "distinct stk'" using r(3,4,5) less.prems(1,2,3) by auto
  have inv5: "\<forall>x \<in> insert c Dn. set (kept_at h x) \<subseteq> of_color gray cm'" using r(1) less.prems(5) by blast
  have inv6: "\<forall>y \<in> of_color gray cm'. nv nm' y + (\<Sum>q\<in>insert c Dn. refs h q y) = cnt h y"
  proof
    fix y assume y: "y \<in> of_color gray cm'"
    then have "y \<noteq> nullptr" using subR g by (auto simp: graph_def)
    then show "nv nm' y + (\<Sum>q\<in>insert c Dn. refs h q y) = cnt h y"
      using bspec [OF r(2) y] sumD none [of y] less.prems(6) [rule_format, of y] refs_kept [of y h c]
      by (auto split: if_splits)
  qed
  have mono: "of_color gray cm \<subseteq> of_color gray cm'" using r(1) by simp
  show ?case
  proof (cases stk')
    case Nil
    then have "gray_phase c h cm nm stk = Some (cm', nm')" using gray_object [OF g cR(1) gl] by simp
    moreover have "of_color gray cm' = insert c Dn" using inv1 Nil by simp
    ultimately show ?thesis using mono subR inv5 inv6 by (intro exI [of _ cm'] exI [of _ nm']) simp
  next
    case (Cons n rest)
    have lt: "card (R - insert c Dn) < card (R - Dn)" using cR fin by (intro psubset_card_mono) auto
    from less.hyps [OF lt inv1 [unfolded Cons] inv2 [unfolded Cons] subR inv5 inv6] mono
    show ?thesis using gray_object [OF g cR(1) gl] Cons by auto
  qed
qed

section \<open>White phase\<close>

definition white_step :: "object_color \<Rightarrow> addr \<Rightarrow> color_map \<Rightarrow> count_map \<Rightarrow> addr list \<Rightarrow> color_map \<times> count_map \<times> addr list" where
  "white_step k f cm nm stk =
     (if k = white then
        if count_of nm f = 0 then
          if color_of cm f = gray then (cm(f \<mapsto> white), nm, f # stk) else (cm, nm, stk)
        else (cm(f \<mapsto> black), nm, if color_of cm f \<noteq> black then f # stk else stk)
      else if k = black then
        if color_of cm f \<noteq> black then (cm(f \<mapsto> black), nm(f \<mapsto> count_of nm f + 1), f # stk)
        else (cm, nm(f \<mapsto> count_of nm f + 1), stk)
      else (cm, nm, stk))"

fun white_list :: "object_color \<Rightarrow> addr list \<Rightarrow> color_map \<Rightarrow> count_map \<Rightarrow> addr list \<Rightarrow> color_map \<times> count_map \<times> addr list" where
  "white_list k [] cm nm stk = (cm, nm, stk)"
| "white_list k (f # fs) cm nm stk = (case white_step k f cm nm stk of (cm, nm, stk) \<Rightarrow> white_list k fs cm nm stk)"

lemma white_fields_list:
  assumes "h c = Some ob" "\<forall>i \<in> set is. i < length (slots ob)"
  shows "white_fields k c is h cm nm stk = Some (white_list k (some_at ob is) cm nm stk)"
  using assms(2)
  by (induction "is" arbitrary: cm nm stk)
    (auto simp: get_object_field_Some [of h c ob] assms(1) white_step_def Let_def)

text \<open>How often an object may still be processed: once more for every step its colour can take,
  and once for each place it has on the stack.\<close>

definition rem :: "color_map \<Rightarrow> addr list \<Rightarrow> addr \<Rightarrow> nat" where
  "rem cm S x = (case color_of cm x of gray \<Rightarrow> 2 | white \<Rightarrow> 1 | _ \<Rightarrow> 0) + count_list S x"

text \<open>
  \<open>e\<close> are the counts after the gray phase, \<open>B\<close> the objects that can be reached from one that is
  held from outside, \<open>fs\<close> the fields of the current object still to be visited. The last
  clause bounds the counts, so they do not wrap around.
\<close>

definition white_inv :: "addr set \<Rightarrow> heap \<Rightarrow> (addr \<Rightarrow> nat) \<Rightarrow> addr set \<Rightarrow> color_map \<Rightarrow> count_map \<Rightarrow> addr list \<Rightarrow> addr list \<Rightarrow> bool" where
  "white_inv R h e B cm nm S fs \<longleftrightarrow> set S \<subseteq> R \<and> (\<forall>x \<in> set S. color_of cm x \<noteq> gray) \<and>
     (\<forall>y\<in>R. color_of cm y \<noteq> red \<and> (0 < nv nm y \<or> color_of cm y = black \<longrightarrow> y \<in> B) \<and>
       (color_of cm y = white \<longrightarrow> nv nm y = 0) \<and> e y \<le> nv nm y \<and>
       nv nm y + (\<Sum>x\<in>R. rem cm S x * refs h x y) + count_list fs y \<le> 2 * cnt h y)"

definition advance :: "color_map \<Rightarrow> addr list \<Rightarrow> color_map \<Rightarrow> addr list \<Rightarrow> bool" where
  "advance cm S cm' S' \<longleftrightarrow> set S \<subseteq> set S' \<and> (\<forall>x. color_of cm' x \<noteq> color_of cm x \<longrightarrow> x \<in> set S') \<and>
     (\<forall>y. color_of cm y \<noteq> gray \<longrightarrow> color_of cm' y \<noteq> gray) \<and>
     (\<forall>y. color_of cm y = black \<longrightarrow> color_of cm' y = black) \<and> (\<forall>x. rem cm' S' x \<le> rem cm S x)"

lemma advance_refl: "advance cm S cm S"
  by (simp add: advance_def)

lemma advance_trans:
  assumes "advance cm S cm1 S1" "advance cm1 S1 cm2 S2"
  shows "advance cm S cm2 S2"
proof -
  have "rem cm2 S2 x \<le> rem cm S x" for x using assms by (auto simp: advance_def intro: order_trans)
  moreover have "x \<in> set S2" if "color_of cm2 x \<noteq> color_of cm x" for x
    using assms that unfolding advance_def by (metis subsetD)
  ultimately show ?thesis using assms by (auto simp: advance_def)
qed

definition settled :: "heap \<Rightarrow> color_map \<Rightarrow> addr \<Rightarrow> bool" where
  "settled h cm x \<longleftrightarrow> (color_of cm x = white \<longrightarrow> (\<forall>y \<in> set (kept_at h x). color_of cm y \<noteq> gray)) \<and>
     (color_of cm x = black \<longrightarrow> (\<forall>y \<in> set (kept_at h x). color_of cm y = black))"

lemma settled_advance:
  assumes "settled h cm x" "advance cm S cm' S'" "x \<notin> set S'"
  shows "settled h cm' x"
proof -
  have "color_of cm' x = color_of cm x" using assms(2,3) unfolding advance_def by blast
  then show ?thesis using assms(1,2) unfolding settled_def advance_def by simp
qed

lemma white_step_inv:
  assumes st: "white_step k f cm nm S = (cm', nm', S')" and inv: "white_inv R h e B cm nm S (f # fs)"
    and fR: "f \<in> R" and c: "color_of cm c = k" "k = white \<or> k = black" "k = black \<longrightarrow> f \<in> B"
    and small: "2 * cnt h f < 2 ^ 64"
  shows "white_inv R h e B cm' nm' S' fs \<and> advance cm S cm' S' \<and> color_of cm' c = k \<and>
    color_of cm' f \<noteq> gray \<and> (k = black \<longrightarrow> color_of cm' f = black)"
proof -
  have f: "color_of cm f \<noteq> red" "0 < nv nm f \<or> color_of cm f = black \<longrightarrow> f \<in> B" "color_of cm f = white \<longrightarrow> nv nm f = 0"
    "nv nm f + 1 \<le> 2 * cnt h f"
    using inv fR by (auto simp: white_inv_def)
  have nz: "nv nm f = 0 \<longleftrightarrow> count_of nm f = 0" by (simp add: nv_def unat_eq_0)
  have inc: "unat (count_of nm f + 1) = nv nm f + 1"
    unfolding nv_def by (rule unat_inc) (use f(4) small in \<open>simp add: nv_def\<close>)
  have adv: "advance cm S cm' S'"
    using st c(2) f by (auto simp: white_step_def advance_def rem_def split: if_splits object_color.splits)
  have colf: "color_of cm' f \<noteq> gray" "k = black \<longrightarrow> color_of cm' f = black"
    using st c(2) by (auto simp: white_step_def split: if_splits)
  have colc: "color_of cm' c = k"
    using st c(1,2) f nz by (auto simp: white_step_def split: if_splits)
  have "(\<Sum>x\<in>R. rem cm' S' x * refs h x y) \<le> (\<Sum>x\<in>R. rem cm S x * refs h x y)" for y
    using adv by (intro sum_mono mult_right_mono) (auto simp: advance_def)
  moreover have nv': "nv nm' y = nv nm y \<or> (nv nm' y = nv nm y + 1 \<and> y = f \<and> k = black)" for y
    using st inc by (auto simp: white_step_def split: if_splits)
  ultimately have bound: "nv nm' y + (\<Sum>x\<in>R. rem cm' S' x * refs h x y) + count_list fs y \<le> 2 * cnt h y"
    if "y \<in> R" for y
  proof -
    have "nv nm y + (\<Sum>x\<in>R. rem cm S x * refs h x y) + count_list (f # fs) y \<le> 2 * cnt h y"
      using inv that by (simp add: white_inv_def)
    moreover have "nv nm' y + count_list fs y \<le> nv nm y + count_list (f # fs) y" using nv' [of y] by auto
    ultimately show ?thesis
      using \<open>\<And>y. (\<Sum>x\<in>R. rem cm' S' x * refs h x y) \<le> (\<Sum>x\<in>R. rem cm S x * refs h x y)\<close> [of y] by linarith
  qed
  have S': "set S' \<subseteq> R" "\<forall>x \<in> set S'. color_of cm' x \<noteq> gray"
    using st inv fR c(2) by (auto simp: white_step_def white_inv_def split: if_splits)
  have other: "color_of cm' y = color_of cm y \<and> nv nm' y = nv nm y" if "y \<noteq> f" for y
    using st that by (auto simp: white_step_def split: if_splits)
  have "color_of cm' y \<noteq> red \<and> (0 < nv nm' y \<or> color_of cm' y = black \<longrightarrow> y \<in> B) \<and>
       (color_of cm' y = white \<longrightarrow> nv nm' y = 0) \<and> e y \<le> nv nm' y" if y: "y \<in> R" for y
  proof (cases "y = f")
    case False
    then show ?thesis using other inv y by (simp add: white_inv_def)
  next
    case True
    have "e f \<le> nv nm f" using inv fR by (simp add: white_inv_def)
    then show ?thesis
      using True st c(2,3) f nz inc by (auto simp: white_step_def split: if_splits)
  qed
  then have "white_inv R h e B cm' nm' S' fs" using S' bound by (simp add: white_inv_def)
  then show ?thesis using adv colf colc by simp
qed

lemma white_list_inv:
  assumes "white_list k fs cm nm S = (cm', nm', S')" "white_inv R h e B cm nm S fs"
    "set fs \<subseteq> R" "color_of cm c = k" "k = white \<or> k = black" "k = black \<longrightarrow> set fs \<subseteq> B"
    "\<forall>y\<in>R. 2 * cnt h y < 2 ^ 64"
  shows "white_inv R h e B cm' nm' S' [] \<and> advance cm S cm' S' \<and> color_of cm' c = k \<and>
    (\<forall>f \<in> set fs. color_of cm' f \<noteq> gray \<and> (k = black \<longrightarrow> color_of cm' f = black))"
  using assms
proof (induction fs arbitrary: cm nm S)
  case Nil
  then show ?case by (simp add: advance_refl)
next
  case (Cons f fs)
  obtain cm1 nm1 S1 where st: "white_step k f cm nm S = (cm1, nm1, S1)"
    by (cases "white_step k f cm nm S") auto
  have f: "f \<in> R" "k = black \<longrightarrow> f \<in> B" "2 * cnt h f < 2 ^ 64" using Cons.prems(3,6,7) by auto
  from white_step_inv [OF st Cons.prems(2) f(1) Cons.prems(4,5) f(2,3)] have
    s: "white_inv R h e B cm1 nm1 S1 fs" "advance cm S cm1 S1" "color_of cm1 c = k"
      "color_of cm1 f \<noteq> gray" "k = black \<longrightarrow> color_of cm1 f = black" by auto
  have rest: "white_list k fs cm1 nm1 S1 = (cm', nm', S')" using Cons.prems(1) st by simp
  have fs: "set fs \<subseteq> R" "k = black \<longrightarrow> set fs \<subseteq> B" using Cons.prems(3,6) by auto
  from Cons.IH [OF rest s(1) fs(1) s(3) Cons.prems(5) fs(2) Cons.prems(7)] have
    r: "white_inv R h e B cm' nm' S' []" "advance cm1 S1 cm' S'" "color_of cm' c = k"
      "\<forall>f \<in> set fs. color_of cm' f \<noteq> gray \<and> (k = black \<longrightarrow> color_of cm' f = black)" by auto
  have "color_of cm' f \<noteq> gray \<and> (k = black \<longrightarrow> color_of cm' f = black)"
    using s(4,5) r(2) by (simp add: advance_def)
  then show ?case using r advance_trans [OF s(2) r(2)] by simp
qed

lemma white_object:
  assumes g: "graph R h" "c \<in> R" and l: "white_list (color_of cm c) (kept_at h c) cm nm stk = (cm', nm', stk')"
  shows "white_phase c h cm nm stk = (case stk' of [] \<Rightarrow> Some (cm', nm') | n # rest \<Rightarrow> white_phase n h cm' nm' rest)"
proof -
  obtain ob where ob: "h c = Some ob" "unat (field_length ob) = length (slots ob)" "kept_at h c = kept ob"
    using graph_readable [OF g] by (rule readableE)
  then have "white_fields (color_of cm c) c [0..<length (slots ob)] h cm nm stk = Some (cm', nm', stk')"
    using white_fields_list [of h c ob "[0..<length (slots ob)]"] some_at_all [of ob] l by simp
  then show ?thesis by (subst white_phase.simps) (simp add: ob split: list.split)
qed

text \<open>Taking the current object off the stack pays for one visit of each of its fields.\<close>

lemma white_inv_pop:
  assumes "white_inv R h e B cm nm (c # stk) []" "finite R" "nullptr \<notin> R"
  shows "white_inv R h e B cm nm stk (kept_at h c)"
proof -
  have c: "c \<in> R" using assms(1) by (simp add: white_inv_def)
  have "(\<Sum>x\<in>R. rem cm (c # stk) x * refs h x y) = (\<Sum>x\<in>R. rem cm stk x * refs h x y) + count_list (kept_at h c) y"
    if "y \<in> R" for y
  proof -
    have "rem cm (c # stk) x * refs h x y = rem cm stk x * refs h x y + (if x = c then refs h c y else 0)" for x
      by (simp add: rem_def algebra_simps)
    moreover have "refs h c y = count_list (kept_at h c) y" using that assms(3) by (intro refs_kept) auto
    ultimately show ?thesis using assms(2) c by (simp add: sum.distrib)
  qed
  then show ?thesis using assms(1) by (auto simp: white_inv_def)
qed

lemma white_phase_spec:
  assumes g: "graph R h" and small: "\<forall>y\<in>R. 2 * cnt h y < 2 ^ 64" and B: "\<forall>x\<in>B. set (kept_at h x) \<subseteq> B"
    and inv: "white_inv R h e B cm nm (c # stk) []" "\<forall>x \<in> R - set (c # stk). settled h cm x"
      "color_of cm root \<noteq> gray"
  shows "\<exists>cm' nm'. white_phase c h cm nm stk = Some (cm', nm') \<and> white_inv R h e B cm' nm' [] [] \<and>
     (\<forall>x\<in>R. settled h cm' x) \<and> color_of cm' root \<noteq> gray"
  using inv
proof (induction "\<Sum>x\<in>R. rem cm (c # stk) x" arbitrary: cm nm c stk rule: less_induct)
  case less
  have fin: "finite R" "nullptr \<notin> R" using g by (simp_all add: graph_def)
  have c: "c \<in> R" "color_of cm c \<noteq> gray" "color_of cm c \<noteq> red" "color_of cm c = black \<longrightarrow> c \<in> B"
    using less.prems(1) by (auto simp: white_inv_def)
  then have k: "color_of cm c = white \<or> color_of cm c = black" by (cases "color_of cm c") auto
  have kR: "set (kept_at h c) \<subseteq> R" using graph_closed [OF g c(1)] by blast
  have kB: "color_of cm c = black \<longrightarrow> set (kept_at h c) \<subseteq> B" using c(4) B by blast
  obtain cm' nm' stk' where wl: "white_list (color_of cm c) (kept_at h c) cm nm stk = (cm', nm', stk')"
    by (cases "white_list (color_of cm c) (kept_at h c) cm nm stk") auto
  from white_list_inv [OF wl white_inv_pop [OF less.prems(1) fin] kR refl k kB small] have
    r: "white_inv R h e B cm' nm' stk' []" "advance cm stk cm' stk'" "color_of cm' c = color_of cm c"
      "\<forall>f \<in> set (kept_at h c). color_of cm' f \<noteq> gray \<and> (color_of cm c = black \<longrightarrow> color_of cm' f = black)" by auto
  have st: "\<forall>x \<in> R - set stk'. settled h cm' x"
  proof
    fix x assume x: "x \<in> R - set stk'"
    show "settled h cm' x"
    proof (cases "x = c")
      case True
      then show ?thesis using r(3,4) by (simp add: settled_def)
    next
      case False
      moreover have "x \<notin> set stk" using x r(2) unfolding advance_def by blast
      ultimately have "settled h cm x" using less.prems(2) x by simp
      then show ?thesis by (rule settled_advance [OF _ r(2)]) (use x in simp)
    qed
  qed
  have ng: "color_of cm' root \<noteq> gray" using less.prems(3) r(2) by (simp add: advance_def)
  show ?case
  proof (cases stk')
    case Nil
    then have "white_phase c h cm nm stk = Some (cm', nm')" using white_object [OF g c(1) wl] by simp
    then show ?thesis using r(1) st ng Nil by auto
  next
    case (Cons n rest)
    have "(\<Sum>x\<in>R. rem cm' stk' x) \<le> (\<Sum>x\<in>R. rem cm stk x)"
      using r(2) by (intro sum_mono) (simp add: advance_def)
    also have "\<dots> < (\<Sum>x\<in>R. rem cm (c # stk) x)"
      using fin(1) c(1) by (intro sum_strict_mono_ex1) (auto simp: rem_def)
    finally have lt: "(\<Sum>x\<in>R. rem cm' (n # rest) x) < (\<Sum>x\<in>R. rem cm (c # stk) x)" using Cons by simp
    from less.hyps [OF lt r(1) [unfolded Cons] st [unfolded Cons] ng] show ?thesis
      using white_object [OF g c(1) wl] Cons by simp
  qed
qed

section \<open>The marking as a whole\<close>

definition reach :: "heap \<Rightarrow> addr \<Rightarrow> addr set" where
  "reach h root = {x. (root, x) \<in> (edges h)\<^sup>*}"

lemma root_reach [simp]: "root \<in> reach h root"
  by (simp add: reach_def)

lemma reach_closed: "x \<in> reach h root \<Longrightarrow> set (kept_at h x) \<subseteq> reach h root"
  by (auto simp: reach_def edges_iff intro: rtrancl_into_rtrancl)

lemma reach_least:
  assumes "root \<in> A" "\<And>x. x \<in> A \<Longrightarrow> set (kept_at h x) \<subseteq> A"
  shows "reach h root \<subseteq> A"
proof
  fix x assume "x \<in> reach h root"
  then have "(root, x) \<in> (edges h)\<^sup>*" by (simp add: reach_def)
  from path_in_closed [OF this assms refl] show "x \<in> A" by simp
qed

text \<open>The objects among \<open>R\<close> that a reference from outside of \<open>R\<close> leads to.\<close>

definition held :: "addr set \<Rightarrow> heap \<Rightarrow> addr set" where
  "held R h = {x. \<exists>y\<in>R. (\<Sum>q\<in>R. refs h q y) < cnt h y \<and> (y, x) \<in> (edges h)\<^sup>*}"

lemma held_closed: "x \<in> held R h \<Longrightarrow> set (kept_at h x) \<subseteq> held R h"
proof
  fix f assume x: "x \<in> held R h" and f: "f \<in> set (kept_at h x)"
  obtain y where y: "y \<in> R" "(\<Sum>q\<in>R. refs h q y) < cnt h y" "(y, x) \<in> (edges h)\<^sup>*"
    using x by (auto simp: held_def)
  have "(x, f) \<in> edges h" using f by (simp add: edges_iff)
  with y(3) have "(y, f) \<in> (edges h)\<^sup>*" by (rule rtrancl_into_rtrancl)
  then show "f \<in> held R h" using y(1,2) by (auto simp: held_def)
qed

text \<open>The result of the white phase: white is what is not held.\<close>

lemma white_result:
  assumes R: "R = reach h root" and inv: "white_inv R h e (held R h) cm nm [] []" "\<forall>x\<in>R. settled h cm x"
    "color_of cm root \<noteq> gray" and e: "\<forall>y\<in>R. e y + (\<Sum>q\<in>R. refs h q y) = cnt h y"
  shows "x \<in> R \<Longrightarrow> color_of cm x = (if x \<in> held R h then black else white)"
proof -
  have all: "color_of cm y \<noteq> gray" if y: "y \<in> R" for y
  proof -
    have "reach h root \<subseteq> {y \<in> R. color_of cm y \<noteq> gray}"
    proof (rule reach_least)
      show "root \<in> {y \<in> R. color_of cm y \<noteq> gray}" using R inv(3) by simp
      fix z assume z: "z \<in> {y \<in> R. color_of cm y \<noteq> gray}"
      then have "color_of cm z = white \<or> color_of cm z = black"
        using inv(1) by (cases "color_of cm z") (auto simp: white_inv_def)
      then show "set (kept_at h z) \<subseteq> {y \<in> R. color_of cm y \<noteq> gray}"
        using z inv(2) reach_closed [of z h root] R by (auto simp: settled_def)
    qed
    then show ?thesis using y R by auto
  qed
  have wb: "color_of cm y = white \<or> color_of cm y = black" if "y \<in> R" for y
    using all [OF that] inv(1) that by (cases "color_of cm y") (auto simp: white_inv_def)
  have start: "color_of cm y = black" if y: "y \<in> R" "(\<Sum>q\<in>R. refs h q y) < cnt h y" for y
  proof -
    have "0 < e y" using e y by force
    then have "0 < nv nm y" using inv(1) y(1) by (fastforce simp: white_inv_def)
    then show ?thesis using wb [OF y(1)] inv(1) y(1) by (auto simp: white_inv_def)
  qed
  have path: "x \<in> R \<and> color_of cm x = black" if "(y, x) \<in> (edges h)\<^sup>*" "y \<in> R" "color_of cm y = black" for x y
    using that
  proof (induction rule: rtrancl_induct)
    case (step z x)
    then have "x \<in> set (kept_at h z)" "settled h cm z" using inv(2) by (auto simp: edges_iff)
    then show ?case using step reach_closed [of z h root] R by (auto simp: settled_def)
  qed simp
  assume x: "x \<in> R"
  show "color_of cm x = (if x \<in> held R h then black else white)"
  proof (cases "x \<in> held R h")
    case True
    then show ?thesis using start path by (auto simp: held_def)
  next
    case False
    then show ?thesis using wb [OF x] inv(1) x by (auto simp: white_inv_def)
  qed
qed

end
