(* ===== verification/Cycle_Collector_Correct.thy ===== *)
theory Cycle_Collector_Correct
  imports Trace_Phases
begin

text \<open>
  Correctness of the cycle collector. \<open>gc_ok L T h ext cc\<close> is the state of the heap between
  collections: the objects in \<open>L\<close> are live with exact counts, those in \<open>T\<close> wait for the collector
  as a forest, and the collector's list holds exactly the objects it watches. A collection keeps
  this, with a subset of \<open>L\<close> live afterwards and the whole of the old \<open>T\<close> dead.
\<close>

section \<open>Heaps that differ in states and locks\<close>

definition mark :: "addr set \<Rightarrow> heap \<Rightarrow> heap" where
  "mark W h = (\<lambda>p. if p \<in> W then map_option (\<lambda>ob. ob\<lparr>state := waiting_for_gc\<rparr>) (h p) else h p)"

definition same_graph :: "heap \<Rightarrow> heap \<Rightarrow> bool" where
  "same_graph h h' \<longleftrightarrow> (\<forall>p. map_option (\<lambda>ob. (slots ob, count ob, field_length ob)) (h' p) =
     map_option (\<lambda>ob. (slots ob, count ob, field_length ob)) (h p))"

lemma same_graph_mark: "same_graph h (mark W h)"
  by (simp add: same_graph_def mark_def option.map_comp comp_def)

lemma same_graph_locks: "same_graph h (with_locks A h)"
  by (simp add: same_graph_def with_locks_def option.map_comp comp_def)

lemma same_graphD:
  assumes "same_graph h h'"
  shows "(h p = None \<and> h' p = None) \<or> (\<exists>ob ob'. h p = Some ob \<and> h' p = Some ob' \<and> slots ob' = slots ob \<and>
    count ob' = count ob \<and> field_length ob' = field_length ob)"
  using assms [unfolded same_graph_def, rule_format, of p] by (cases "h p"; cases "h' p") auto

lemma same_graph_facts:
  assumes "same_graph h h'"
  shows "kept_at h' p = kept_at h p" "refs h' p x = refs h p x" "cnt h' p = cnt h p" "readable h' p = readable h p"
  using same_graphD [OF assms, of p]
  by (auto simp: kept_at_def kept_def refs_def cnt_def readable_def)

lemma same_graph_edges: "same_graph h h' \<Longrightarrow> edges h' = edges h"
  by (simp add: edges_def same_graph_facts)

lemma same_graph_reach: "same_graph h h' \<Longrightarrow> reach h' r = reach h r"
  by (simp add: reach_def same_graph_edges)

lemma same_graph_held: "same_graph h h' \<Longrightarrow> held R h' = held R h"
  by (simp add: held_def same_graph_edges same_graph_facts)

lemma same_graph_graph: "same_graph h h' \<Longrightarrow> graph R h' = graph R h"
  by (simp add: graph_def same_graph_facts)

lemma mark_mark: "mark W (mark V h) = mark (V \<union> W) h"
  by (auto simp: mark_def fun_eq_iff option.map_comp comp_def)

lemma mark_empty [simp]: "mark {} h = h"
  by (simp add: mark_def)

lemma dom_mark [simp]: "dom (mark W h) = dom h"
  by (auto simp: mark_def split: if_splits)

lemma mark_locks: "mark W (with_locks A h) = with_locks A (mark W h)"
proof
  fix p show "mark W (with_locks A h) p = with_locks A (mark W h) p"
    by (cases "h p") (simp_all add: mark_def with_locks_def)
qed

lemma unlocked_mark [simp]: "unlocked A (mark W h) = unlocked A h"
proof -
  have "(\<forall>ob. mark W h p = Some ob \<longrightarrow> \<not> lock_flag ob) \<longleftrightarrow> (\<forall>ob. h p = Some ob \<longrightarrow> \<not> lock_flag ob)" for p
    by (cases "h p") (simp_all add: mark_def)
  then show ?thesis by (simp add: unlocked_def)
qed

lemma unlock_all_spec:
  assumes "set ps \<subseteq> dom h"
  shows "unlock_all ps h = Some (\<lambda>p. if p \<in> set ps then map_option (\<lambda>ob. ob\<lparr>lock_flag := False\<rparr>) (h p) else h p)"
  using assms
proof (induction ps arbitrary: h)
  case (Cons p ps)
  then obtain ob where ob: "h p = Some ob" by auto
  let ?h = "h(p \<mapsto> ob\<lparr>lock_flag := False\<rparr>)"
  have "unlock_all ps ?h =
      Some (\<lambda>q. if q \<in> set ps then map_option (\<lambda>ob. ob\<lparr>lock_flag := False\<rparr>) (?h q) else ?h q)"
    using Cons.prems by (intro Cons.IH) auto
  moreover have "(\<lambda>q. if q \<in> set ps then map_option (\<lambda>ob. ob\<lparr>lock_flag := False\<rparr>) (?h q) else ?h q) =
      (\<lambda>q. if q \<in> set (p # ps) then map_option (\<lambda>ob. ob\<lparr>lock_flag := False\<rparr>) (h q) else h q)"
    using ob by (auto simp: fun_eq_iff)
  ultimately show ?case using ob by (simp add: object_unlock_def heap_simps del: fun_upd_apply)
qed simp

lemma unlock_all_locks:
  assumes "unlocked (set ps) h" "set ps \<subseteq> dom h"
  shows "unlock_all ps (with_locks (set ps) h) = Some h"
proof -
  have d: "set ps \<subseteq> dom (with_locks (set ps) h)" using assms(2) by (auto simp: with_locks_def)
  have "(\<lambda>p. if p \<in> set ps then map_option (\<lambda>ob. ob\<lparr>lock_flag := False\<rparr>) (with_locks (set ps) h p)
      else with_locks (set ps) h p) = h"
  proof
    fix p
    show "(if p \<in> set ps then map_option (\<lambda>ob. ob\<lparr>lock_flag := False\<rparr>) (with_locks (set ps) h p)
      else with_locks (set ps) h p) = h p"
      using assms by (cases "h p") (auto simp: with_locks_def unlocked_def)
  qed
  then show ?thesis using unlock_all_spec [OF d] by simp
qed

lemma set_insert_props [simp]:
  "set (set_insert x xs) = insert x (set xs)" "distinct (set_insert x xs) = distinct xs"
  by (auto simp: set_insert_def)

lemma fold_set_insert [simp]:
  "set (fold set_insert ys xs) = set ys \<union> set xs" "distinct (fold set_insert ys xs) = distinct xs"
  by (induction ys arbitrary: xs) auto

lemma collect_white_spec:
  assumes "set ps \<subseteq> dom h"
  shows "\<exists>rel'. collect_white ps cm h rel = Some (mark {p \<in> set ps. color_of cm p = white} h, rel') \<and>
    set rel' = set rel \<union> {p \<in> set ps. color_of cm p = white} \<and> distinct rel' = distinct rel"
  using assms
proof (induction ps arbitrary: h rel)
  case (Cons p ps)
  show ?case
  proof (cases "color_of cm p = white")
    case False
    then have "{q \<in> set (p # ps). color_of cm q = white} = {q \<in> set ps. color_of cm q = white}" by auto
    then show ?thesis using Cons False by simp
  next
    case True
    obtain ob where ob: "h p = Some ob" using Cons.prems by auto
    have m: "h(p \<mapsto> ob\<lparr>state := waiting_for_gc\<rparr>) = mark {p} h" using ob by (auto simp: mark_def)
    have d: "set ps \<subseteq> dom (mark {p} h)" using Cons.prems by (auto simp: mark_def)
    have e: "{q \<in> set (p # ps). color_of cm q = white} = {p} \<union> {q \<in> set ps. color_of cm q = white}" using True by auto
    have "collect_white (p # ps) cm h rel = collect_white ps cm (mark {p} h) (set_insert p rel)"
      using True ob m by (simp add: heap_simps)
    then show ?thesis using Cons.IH [OF d, of "set_insert p rel"] unfolding e by (auto simp: mark_mark)
  qed
qed simp

section \<open>One root\<close>

lemma cyclic_root_spec:
  assumes R: "R = reach h root" and g: "graph R h" and ul: "unlocked R h"
    and enough: "\<forall>y\<in>R. (\<Sum>q\<in>R. refs h q y) \<le> cnt h y" and small: "\<forall>y\<in>R. 2 * cnt h y < 2 ^ 64"
    and co: "set co = R" and red: "\<forall>x. color_of cm x = red"
  shows "\<exists>rel'. cyclic_root root co cm (with_locks R h) rel = Some (mark (R - held R h) h, rel') \<and>
     set rel' = set rel \<union> (R - held R h) \<and> distinct rel' = distinct rel"
proof -
  let ?h = "with_locks R h"
  note sg = same_graph_locks [of h R]
  note f = same_graph_facts [OF sg] same_graph_reach [OF sg] same_graph_held [OF sg] same_graph_graph [OF sg]
  have g': "graph R ?h" using g by (simp only: f)
  have root: "root \<in> R" "root \<noteq> nullptr" using g R by (auto simp: graph_def)
  have enough': "\<forall>y\<in>R. (\<Sum>q\<in>R. refs ?h q y) \<le> cnt ?h y" and small': "\<forall>y\<in>R. 2 * cnt ?h y < 2 ^ 64"
    using enough small by (simp_all add: f)
  obtain ob where ob: "?h root = Some ob" using graph_readable [OF g' root(1)] by (auto simp: readable_def)
  have G0: "of_color gray (cm(root \<mapsto> gray)) = {} \<union> set [root]" using red by (auto split: if_splits)
  have init: "{} \<inter> set [root] = {}" "distinct [root]" "of_color gray (cm(root \<mapsto> gray)) \<subseteq> R"
    "\<forall>x\<in>{}. set (kept_at ?h x) \<subseteq> of_color gray (cm(root \<mapsto> gray))"
    using root(1) by (simp_all add: G0)
  have "\<forall>y \<in> of_color gray (cm(root \<mapsto> gray)). nv [root \<mapsto> count ob] y + (\<Sum>q\<in>{}. refs ?h q y) = cnt ?h y"
    unfolding G0 using ob by (simp add: nv_def count_of_def cnt_def)
  from gray_phase_spec [OF g' enough' G0 init this] obtain cm1 nm1 where gr: "gray_phase root ?h (cm(root \<mapsto> gray)) [root \<mapsto> count ob] [] = Some (cm1, nm1)"
    "of_color gray (cm(root \<mapsto> gray)) \<subseteq> of_color gray cm1" "of_color gray cm1 \<subseteq> R"
    "\<forall>x \<in> of_color gray cm1. set (kept_at ?h x) \<subseteq> of_color gray cm1"
    "\<forall>y \<in> of_color gray cm1. nv nm1 y + (\<Sum>q \<in> of_color gray cm1. refs ?h q y) = cnt ?h y"
    by blast
  have "reach ?h root \<subseteq> of_color gray cm1"
    by (rule reach_least) (use gr(2,4) G0 in auto)
  then have G1: "of_color gray cm1 = R" using gr(3) R f(5) by auto
  have e: "\<forall>y\<in>R. nv nm1 y + (\<Sum>q\<in>R. refs ?h q y) = cnt ?h y" using gr(5) G1 by simp
  let ?cm2 = "cm1(root \<mapsto> if count_of nm1 root = 0 then white else black)"
  have col: "color_of cm1 y = gray" if "y \<in> R" for y using G1 that by auto
  have nz: "count_of nm1 root = 0 \<longleftrightarrow> nv nm1 root = 0" by (simp add: nv_def unat_eq_0)
  have held0: "y \<in> held R ?h" if "y \<in> R" "0 < nv nm1 y" for y
    using e that unfolding held_def by (auto intro!: bexI [of _ y])
  have two: "rem ?cm2 [root] x \<le> 2" if "x \<in> R" for x
    using col [OF that] by (simp add: rem_def)
  have bound: "nv nm1 y + (\<Sum>x\<in>R. rem ?cm2 [root] x * refs ?h x y) \<le> 2 * cnt ?h y" if "y \<in> R" for y
  proof -
    have "(\<Sum>x\<in>R. rem ?cm2 [root] x * refs ?h x y) \<le> (\<Sum>x\<in>R. 2 * refs ?h x y)"
      using two by (intro sum_mono mult_right_mono) auto
    then show ?thesis using e that by (fastforce simp: sum_distrib_left [symmetric])
  qed
  have inv: "white_inv R ?h (nv nm1) (held R ?h) ?cm2 nm1 [root] []"
    using root(1) col held0 nz bound by (auto simp: white_inv_def)
  have "\<forall>x \<in> R - set [root]. settled ?h ?cm2 x" using col by (auto simp: settled_def)
  moreover have "\<forall>x \<in> held R ?h. set (kept_at ?h x) \<subseteq> held R ?h" using held_closed by blast
  moreover have "color_of ?cm2 root \<noteq> gray" by simp
  ultimately obtain cm3 nm3 where wh: "white_phase root ?h ?cm2 nm1 [] = Some (cm3, nm3)"
    "white_inv R ?h (nv nm1) (held R ?h) cm3 nm3 [] []" "\<forall>x\<in>R. settled ?h cm3 x" "color_of cm3 root \<noteq> gray"
    using white_phase_spec [OF g' small' _ inv] by blast
  have "R = reach ?h root" using R f(5) by simp
  note res = white_result [OF this wh(2,3,4) e]
  have whites: "{p \<in> set co. color_of cm3 p = white} = R - held R h"
    using res co f(6) by (auto split: if_splits)
  have dom: "set co \<subseteq> dom ?h" "R \<subseteq> dom h" using graph_readable [OF g'] graph_readable [OF g] co
    by (force simp: readable_def)+
  obtain rel' where cw: "collect_white co cm3 ?h rel = Some (mark (R - held R h) ?h, rel')"
    "set rel' = set rel \<union> (R - held R h)" "distinct rel' = distinct rel"
    using collect_white_spec [OF dom(1), of cm3 rel] unfolding whites by blast
  have "unlock_all co (mark (R - held R h) ?h) = Some (mark (R - held R h) h)"
    unfolding mark_locks co [symmetric] by (rule unlock_all_locks) (use ul dom co in simp_all)
  then have "cyclic_root root co cm ?h rel = Some (mark (R - held R h) h, rel')"
    using ob gr(1) wh(1) cw(1) by (simp add: cyclic_root_def del: fun_upd_apply)
  then show ?thesis using cw(2,3) by blast
qed


lemma push_fields_list:
  assumes "h c = Some ob" "\<forall>i \<in> set is. i < length (slots ob)"
  shows "push_fields c is h seen stk = Some (rev (filter (\<lambda>f. f \<notin> set seen) (some_at ob is)) @ stk)"
  using assms(2)
  by (induction "is" arbitrary: stk) (auto simp: get_object_field_Some [of h c ob] assms(1))

definition waiting_at :: "heap \<Rightarrow> addr \<Rightarrow> bool" where
  "waiting_at h p \<longleftrightarrow> map_option state (h p) = Some waiting_for_gc"

lemma ready_object:
  assumes "readable h c"
  shows "ready_to_release c h seen stk =
     (if waiting_at h c then
        case rev (filter (\<lambda>f. f \<notin> insert c (set seen)) (kept_at h c)) @ stk of
          [] \<Rightarrow> Some (True, set_insert c seen)
        | n # rest \<Rightarrow> ready_to_release n h (set_insert c seen) rest
      else Some (False, seen))"
proof -
  obtain ob where ob: "h c = Some ob" "unat (field_length ob) = length (slots ob)" "kept_at h c = kept ob"
    using assms by (rule readableE)
  have pf: "push_fields c [0..<length (slots ob)] h (set_insert c seen) stk =
      Some (rev (filter (\<lambda>f. f \<notin> insert c (set seen)) (kept ob)) @ stk)"
    using push_fields_list [of h c ob "[0..<length (slots ob)]"] ob some_at_all [of ob] by simp
  show ?thesis
    by (subst ready_to_release.simps) (simp add: ob pf waiting_at_def split: list.split)
qed

lemma ready_to_release_spec:
  assumes g: "graph R h"
    and inv: "set (c # stk) \<subseteq> R" "set seen \<subseteq> R" "distinct seen" "\<forall>x \<in> set seen. waiting_at h x"
      "\<forall>x \<in> set seen. set (kept_at h x) \<subseteq> set seen \<union> set (c # stk)"
  shows "\<exists>b ns. ready_to_release c h seen stk = Some (b, ns) \<and>
     (if b then distinct ns \<and> insert c (set seen) \<subseteq> set ns \<and> set ns \<subseteq> R \<and>
        (\<forall>x \<in> set ns. waiting_at h x \<and> set (kept_at h x) \<subseteq> set ns)
      else \<exists>x\<in>R. \<not> waiting_at h x)"
  using inv
proof (induction "(card (R - set seen), length (filter (\<lambda>x. x \<in> set seen) (c # stk)))" arbitrary: c seen stk
    rule: wf_induct_rule [OF wf_lex_prod [OF wf_less_than wf_less_than]])
  case 1
  have cR: "c \<in> R" and fin: "finite R" using 1(2) g by (auto simp: graph_def)
  note step = ready_object [OF graph_readable [OF g cR], of seen stk]
  let ?new = "rev (filter (\<lambda>f. f \<notin> insert c (set seen)) (kept_at h c))"
  show ?case
  proof (cases "waiting_at h c")
    case False
    then have "ready_to_release c h seen stk = Some (False, seen)" using step by simp
    then show ?thesis using False cR by auto
  next
    case w: True
    have kR: "set (kept_at h c) \<subseteq> R" using graph_closed [OF g cR] by blast
    have seen: "set (set_insert c seen) \<subseteq> R" "distinct (set_insert c seen)" "\<forall>x \<in> set (set_insert c seen). waiting_at h x"
      using 1(3,4,5) cR w by auto
    have cl: "\<forall>x \<in> set (set_insert c seen). set (kept_at h x) \<subseteq> set (set_insert c seen) \<union> set (?new @ stk)"
      using 1(6) by auto
    show ?thesis
    proof (cases "?new @ stk")
      case Nil
      then have "ready_to_release c h seen stk = Some (True, set_insert c seen)" using step w by simp
      moreover have "insert c (set seen) \<subseteq> set (set_insert c seen)" by simp
      moreover have "\<forall>x \<in> set (set_insert c seen). waiting_at h x \<and> set (kept_at h x) \<subseteq> set (set_insert c seen)"
        using seen(3) cl unfolding Nil by simp
      ultimately show ?thesis using seen(1,2) by (intro exI [of _ True] exI [of _ "set_insert c seen"]) simp
    next
      case (Cons n rest)
      have run: "ready_to_release c h seen stk = ready_to_release n h (set_insert c seen) rest"
        using step w Cons by simp
      have stkR: "set (n # rest) \<subseteq> R" using kR 1(2) unfolding Cons [symmetric] by auto
      have lt: "((card (R - set (set_insert c seen)), length (filter (\<lambda>x. x \<in> set (set_insert c seen)) (n # rest))),
          card (R - set seen), length (filter (\<lambda>x. x \<in> set seen) (c # stk))) \<in> less_than <*lex*> less_than"
      proof (cases "c \<in> set seen")
        case True
        have "filter (\<lambda>x. x \<in> set (set_insert c seen)) (n # rest) = filter (\<lambda>x. x \<in> set seen) stk"
          unfolding Cons [symmetric] using True by (simp add: insert_absorb filter_empty_conv)
        then show ?thesis using True by (simp add: insert_absorb)
      next
        case False
        then have "card (R - insert c (set seen)) < card (R - set seen)"
          using cR fin by (intro psubset_card_mono) auto
        then show ?thesis by simp
      qed
      from 1(1) [OF lt stkR seen(1,2,3) cl [unfolded Cons]] obtain b ns where
        r: "ready_to_release n h (set_insert c seen) rest = Some (b, ns)"
         "if b then distinct ns \<and> insert n (set (set_insert c seen)) \<subseteq> set ns \<and> set ns \<subseteq> R \<and>
            (\<forall>x \<in> set ns. waiting_at h x \<and> set (kept_at h x) \<subseteq> set ns)
          else \<exists>x\<in>R. \<not> waiting_at h x" by blast
      show ?thesis unfolding run using r by (intro exI [of _ b] exI [of _ ns]) (auto split: if_splits)
    qed
  qed
qed

lemma non_cyclic_root_spec:
  assumes R: "R = reach h root" and g: "graph R h" and ul: "unlocked R h" and co: "set co = R"
    and iter: "\<And>xs. set (iter xs) = set xs"
  shows "\<exists>rel'. non_cyclic_root iter root co (with_locks R h) rel = Some (h, rel') \<and>
     set rel' = set rel \<union> (if \<forall>x\<in>R. waiting_at h x then R else {}) \<and> distinct rel' = distinct rel"
proof -
  have dom: "set co \<subseteq> dom h" using graph_readable [OF g] co by (force simp: readable_def)
  have u: "unlock_all co (with_locks R h) = Some h"
    using unlock_all_locks [of co h] ul co dom by simp
  have init: "set [root] \<subseteq> R" "set [] \<subseteq> R" "distinct ([] :: addr list)" "\<forall>x \<in> set []. waiting_at h x"
    "\<forall>x \<in> set []. set (kept_at h x) \<subseteq> set [] \<union> set [root]" using R by simp_all
  from ready_to_release_spec [OF g init] obtain b ns where
    r: "ready_to_release root h [] [] = Some (b, ns)"
      "if b then distinct ns \<and> insert root (set []) \<subseteq> set ns \<and> set ns \<subseteq> R \<and>
            (\<forall>x \<in> set ns. waiting_at h x \<and> set (kept_at h x) \<subseteq> set ns)
          else \<exists>x\<in>R. \<not> waiting_at h x" by blast
  have "b \<Longrightarrow> set ns = R"
    using r(2) R reach_least [of root "set ns" h] by auto
  then have "if b then set ns = R \<and> (\<forall>x\<in>R. waiting_at h x) else \<not> (\<forall>x\<in>R. waiting_at h x)"
    using r(2) by (auto split: if_splits)
  then show ?thesis using u r(1) iter by (auto simp: non_cyclic_root_def split: if_splits)
qed

text \<open>What one suspected root adds to the objects to be released.\<close>

definition found :: "heap \<Rightarrow> addr \<Rightarrow> addr set" where
  "found h root = (let R = reach h root in
     if \<exists>x\<in>R. root \<in> set (kept_at h x) then R - held R h
     else if \<forall>x\<in>R. waiting_at h x then R else {})"

lemma check_root_spec:
  assumes R: "R = reach h root" and g: "graph R h" and ul: "unlocked R h"
    and counts: "(\<exists>x\<in>R. root \<in> set (kept_at h x)) \<Longrightarrow>
      (\<forall>y\<in>R. (\<Sum>q\<in>R. refs h q y) \<le> cnt h y) \<and> (\<forall>y\<in>R. 2 * cnt h y < 2 ^ 64)"
    and iter: "\<And>xs. set (iter xs) = set xs"
  shows "\<exists>rel'. check_root iter root h rel = Some (mark (found h root) h, rel') \<and>
     set rel' = set rel \<union> found h root \<and> distinct rel' = distinct rel"
proof -
  have root: "root \<in> R" using R by simp
  have red: "\<forall>x. color_of [root \<mapsto> red] x = red" by (simp add: color_of_def)
  from red_phase_spec [OF g ul _ _ _ _ _ _ red, of "[]" root "[]" root False]
  obtain cm co where r: "red_phase root root h [root \<mapsto> red] [] [] False =
      Some (with_locks (set co) h, cm, co, \<exists>x \<in> set co. root \<in> set (kept_at h x))"
    "distinct co" "set co \<subseteq> R" "root \<in> set co" "\<forall>x \<in> set co. set (kept_at h x) \<subseteq> set co" "\<forall>x. color_of cm x = red"
    using root by auto
  have co: "set co = R" using r(3,4,5) R reach_least [of root "set co" h] by auto
  show ?thesis
  proof (cases "\<exists>x\<in>R. root \<in> set (kept_at h x)")
    case True
    then have "found h root = R - held R h" by (simp add: found_def Let_def R)
    then show ?thesis
      using cyclic_root_spec [OF R g ul _ _ co r(6), of rel] counts [OF True] True r(1) co by (auto simp: check_root_def)
  next
    case False
    then have f: "found h root = (if \<forall>x\<in>R. waiting_at h x then R else {})" unfolding found_def Let_def R by simp
    have "mark (found h root) h = h"
    proof
      fix p show "mark (found h root) h p = h p"
        using f by (cases "h p") (auto simp: mark_def waiting_at_def split: if_splits)
    qed
    moreover have "check_root iter root h rel = non_cyclic_root iter root co (with_locks R h) rel"
      using False r(1) co by (simp add: check_root_def)
    ultimately show ?thesis
      using non_cyclic_root_spec [OF R g ul co iter, of rel] f by simp
  qed
qed

section \<open>All roots\<close>

text \<open>A set of live objects that nothing outside of it refers to.\<close>

definition garbage :: "addr set \<Rightarrow> heap \<Rightarrow> (addr \<Rightarrow> nat) \<Rightarrow> addr set \<Rightarrow> bool" where
  "garbage L h ext W \<longleftrightarrow> W \<subseteq> L \<and> (\<forall>w\<in>W. ext w = 0 \<and> (\<forall>q\<in>L. 0 < refs h q w \<longrightarrow> q \<in> W))"

lemma garbage_empty [simp]: "garbage L h ext {}"
  by (simp add: garbage_def)

lemma garbage_union: "garbage L h ext V \<Longrightarrow> garbage L h ext W \<Longrightarrow> garbage L h ext (V \<union> W)"
  unfolding garbage_def by blast

lemma rc_ok_kept: "rc_ok L h ext \<Longrightarrow> p \<in> L \<Longrightarrow> readable h p \<and> set (kept_at h p) \<subseteq> L"
  by (erule (1) rc_okD) (auto simp: obj_ok_def readable_def kept_at_def kept_def)

lemma rc_ok_cnt: "rc_ok L h ext \<Longrightarrow> p \<in> L \<Longrightarrow> cnt h p = ext p + (\<Sum>q\<in>L. refs h q p)"
  by (erule (1) rc_okD) (auto simp: obj_ok_def cnt_def)

lemma graph_live: "rc_ok L h ext \<Longrightarrow> graph L h"
  unfolding graph_def using rc_ok_kept [of L h ext] by (simp add: rc_ok_def)

lemma graph_reach:
  assumes "graph L h" "root \<in> L"
  shows "reach h root \<subseteq> L" "graph (reach h root) h"
proof -
  show sub: "reach h root \<subseteq> L" by (rule reach_least [OF assms(2)]) (use graph_closed [OF assms(1)] in blast)
  show "graph (reach h root) h"
    using assms(1) sub reach_closed [of _ h root] finite_subset [OF sub] unfolding graph_def by blast
qed

lemma enough_inside:
  assumes "rc_ok L h ext" "R \<subseteq> L" "y \<in> R"
  shows "(\<Sum>q\<in>R. refs h q y) \<le> cnt h y"
proof -
  have "(\<Sum>q\<in>R. refs h q y) \<le> (\<Sum>q\<in>L. refs h q y)" using assms(1,2) by (intro sum_mono2) auto
  then show ?thesis using rc_ok_cnt [OF assms(1), of y] assms(2,3) by auto
qed

lemma white_garbage:
  assumes rc: "rc_ok L h ext" and R: "R \<subseteq> L"
  shows "garbage L h ext (R - held R h)"
proof -
  have "ext w = 0 \<and> (\<forall>q\<in>L. 0 < refs h q w \<longrightarrow> q \<in> R - held R h)" if w: "w \<in> R - held R h" for w
  proof -
    have wL: "w \<in> L" "w \<noteq> nullptr" using w R rc by (auto simp: rc_ok_def)
    have "\<not> (\<Sum>q\<in>R. refs h q w) < cnt h w" using w by (auto simp: held_def)
    moreover have "(\<Sum>q\<in>L. refs h q w) = (\<Sum>q\<in>R. refs h q w) + (\<Sum>q\<in>L-R. refs h q w)"
      using rc R by (simp add: sum.subset_diff [of R L] add.commute)
    ultimately have z: "ext w = 0" "(\<Sum>q\<in>L-R. refs h q w) = 0" using rc_ok_cnt [OF rc wL(1)] by auto
    have "q \<in> R - held R h" if q: "q \<in> L" "0 < refs h q w" for q
    proof -
      have "finite (L - R)" using rc by simp
      then have "\<forall>a \<in> L - R. refs h a w = 0" using z(2) by (simp add: sum_eq_0_iff)
      then have "q \<in> R" using q by force
      moreover have "w \<in> set (kept_at h q)" using q(2) refs_kept [OF wL(2), of h q] by (simp add: count_list_0_iff flip: neq0_conv)
      then have "q \<notin> held R h" using held_closed [of q R h] w by blast
      ultimately show ?thesis by simp
    qed
    then show ?thesis using z(1) by simp
  qed
  moreover have "R - held R h \<subseteq> L" using R by blast
  ultimately show ?thesis unfolding garbage_def by (intro conjI ballI) blast+
qed

lemma mark_waiting:
  assumes "\<forall>p\<in>A. waiting_at h p"
  shows "mark A h = h"
proof
  fix p show "mark A h p = h p"
    using assms by (cases "h p") (auto simp: mark_def waiting_at_def)
qed

lemma waiting_mark: "waiting_at (mark W h) p \<longleftrightarrow> waiting_at h p \<or> (p \<in> W \<and> h p \<noteq> None)"
  by (auto simp: waiting_at_def mark_def option.map_comp comp_def)

lemma live_not_waiting: "rc_ok L h ext \<Longrightarrow> p \<in> L \<Longrightarrow> \<not> waiting_at h p \<and> h p \<noteq> None"
  by (erule (1) rc_okD) (auto simp: obj_ok_def waiting_at_def)

text \<open>The objects waiting from before the collection.\<close>

definition waiting_ok :: "addr set \<Rightarrow> heap \<Rightarrow> bool" where
  "waiting_ok T h \<longleftrightarrow> finite T \<and> nullptr \<notin> T \<and> (\<forall>p\<in>T. readable h p \<and> waiting_at h p) \<and> forest T h"

lemma graph_waiting: "waiting_ok T h \<Longrightarrow> graph T h"
  using forest_closed by (auto simp: waiting_ok_def graph_def)

lemma found_live:
  assumes rc: "rc_ok L h ext" and root: "root \<in> L" and W: "garbage L h ext W"
  shows "garbage L h ext (W \<union> found (mark W h) root)"
    "(\<exists>x \<in> reach h root. root \<in> set (kept_at h x)) \<Longrightarrow> reach h root - held (reach h root) h \<subseteq> found (mark W h) root"
proof -
  let ?R = "reach h root"
  note sg = same_graph_mark [of h W]
  have R: "?R \<subseteq> L" by (rule graph_reach(1) [OF graph_live [OF rc] root])
  have f: "found (mark W h) root = (if \<exists>x\<in>?R. root \<in> set (kept_at h x) then ?R - held ?R h
      else if \<forall>x\<in>?R. waiting_at (mark W h) x then ?R else {})"
    by (simp add: found_def Let_def same_graph_facts [OF sg] same_graph_reach [OF sg] same_graph_held [OF sg])
  have sub: "?R \<subseteq> W" if "\<forall>x\<in>?R. waiting_at (mark W h) x"
    using that live_not_waiting [OF rc] R by (auto simp: waiting_mark)
  show "garbage L h ext (W \<union> found (mark W h) root)"
    unfolding f using garbage_union [OF W white_garbage [OF rc R]] W sub by (auto simp: Un_absorb2)
  show "(\<exists>x \<in> ?R. root \<in> set (kept_at h x)) \<Longrightarrow> ?R - held ?R h \<subseteq> found (mark W h) root"
    unfolding f by simp
qed

lemma waiting_not_cyclic:
  assumes T: "waiting_ok T h" "root \<in> T" "watched_at h root" and x: "x \<in> reach h root"
  shows "root \<notin> set (kept_at h x)"
proof -
  have "x \<in> T" using graph_reach(1) [OF graph_waiting [OF T(1)] T(2)] x by blast
  then show ?thesis using T unfolding waiting_ok_def forest_def branching_def by blast
qed

lemma found_waiting:
  assumes T: "waiting_ok T h" "root \<in> T" "watched_at h root"
  shows "found (mark W h) root = reach h root" "\<forall>p \<in> reach h root. waiting_at (mark W h) p"
proof -
  let ?R = "reach h root"
  note sg = same_graph_mark [of h W]
  show w: "\<forall>p \<in> ?R. waiting_at (mark W h) p"
    using graph_reach(1) [OF graph_waiting [OF T(1)] T(2)] T(1) by (auto simp: waiting_mark waiting_ok_def)
  show "found (mark W h) root = ?R"
    using waiting_not_cyclic [OF T] w
    by (auto simp: found_def Let_def same_graph_facts [OF sg] same_graph_reach [OF sg])
qed

lemma check_roots_spec:
  assumes rc: "rc_ok L h ext" and T: "waiting_ok T h" and ul: "unlocked (L \<union> T) h"
    and small: "\<forall>p\<in>L. cnt h p < 2 ^ 63" and iter: "\<And>xs. set (iter xs) = set xs"
    and inv: "\<forall>r \<in> set roots. r \<in> L \<union> T \<and> watched_at h r" "garbage L h ext W" "set rel = W \<union> X" "distinct rel"
  shows "\<exists>W' rel'. check_roots iter roots (mark W h) rel = Some (mark W' h, rel') \<and> W \<subseteq> W' \<and> garbage L h ext W' \<and>
     set rel' = W' \<union> X \<union> (\<Union>r \<in> set roots \<inter> T. reach h r) \<and> distinct rel' \<and>
     (\<forall>r \<in> set roots \<inter> L. (\<exists>x \<in> reach h r. r \<in> set (kept_at h x)) \<longrightarrow> reach h r - held (reach h r) h \<subseteq> W')"
  using inv
proof (induction roots arbitrary: W X rel)
  case Nil
  then show ?case by auto
next
  case (Cons r roots)
  let ?R = "reach h r" and ?F = "found (mark W h) r"
  note sg = same_graph_mark [of h W]
  have r: "r \<in> L \<union> T" "watched_at h r" using Cons.prems(1) by auto
  have gR: "graph ?R h" "?R \<subseteq> L \<union> T" "r \<in> L \<Longrightarrow> ?R \<subseteq> L"
    using graph_reach [OF graph_live [OF rc], of r] graph_reach [OF graph_waiting [OF T], of r] r(1) by blast+
  have ulR: "unlocked ?R (mark W h)" using ul gR(2) unfolding unlocked_mark by (auto simp: unlocked_def)
  have counts: "(\<forall>y\<in>?R. (\<Sum>q\<in>?R. refs (mark W h) q y) \<le> cnt (mark W h) y) \<and> (\<forall>y\<in>?R. 2 * cnt (mark W h) y < 2 ^ 64)"
    if "\<exists>x\<in>?R. r \<in> set (kept_at (mark W h) x)"
  proof -
    have "r \<in> L" using that waiting_not_cyclic [OF T _ r(2)] r(1) by (auto simp: same_graph_facts [OF sg])
    then show ?thesis using gR(3) enough_inside [OF rc gR(3)] small by (fastforce simp: same_graph_facts [OF sg])
  qed
  have Rm: "?R = reach (mark W h) r" "graph ?R (mark W h)"
    using gR(1) by (simp_all add: same_graph_reach [OF sg] same_graph_graph [OF sg])
  obtain rel1 where
    c: "check_root iter r (mark W h) rel = Some (mark ?F (mark W h), rel1)" "set rel1 = set rel \<union> ?F" "distinct rel1 = distinct rel"
    using check_root_spec [OF Rm ulR counts iter, where rel = rel] by blast
  define V where "V = (if r \<in> L then W \<union> ?F else W)"
  define Y where "Y = (if r \<in> L then X else X \<union> ?R)"
  have Vm: "mark ?F (mark W h) = mark V h"
  proof (cases "r \<in> L")
    case True
    then show ?thesis by (simp add: V_def mark_mark)
  next
    case False
    then show ?thesis
      using found_waiting [OF T _ r(2), of W] r(1) mark_waiting [of ?F "mark W h"] by (simp add: V_def)
  qed
  have V: "garbage L h ext V" "set rel1 = V \<union> Y" "W \<subseteq> V"
    using found_live(1) [OF rc _ Cons.prems(2), of r] found_waiting [OF T _ r(2), of W] Cons.prems(2,3) c(2) r(1)
    by (auto simp: V_def Y_def)
  have LT: "L \<inter> T = {}" using live_not_waiting [OF rc] T by (auto simp: waiting_ok_def)
  from Cons.IH [OF _ V(1,2)] Cons.prems(1,4) c(3) obtain W' rel' where
    i: "check_roots iter roots (mark V h) rel1 = Some (mark W' h, rel')" "V \<subseteq> W'" "garbage L h ext W'"
     "set rel' = W' \<union> Y \<union> (\<Union>r \<in> set roots \<inter> T. reach h r)" "distinct rel'"
     "\<forall>r \<in> set roots \<inter> L. (\<exists>x \<in> reach h r. r \<in> set (kept_at h x)) \<longrightarrow> reach h r - held (reach h r) h \<subseteq> W'" by auto
  have run: "check_roots iter (r # roots) (mark W h) rel = Some (mark W' h, rel')" using c(1) Vm i(1) by simp
  have set': "set rel' = W' \<union> X \<union> (\<Union>r \<in> set (r # roots) \<inter> T. reach h r)"
    using i(4) r(1) LT by (auto simp: Y_def)
  have "r \<in> L \<longrightarrow> (\<exists>x \<in> ?R. r \<in> set (kept_at h x)) \<longrightarrow> ?R - held ?R h \<subseteq> W'"
  proof (intro impI)
    assume "r \<in> L" "\<exists>x \<in> ?R. r \<in> set (kept_at h x)"
    then have "?R - held ?R h \<subseteq> ?F" by (rule found_live(2) [OF rc _ Cons.prems(2)])
    also have "?F \<subseteq> W'" using i(2) \<open>r \<in> L\<close> by (simp add: V_def)
    finally show "?R - held ?R h \<subseteq> W'" .
  qed
  then have "\<forall>r \<in> set (r # roots) \<inter> L. (\<exists>x \<in> reach h r. r \<in> set (kept_at h x)) \<longrightarrow> reach h r - held (reach h r) h \<subseteq> W'"
    using i(6) by auto
  then show ?case using run set' i(2,3,5) V(3) by blast
qed

section \<open>Release\<close>

lemma drop_live_fields_spec:
  assumes "rc_ok H h (\<lambda>x. ext x + (if x \<in> A then 0 else pend ob is x))" "pending H h [] {}"
    "h c = Some ob" "c \<notin> H" "\<forall>i \<in> set is. i < length (slots ob)" "A \<inter> H = {}" "\<forall>p\<in>A. waiting_at h p"
  shows "\<exists>h' D W. drop_live_fields c is h = Some h' \<and> outcome H h ext [] {} D W h'"
  using assms
proof (induction "is" arbitrary: H h)
  case Nil
  then have "rc_ok H h ext" by (simp cong: if_cong)
  then show ?case
    using Nil outcome_none [of H h ext "[]" "{}" h] counts_only_refl [of H h ext] by (auto simp: unchanged_outside_def)
next
  case (Cons i "is")
  let ?f = "slots ob ! i" and ?e = "\<lambda>x. ext x + (if x \<in> A then 0 else pend ob (i # is) x)"
  let ?e' = "\<lambda>x. ext x + (if x \<in> A then 0 else pend ob is x)"
  have i: "i < length (slots ob)" "\<forall>i \<in> set is. i < length (slots ob)" using Cons.prems(5) by auto
  have get: "get_object_field h c i = Some ?f" using Cons.prems(3) i(1) by (simp add: heap_simps)
  consider "?f = nullptr" | "?f \<noteq> nullptr" "?f \<in> A" | "?f \<noteq> nullptr" "?f \<notin> A" by blast
  then show ?case
  proof cases
    case 3
    have pos: "0 < ?e ?f" using 3 by (simp add: pend_def)
    have e: "?e(?f := ?e ?f - 1) = ?e'" using 3 by (auto simp: pend_def fun_eq_iff)
    have fH: "?f \<in> H" using rc_ok_ext [OF Cons.prems(1) pos] .
    obtain fob where fob: "h ?f = Some fob" "state fob = live"
      using rc_okD [OF Cons.prems(1) fH] by (auto simp: obj_ok_def)
    obtain h1 D1 W1 where d: "decrement_reference_count h ?f = Some h1" "outcome H h ?e' [] {} D1 W1 h1"
      using decrement_spec [OF Cons.prems(1) pos Cons.prems(2)] unfolding e by blast
    let ?H = "H - (D1 \<union> W1)"
    have rc1: "rc_ok ?H h1 ?e'" "pending ?H h1 [] {}" and out: "unchanged_outside H h h1"
      using d(2) by (simp_all add: outcome_def)
    have same: "h1 p = h p" if "p \<notin> H" for p using out that by (simp add: unchanged_outside_def)
    have "h1 p = h p" if "p \<in> A" for p using same Cons.prems(6) that by blast
    then have "h1 c = Some ob" "c \<notin> ?H" "A \<inter> ?H = {}" "\<forall>p\<in>A. waiting_at h1 p"
      using Cons.prems(3,4,6,7) same by (auto simp: waiting_at_def)
    from Cons.IH [OF rc1 this(1,2) i(2) this(3,4)] obtain h' D W where
      r: "drop_live_fields c is h1 = Some h'" "outcome ?H h1 ext [] {} D W h'" by blast
    have "drop_live_fields c (i # is) h = Some h'" using get 3 fob d(1) r(1) by simp
    then show ?thesis using outcome_trans [OF d(2) r(2)] by blast
  next
    case 1
    have "?e = ?e'" unfolding pend_null [OF 1] ..
    then show ?thesis using Cons.IH [OF _ Cons.prems(2-4) i(2) Cons.prems(6,7)] Cons.prems(1) get 1 by simp
  next
    case 2
    then have e: "?e = ?e'" by (auto simp: pend_def fun_eq_iff)
    have "\<exists>fob. h ?f = Some fob \<and> state fob \<noteq> live" using 2 Cons.prems(7) by (auto simp: waiting_at_def)
    then have "drop_live_fields c (i # is) h = drop_live_fields c is h" using get 2 by auto
    then show ?thesis using Cons.IH [OF _ Cons.prems(2-4) i(2) Cons.prems(6,7)] Cons.prems(1) e by simp
  qed
qed

definition out_refs :: "addr set \<Rightarrow> heap \<Rightarrow> addr \<Rightarrow> addr \<Rightarrow> nat" where
  "out_refs A h p x = (if x \<in> A \<or> x = nullptr then 0 else refs h p x)"

lemma out_refs_pend:
  "h p = Some ob \<Longrightarrow> (if x \<in> A then 0 else pend ob [0..<length (slots ob)] x) = out_refs A h p x"
  by (simp add: out_refs_def pend_all refs_def)

lemma release_all_spec:
  assumes "rc_ok H h (\<lambda>x. ext x + (\<Sum>p\<leftarrow>objs. out_refs A h p x))" "pending H h [] {}"
    "set objs \<subseteq> A" "A \<inter> H = {}" "\<forall>p\<in>A. readable h p \<and> waiting_at h p" "suspected_object_list cc = []"
  shows "\<exists>h' D W. release_all objs roots cc h = Some (filter (\<lambda>r. r \<notin> set objs) roots, cc, h') \<and>
     outcome H h ext [] {} D W h'"
  using assms
proof (induction objs arbitrary: H h roots)
  case Nil
  then have "rc_ok H h ext" by simp
  then show ?case
    using Nil outcome_none [of H h ext "[]" "{}" h] counts_only_refl [of H h ext] by (auto simp: unchanged_outside_def)
next
  case (Cons p objs)
  have p: "p \<in> A" "p \<notin> H" using Cons.prems(3,4) by auto
  obtain ob where ob: "h p = Some ob" "unat (field_length ob) = length (slots ob)"
    using Cons.prems(5) p(1) by (auto elim: readableE)
  let ?e = "\<lambda>x. ext x + (\<Sum>p\<leftarrow>objs. out_refs A h p x)"
  have "rc_ok H h (\<lambda>x. ?e x + (if x \<in> A then 0 else pend ob [0..<length (slots ob)] x))"
    using Cons.prems(1) out_refs_pend [of h p ob _ A, OF ob(1)] by (simp add: ac_simps cong: if_cong)
  moreover have "\<forall>p\<in>A. waiting_at h p" using Cons.prems(5) by blast
  ultimately obtain h1 D1 W1 where d: "drop_live_fields p [0..<length (slots ob)] h = Some h1" "outcome H h ?e [] {} D1 W1 h1"
    using drop_live_fields_spec [of H h ?e A ob "[0..<length (slots ob)]" p] ob(1) p Cons.prems(2,4) by auto
  let ?H = "H - (D1 \<union> W1)"
  have same: "h1 q = h q" if "q \<in> A" for q
    using d(2) that Cons.prems(4) by (auto simp: outcome_def unchanged_outside_def)
  have "(\<Sum>p\<leftarrow>objs. out_refs A h1 p x) = (\<Sum>p\<leftarrow>objs. out_refs A h p x)" for x
    using same Cons.prems(3) by (intro arg_cong [of _ _ sum_list] map_cong) (auto simp: out_refs_def refs_def)
  then have "rc_ok ?H h1 (\<lambda>x. ext x + (\<Sum>p\<leftarrow>objs. out_refs A h1 p x))" "pending ?H h1 [] {}"
    using d(2) by (simp_all add: outcome_def)
  moreover have "set objs \<subseteq> A" "A \<inter> ?H = {}" "\<forall>p\<in>A. readable h1 p \<and> waiting_at h1 p"
    using Cons.prems(3,4,5) same by (auto simp: readable_def waiting_at_def)
  ultimately obtain h' D W where
    r: "release_all objs (set_erase p roots) cc h1 = Some (filter (\<lambda>r. r \<notin> set objs) (set_erase p roots), cc, h')"
      "outcome ?H h1 ext [] {} D W h'"
    using Cons.IH [of ?H h1] Cons.prems(6) by blast
  have cc: "cc\<lparr>suspected_object_list := set_erase p (suspected_object_list cc)\<rparr> = cc"
    using Cons.prems(6) by (simp add: set_erase_def)
  have "release_all (p # objs) roots cc h = Some (filter (\<lambda>r. r \<notin> set (p # objs)) roots, cc, h')"
    using ob d(1) r(1) by (simp add: Let_def cc) (auto simp: set_erase_def intro: filter_cong)
  then show ?case using outcome_trans [OF d(2) r(2)] by blast
qed

section \<open>The whole collection\<close>

text \<open>Leaving garbage out: its references to the other objects count as references from outside.\<close>

lemma rc_ok_cut:
  assumes rc: "rc_ok L h ext" and W: "garbage L h ext W" and A: "W \<subseteq> A" "A \<inter> (L - W) = {}"
  shows "rc_ok (L - W) (mark W h) (\<lambda>x. ext x + (\<Sum>p\<in>W. out_refs A h p x))"
proof -
  let ?H = "L - W" and ?e = "\<lambda>x. ext x + (\<Sum>p\<in>W. out_refs A h p x)"
  have WL: "W \<subseteq> L" using W by (simp add: garbage_def)
  have in_h: "rc_ok ?H h ?e"
  proof -
    have "\<exists>ob. h p = Some ob \<and> obj_ok ?H h ?e p ob" if p: "p \<in> ?H" for p
    proof -
      obtain ob where ob: "h p = Some ob" "obj_ok L h ext p ob" using rc_okD [OF rc, of p] p by auto
      have "p \<noteq> nullptr" "p \<notin> A" using p rc A(2) by (auto simp: rc_ok_def)
      then have "(\<Sum>q\<in>W. out_refs A h q p) = (\<Sum>q\<in>W. refs h q p)" by (simp add: out_refs_def)
      moreover have "(\<Sum>q\<in>L. refs h q p) = (\<Sum>q\<in>?H. refs h q p) + (\<Sum>q\<in>W. refs h q p)"
        using rc WL by (simp add: sum.subset_diff [of W L])
      moreover have "f \<notin> W" if "f \<in> set (slots ob)" for f
      proof
        assume "f \<in> W"
        moreover have "0 < refs h p f" using ob(1) that by (simp add: refs_def count_list_0_iff flip: neq0_conv)
        ultimately show False using W p by (auto simp: garbage_def)
      qed
      ultimately show ?thesis using ob by (auto simp: obj_ok_def)
    qed
    moreover have "\<forall>x. 0 < ?e x \<longrightarrow> x \<in> ?H"
    proof (intro allI impI)
      fix x assume x: "0 < ?e x"
      show "x \<in> ?H"
      proof (cases "0 < ext x")
        case True
        then show ?thesis using rc_ok_ext [OF rc] W by (auto simp: garbage_def)
      next
        case False
        then obtain q where q: "q \<in> W" "0 < out_refs A h q x"
          using x by (auto simp: neq0_conv [symmetric] simp del: neq0_conv dest!: sum.not_neutral_contains_not_neutral)
        then have "x \<notin> A" "x \<in> set (kept_at h q)"
          by (auto simp: out_refs_def refs_kept count_list_0_iff split: if_splits simp flip: neq0_conv)
        then show ?thesis using rc_ok_kept [OF rc, of q] q(1) WL A(1) by blast
      qed
    qed
    ultimately show ?thesis using rc by (simp add: rc_ok_def)
  qed
  then show ?thesis by (rule rc_ok_frame) (simp add: mark_def)
qed

definition gc_ok :: "addr set \<Rightarrow> addr set \<Rightarrow> heap \<Rightarrow> (addr \<Rightarrow> nat) \<Rightarrow> CycleCollector \<Rightarrow> bool" where
  "gc_ok L T h ext cc \<longleftrightarrow> rc_ok L h ext \<and> zeros L h = {} \<and> waiting_ok T h \<and> unlocked UNIV h \<and>
     distinct (suspected_object_list cc) \<and> set (suspected_object_list cc) = {p \<in> L \<union> T. watched_at h p}"

lemma unlocked_subset: "unlocked UNIV h \<Longrightarrow> unlocked A h"
  by (simp add: unlocked_def)

text \<open>The trees of all watched roots make up the waiting objects.\<close>

lemma waiting_covered:
  assumes "waiting_ok T h" "{p \<in> T. watched_at h p} \<subseteq> S"
  shows "T \<subseteq> (\<Union>r \<in> S \<inter> T. reach h r)" "(\<Union>r \<in> S \<inter> T. reach h r) \<subseteq> T"
proof -
  have "rooted T h" using assms(1) by (simp add: waiting_ok_def forest_def)
  then show "T \<subseteq> (\<Union>r \<in> S \<inter> T. reach h r)" using assms(2) unfolding rooted_def reach_def by blast
  show "(\<Union>r \<in> S \<inter> T. reach h r) \<subseteq> T" using graph_reach(1) [OF graph_waiting [OF assms(1)]] by blast
qed

lemma fold_add_suspected:
  "distinct (suspected_object_list cc) \<Longrightarrow>
     distinct (suspected_object_list (fold (\<lambda>r cc. add_suspected_object cc r) rs cc)) \<and>
     set (suspected_object_list (fold (\<lambda>r cc. add_suspected_object cc r) rs cc)) = set rs \<union> set (suspected_object_list cc)"
  by (induction rs arbitrary: cc) (auto simp: add_suspected_object_def)

definition killed :: "addr set \<Rightarrow> heap \<Rightarrow> heap" where
  "killed A h = (\<lambda>p. if p \<in> A then map_option (\<lambda>ob. ob\<lparr>state := dead\<rparr>) (h p) else h p)"

lemma watched_killed [simp]: "watched_at (killed A h) p = watched_at h p"
  by (auto simp: killed_def watched_at_def watched_def)

lemma watched_mark [simp]: "watched_at (mark A h) p = watched_at h p"
  by (auto simp: mark_def watched_at_def watched_def)

text \<open>Iteration over a set visits every element once, in some order.\<close>

definition iterates :: "(addr list \<Rightarrow> addr list) \<Rightarrow> bool" where
  "iterates iter \<longleftrightarrow> (\<forall>xs. set (iter xs) = set xs \<and> distinct (iter xs) = distinct xs)"

text \<open>The run of the collector up to the new list of suspects.\<close>

lemma gc_collect_run:
  assumes ok: "gc_ok L T h ext cc" and small: "\<forall>p\<in>L. cnt h p < 2 ^ 63" and iter: "iterates iter"
  shows "\<exists>W D W2 h' cc'. gc_collect iter cc h = Some (cc', killed (W \<union> T) h') \<and> garbage L h ext W \<and>
     outcome (L - W) (mark W h) ext [] {} D W2 h' \<and>
     distinct (suspected_object_list cc') \<and>
     set (suspected_object_list cc') = {p \<in> L \<union> T. watched_at h p} - (W \<union> T) \<and>
     (\<forall>r\<in>L. watched_at h r \<and> (\<exists>x \<in> reach h r. r \<in> set (kept_at h x)) \<longrightarrow> reach h r - held (reach h r) h \<subseteq> W)"
proof -
  let ?S = "suspected_object_list cc"
  have it: "set (iter xs) = set xs" "distinct (iter xs) = distinct xs" for xs
    using iter by (simp_all add: iterates_def)
  have rc: "rc_ok L h ext" and zs: "zeros L h = {}" and T: "waiting_ok T h" and ul: "unlocked (L \<union> T) h"
    and S: "distinct ?S" "set ?S = {p \<in> L \<union> T. watched_at h p}" using ok by (simp_all add: gc_ok_def unlocked_subset)
  have LT: "L \<inter> T = {}" using live_not_waiting [OF rc] T by (auto simp: waiting_ok_def)
  obtain W rel where c: "check_roots iter (iter ?S) h [] = Some (mark W h, rel)" "garbage L h ext W"
    "set rel = W \<union> (\<Union>r \<in> set ?S \<inter> T. reach h r)" "distinct rel"
    "\<forall>r \<in> set ?S \<inter> L. (\<exists>x \<in> reach h r. r \<in> set (kept_at h x)) \<longrightarrow> reach h r - held (reach h r) h \<subseteq> W"
    using check_roots_spec [OF rc T ul small it(1), of "iter ?S" "{}" "[]" "{}"] S(2) it(1) by auto
  have rel: "set rel = W \<union> T" using c(3) waiting_covered [OF T, of "set ?S"] S(2) by auto
  let ?H = "L - W" and ?A = "W \<union> T" and ?h = "mark W h"
  note sg = same_graph_facts [OF same_graph_mark [of h W]]
  have WL: "W \<subseteq> L" using c(2) by (simp add: garbage_def)
  have AH: "?A \<inter> ?H = {}" using LT by blast
  have ref: "refs ?h p x = refs h p x" for p x using sg by simp
  have outm: "out_refs ?A ?h p x = out_refs ?A h p x" for p x by (auto simp: out_refs_def ref)
  have zeroT: "out_refs ?A ?h p x = 0" if "p \<in> T" for p x
    using forest_closed [of T h p] T that ref refs_kept [of x h p]
    by (auto simp: out_refs_def waiting_ok_def count_list_0_iff)
  have "(\<Sum>p\<leftarrow>iter rel. out_refs ?A ?h p x) = (\<Sum>p\<in>W. out_refs ?A h p x)" for x
  proof -
    have "(\<Sum>p\<leftarrow>iter rel. out_refs ?A ?h p x) = (\<Sum>p\<in>W \<union> T. out_refs ?A ?h p x)"
      using it c(4) rel by (simp add: sum_list_distinct_conv_sum_set)
    also have "\<dots> = (\<Sum>p\<in>W. out_refs ?A ?h p x) + (\<Sum>p\<in>T. out_refs ?A ?h p x)"
      using LT WL rc T finite_subset [OF WL] by (intro sum.union_disjoint) (auto simp: waiting_ok_def)
    also have "\<dots> = (\<Sum>p\<in>W. out_refs ?A h p x)" using zeroT outm by simp
    finally show ?thesis .
  qed
  then have rc1: "rc_ok ?H ?h (\<lambda>x. ext x + (\<Sum>p\<leftarrow>iter rel. out_refs ?A ?h p x))"
    using rc_ok_cut [OF rc c(2) _ AH] by simp
  have "zeros ?H ?h = {}" using zs by (auto simp: zeros_def mark_def)
  then have p1: "pending ?H ?h [] {}" by (simp add: pending_def)
  have A: "\<forall>p \<in> ?A. readable ?h p \<and> waiting_at ?h p"
    using rc_ok_kept [OF rc] live_not_waiting [OF rc] WL T sg by (auto simp: waiting_mark waiting_ok_def)
  let ?cc = "cc\<lparr>suspected_object_list := []\<rparr>"
  obtain h' D W2 where r: "release_all (iter rel) ?S ?cc ?h = Some (filter (\<lambda>r. r \<notin> set (iter rel)) ?S, ?cc, h')"
    "outcome ?H ?h ext [] {} D W2 h'"
    using release_all_spec [OF rc1 p1 _ AH A, of ?cc ?S] it(1) rel by auto
  let ?roots = "filter (\<lambda>r. r \<notin> set (iter rel)) ?S"
  have "\<forall>p \<in> set (iter rel). p \<in> dom h'"
  proof
    fix p assume "p \<in> set (iter rel)"
    then have p: "p \<in> ?A" using it(1) rel by simp
    then have "h' p = ?h p" using r(2) AH unfolding outcome_def unchanged_outside_def by blast
    moreover obtain ob where "?h p = Some ob" using A p unfolding readable_def by blast
    ultimately show "p \<in> dom h'" by auto
  qed
  then have dead: "set_states dead (iter rel) h' = Some (killed ?A h')"
    using set_states_spec [of "iter rel" h' dead] it c(4) rel by (simp add: killed_def)
  let ?cc' = "fold (\<lambda>r cc. add_suspected_object cc r) (iter ?roots) ?cc"
  have run: "gc_collect iter cc h = Some (?cc', killed ?A h')"
    using c(1) r(1) dead by (simp add: gc_collect_def Let_def)
  have "distinct (suspected_object_list ?cc')" "set (suspected_object_list ?cc') = set ?S - ?A"
    using fold_add_suspected [of ?cc "iter ?roots"] it rel by auto
  then show ?thesis using run c(2,5) r(2) S(2) by blast
qed

lemma killed_other [simp]: "p \<notin> A \<Longrightarrow> killed A h p = h p"
  by (simp add: killed_def)

lemma retired_waiting_ok:
  assumes "retires waiting_for_gc W h h'" "forest W h'" "graph H h" "W \<subseteq> H"
  shows "waiting_ok W h'"
proof -
  have "readable h' p \<and> waiting_at h' p" if p: "p \<in> W" for p
  proof -
    have "readable h p" using p assms(3,4) by (auto simp: graph_def)
    moreover obtain ob ob' where "h p = Some ob" "h' p = Some ob'" "retired waiting_for_gc ob ob'"
      using assms(1) p unfolding retires_def by blast
    ultimately show ?thesis by (auto simp: readable_def waiting_at_def retired_def)
  qed
  then show ?thesis using assms by (auto simp: waiting_ok_def graph_def intro: finite_subset)
qed

lemma waiting_ok_frame:
  assumes "waiting_ok T h" "\<And>p. p \<in> T \<Longrightarrow> h' p = h p"
  shows "waiting_ok T h'"
proof -
  have "forest T h'"
    by (rule forest_cong [of T h]) (use assms in \<open>auto simp: waiting_ok_def kept_at_def watched_at_def\<close>)
  then show ?thesis using assms by (auto simp: waiting_ok_def readable_def waiting_at_def)
qed

lemma outcome_unlocked:
  assumes "outcome H h ext stk Z D W h'" "unlocked UNIV h"
  shows "unlocked UNIV h'"
proof -
  have "\<not> lock_flag ob'" if p: "h' p = Some ob'" for p ob'
  proof -
    consider "p \<in> D" | "p \<in> W" | "p \<in> H - (D \<union> W)" | "p \<notin> H" by blast
    then have "\<exists>ob. h p = Some ob \<and> lock_flag ob' = lock_flag ob"
    proof cases
      case 3
      then obtain ob k where "h p = Some ob" "h' p = Some (ob\<lparr>count := k\<rparr>)"
        using assms(1) unfolding outcome_def counts_only_def by blast
      then show ?thesis using p by auto
    next
      case 4
      then show ?thesis using assms(1) p by (simp add: outcome_def unchanged_outside_def)
    qed (use assms(1) p in \<open>auto simp: outcome_def retires_def retired_def dest!: bspec [of _ _ p]\<close>)
    then show ?thesis using assms(2) by (auto simp: unlocked_def)
  qed
  then show ?thesis by (auto simp: unlocked_def)
qed

lemma unlocked_killed [simp]: "unlocked A h \<Longrightarrow> unlocked A (killed B h)"
  by (auto simp: unlocked_def killed_def)

text \<open>The state after the collection.\<close>

lemma gc_collect_after:
  assumes ok: "gc_ok L T h ext cc" and W: "garbage L h ext W" and o: "outcome (L - W) (mark W h) ext [] {} D W2 h'"
    and S: "distinct (suspected_object_list cc')" "set (suspected_object_list cc') = {p \<in> L \<union> T. watched_at h p} - (W \<union> T)"
  shows "gc_ok (L - W - (D \<union> W2)) W2 (killed (W \<union> T) h') ext cc'"
    "counts_only (L - W - (D \<union> W2)) h (killed (W \<union> T) h')"
proof -
  let ?A = "W \<union> T" and ?L = "L - W - (D \<union> W2)" and ?hm = "mark W h"
  have rc: "rc_ok L h ext" and T: "waiting_ok T h" and ul: "unlocked UNIV h" using ok by (simp_all add: gc_ok_def)
  have LT: "L \<inter> T = {}" using live_not_waiting [OF rc] T by (auto simp: waiting_ok_def)
  have D: "D \<subseteq> L - W" "W2 \<subseteq> L - W" "D \<inter> W2 = {}" "\<forall>p\<in>D. \<not> watched_at h p" using o by (auto simp: outcome_def)
  have same: "killed ?A h' p = h' p" if "p \<in> L - W" for p
    by (rule killed_other) (use that LT in blast)
  have "rc_ok ?L h' ext" "zeros ?L h' = {}" using o by (simp_all add: outcome_def pending_def)
  then have 1: "rc_ok ?L (killed ?A h') ext" "zeros ?L (killed ?A h') = {}"
    using same rc_ok_frame [of ?L h' ext "killed ?A h'"] zeros_frame [of ?L "killed ?A h'" h'] by auto
  have "graph L ?hm" using graph_live [OF rc] same_graph_graph [OF same_graph_mark] by blast
  then have "waiting_ok W2 h'" using o D(2) by (intro retired_waiting_ok [of W2 ?hm h' L]) (auto simp: outcome_def)
  then have 2: "waiting_ok W2 (killed ?A h')" by (rule waiting_ok_frame) (use same D(2) in blast)
  have 3: "unlocked UNIV (killed ?A h')" using outcome_unlocked [OF o] ul by simp
  have w: "watched_at (killed ?A h') p = watched_at h p" for p using outcome_watched [OF o] by simp
  have "{p \<in> L \<union> T. watched_at h p} - ?A = {p \<in> ?L \<union> W2. watched_at h p}" using D LT by auto
  then have 4: "set (suspected_object_list cc') = {p \<in> ?L \<union> W2. watched_at (killed ?A h') p}" using S(2) w by simp
  show "gc_ok ?L W2 (killed ?A h') ext cc'" using 1 2 3 4 S(1) by (simp add: gc_ok_def)
  have "counts_only ?L ?hm h'" using o by (simp add: outcome_def)
  then show "counts_only ?L h (killed ?A h')" using same by (auto simp: counts_only_def mark_def)
qed

lemma dead_after:
  assumes ok: "gc_ok L T h ext cc" and W: "W \<subseteq> L" and o: "outcome (L - W) (mark W h) ext [] {} D W2 h'" and p: "p \<in> W \<union> T \<union> D"
  shows "\<exists>ob. killed (W \<union> T) h' p = Some ob \<and> state ob = dead"
proof (cases "p \<in> W \<union> T")
  case True
  have rc: "rc_ok L h ext" and T: "waiting_ok T h" using ok by (simp_all add: gc_ok_def)
  have "p \<notin> L - W" "h p \<noteq> None" using True live_not_waiting [OF rc] T W by (auto simp: waiting_ok_def readable_def)
  then have "h' p \<noteq> None" using o by (auto simp: outcome_def unchanged_outside_def mark_def)
  then show ?thesis using True by (auto simp: killed_def)
next
  case False
  then show ?thesis using o p by (auto simp: outcome_def retires_def retired_def)
qed

lemma gc_collect_spec:
  assumes "gc_ok L T h ext cc" "iterates iter" "\<forall>p\<in>L. cnt h p < 2 ^ 63"
  shows "\<exists>cc' h' L' T'. gc_collect iter cc h = Some (cc', h') \<and> gc_ok L' T' h' ext cc' \<and> L' \<subseteq> L \<and> T' \<subseteq> L - L' \<and>
     counts_only L' h h' \<and> (\<forall>x. 0 < ext x \<longrightarrow> reach h x \<subseteq> L') \<and>
     (\<forall>p \<in> L \<union> T. p \<in> L' \<union> T' \<or> (\<exists>ob. h' p = Some ob \<and> state ob = dead)) \<and>
     (\<forall>p. p \<notin> L \<union> T \<longrightarrow> h' p = h p)"
proof -
  obtain W D W2 h' cc' where g: "gc_collect iter cc h = Some (cc', killed (W \<union> T) h')" "garbage L h ext W"
    "outcome (L - W) (mark W h) ext [] {} D W2 h'" "distinct (suspected_object_list cc')"
    "set (suspected_object_list cc') = {p \<in> L \<union> T. watched_at h p} - (W \<union> T)"
    using gc_collect_run [OF assms(1,3,2)] by blast
  let ?L = "L - W - (D \<union> W2)" and ?h = "killed (W \<union> T) h'"
  note after = gc_collect_after [OF assms(1) g(2-5)]
  have WL: "W \<subseteq> L" and D: "D \<subseteq> L - W" "W2 \<subseteq> L - W" using g(2,3) by (auto simp: garbage_def outcome_def)
  have reach: "reach h x \<subseteq> ?L" if "0 < ext x" for x
  proof -
    have rc: "rc_ok ?L ?h ext" using after(1) by (simp add: gc_ok_def)
    have "kept_at h p = kept_at ?h p" if "p \<in> ?L" for p
      using after(2) that by (auto simp: counts_only_def kept_at_def kept_def dest!: bspec [of _ _ p])
    then show ?thesis using rc_ok_ext [OF rc that] rc_ok_kept [OF rc] by (intro reach_least) auto
  qed
  have dead: "p \<in> ?L \<union> W2 \<or> (\<exists>ob. ?h p = Some ob \<and> state ob = dead)" if "p \<in> L \<union> T" for p
    using dead_after [OF assms(1) WL g(3), of p] that by blast
  have out: "?h p = h p" if "p \<notin> L \<union> T" for p
  proof -
    have "p \<notin> W" "p \<notin> W \<union> T" "p \<notin> L - W" using that WL by auto
    then show ?thesis using g(3) by (simp add: outcome_def unchanged_outside_def mark_def)
  qed
  show ?thesis
    using g(1) after reach dead out D by (intro exI [of _ cc'] exI [of _ ?h] exI [of _ ?L] exI [of _ W2]) auto
qed

section \<open>Properties\<close>

text \<open>
  C3. A collection is safe, and complete on what was waiting. It starts from a heap in which
  \<open>L\<close> are the live objects with exact counts, \<open>T\<close> the objects left waiting for the collector, and
  the list of suspects holds exactly the watched objects; the reference counts are below
  \<open>2 ^ 63\<close>. Whatever the iteration order of the sets, the collection terminates without
  touching an invalid address or waiting for a lock, and ends in such a heap again, with a subset
  of \<open>L\<close> live and unchanged but for their counts. Every object that can be reached from a
  reference held outside the heap stays live. Everything in \<open>T\<close> is dead, and an object of \<open>L\<close> that
  is no longer live is dead or waits for the next collection. One collection need not find all
  unreachable objects.
\<close>

theorem gc_collect_correct:
  assumes "gc_ok L T h ext cc" "iterates iter" "\<forall>p\<in>L. cnt h p < 2 ^ 63"
  shows "\<exists>cc' h' L' T'. gc_collect iter cc h = Some (cc', h') \<and> gc_ok L' T' h' ext cc' \<and> L' \<subseteq> L \<and> T' \<subseteq> L - L' \<and>
     counts_only L' h h' \<and> (\<forall>x. 0 < ext x \<longrightarrow> reach h x \<subseteq> L') \<and>
     (\<forall>p \<in> T. \<exists>ob. h' p = Some ob \<and> state ob = dead) \<and>
     (\<forall>p \<in> L. p \<in> L' \<union> T' \<or> (\<exists>ob. h' p = Some ob \<and> state ob = dead)) \<and>
     (\<forall>p. p \<notin> L \<union> T \<longrightarrow> h' p = h p)"
proof -
  have "p \<notin> L" if "p \<in> T" for p
    using live_not_waiting [of L h ext] assms(1) that by (auto simp: gc_ok_def waiting_ok_def)
  moreover obtain cc' h' L' T' where r: "gc_collect iter cc h = Some (cc', h')" "gc_ok L' T' h' ext cc'" "L' \<subseteq> L" "T' \<subseteq> L - L'"
    "counts_only L' h h'" "\<forall>x. 0 < ext x \<longrightarrow> reach h x \<subseteq> L'"
    "\<forall>p \<in> L \<union> T. p \<in> L' \<union> T' \<or> (\<exists>ob. h' p = Some ob \<and> state ob = dead)" "\<forall>p. p \<notin> L \<union> T \<longrightarrow> h' p = h p"
    using gc_collect_spec [OF assms] by blast
  ultimately have "\<forall>p \<in> T. \<exists>ob. h' p = Some ob \<and> state ob = dead" by blast
  then show ?thesis using r by (intro exI [of _ cc'] exI [of _ h'] exI [of _ L'] exI [of _ T']) simp
qed

text \<open>
  C4. Unreachable cycles are reclaimed. If a watched live object lies on a cycle and nothing
  outside of what it reaches refers to an object it reaches, then after the collection all of
  these objects are dead.
\<close>

theorem gc_collect_reclaims_cycles:
  assumes "gc_ok L T h ext cc" "iterates iter" "\<forall>p\<in>L. cnt h p < 2 ^ 63"
    and root: "root \<in> L" "watched_at h root" "(root, root) \<in> (edges h)\<^sup>+"
    and closed: "\<forall>y \<in> reach h root. ext y = 0 \<and> (\<forall>q\<in>L. 0 < refs h q y \<longrightarrow> q \<in> reach h root)"
  shows "\<exists>cc' h'. gc_collect iter cc h = Some (cc', h') \<and>
     (\<forall>p \<in> reach h root. \<exists>ob. h' p = Some ob \<and> state ob = dead)"
proof -
  let ?R = "reach h root"
  obtain W D W2 h' cc' where g: "gc_collect iter cc h = Some (cc', killed (W \<union> T) h')" "garbage L h ext W"
    "outcome (L - W) (mark W h) ext [] {} D W2 h'"
    "\<forall>r\<in>L. watched_at h r \<and> (\<exists>x \<in> reach h r. r \<in> set (kept_at h x)) \<longrightarrow> reach h r - held (reach h r) h \<subseteq> W"
    using gc_collect_run [OF assms(1,3,2)] by blast
  have rc: "rc_ok L h ext" using assms(1) by (simp add: gc_ok_def)
  have RL: "?R \<subseteq> L" using graph_reach(1) [OF graph_live [OF rc] root(1)] .
  have "\<exists>x \<in> ?R. root \<in> set (kept_at h x)"
  proof -
    obtain x where "(root, x) \<in> (edges h)\<^sup>*" "(x, root) \<in> edges h" using root(3) by (meson tranclD2)
    then show ?thesis by (auto simp: reach_def edges_iff)
  qed
  then have sub: "?R - held ?R h \<subseteq> W" using g(4) root(1,2) by blast
  have "\<not> (\<Sum>q\<in>?R. refs h q y) < cnt h y" if y: "y \<in> ?R" for y
  proof -
    have "(\<Sum>q\<in>L. refs h q y) = (\<Sum>q\<in>?R. refs h q y)"
      using rc RL closed y by (intro sum.mono_neutral_right) auto
    then show ?thesis using rc_ok_cnt [OF rc, of y] RL y closed by auto
  qed
  then have "held ?R h = {}" by (auto simp: held_def)
  then have "?R \<subseteq> W" using sub by simp
  moreover have "W \<subseteq> L" using g(2) by (simp add: garbage_def)
  ultimately show ?thesis using g(1) dead_after [OF assms(1) _ g(3)] by blast
qed

section \<open>Witnesses\<close>

text \<open>Two objects that only refer to each other; the collector watches the first.\<close>

definition cycle_heap :: heap where
  "cycle_heap = [
     1 \<mapsto> zero_object\<lparr>count := 1, state := live, is_cyclic_type := True, async_release := True,
          field_length := 1, slots := [2]\<rparr>,
     2 \<mapsto> zero_object\<lparr>count := 1, state := live, is_cyclic_type := True, field_length := 1, slots := [1]\<rparr>]"

lemma cycle_gc_ok: "gc_ok {1, 2} {} cycle_heap (\<lambda>x. 0) \<lparr>suspected_object_list = [1]\<rparr>"
proof -
  have "rc_ok {1, 2} cycle_heap (\<lambda>x. 0)" "zeros {1, 2} cycle_heap = {}" "unlocked UNIV cycle_heap"
    by (auto simp: rc_ok_def obj_ok_def cycle_heap_def zero_object_def refs_def zeros_def unlocked_def)
  moreover have "{p \<in> {1, 2}. watched_at cycle_heap p} = {1}"
    by (auto simp: watched_at_def watched_def cycle_heap_def zero_object_def)
  ultimately show ?thesis by (simp add: gc_ok_def waiting_ok_def)
qed

lemma cycle_facts: "iterates rev" "\<forall>p\<in>{1, 2}. cnt cycle_heap p < 2 ^ 63" "watched_at cycle_heap 1"
  by (auto simp: iterates_def cnt_def cycle_heap_def zero_object_def watched_at_def watched_def)

theorem gc_collect_correct_witness:
  "\<exists>cc' h' L' T'. gc_collect rev \<lparr>suspected_object_list = [1]\<rparr> cycle_heap = Some (cc', h') \<and>
     gc_ok L' T' h' (\<lambda>x. 0) cc' \<and> L' \<subseteq> {1, 2} \<and>
     (\<forall>p \<in> {1, 2}. p \<in> L' \<union> T' \<or> (\<exists>ob. h' p = Some ob \<and> state ob = dead))"
  using gc_collect_correct [OF cycle_gc_ok cycle_facts(1,2)] by simp blast

lemma cycle_reach: "reach cycle_heap 1 = {1, 2}" "(1, 1) \<in> (edges cycle_heap)\<^sup>+"
proof -
  have e: "(1, 2) \<in> edges cycle_heap" "(2, 1) \<in> edges cycle_heap"
    by (simp_all add: edges_iff kept_at_def kept_def cycle_heap_def zero_object_def)
  then show "(1, 1) \<in> (edges cycle_heap)\<^sup>+" by (meson r_into_trancl trancl_into_trancl)
  have "reach cycle_heap 1 \<subseteq> {1, 2}"
    by (rule reach_least) (auto simp: kept_at_def kept_def cycle_heap_def zero_object_def split: if_splits)
  then show "reach cycle_heap 1 = {1, 2}" using e by (auto simp: reach_def)
qed

theorem gc_collect_reclaims_cycles_witness:
  "\<exists>cc' h'. gc_collect rev \<lparr>suspected_object_list = [1]\<rparr> cycle_heap = Some (cc', h') \<and>
     (\<forall>p \<in> {1, 2}. \<exists>ob. h' p = Some ob \<and> state ob = dead)"
  using gc_collect_reclaims_cycles [OF cycle_gc_ok cycle_facts(1,2) _ cycle_facts(3) cycle_reach(2)]
  unfolding cycle_reach(1) by simp

end
