(* ===== verification/Driver.thy ===== *)
theory Driver
  imports Loader Field_Access Cycle_Collector_Correct
begin

text \<open>
  The stress program of \<^verbatim>\<open>src/CatLa.cpp\<close>: \<^verbatim>\<open>main\<close> fills the ten fields of a module
  object, three threads (\<^verbatim>\<open>func1\<close>) exchange references through these fields while a fourth
  (\<^verbatim>\<open>func2\<close>) collects, and at the end \<^verbatim>\<open>main\<close> gives the module object up, collects five
  times and looks for objects that are not dead.

  The threads run interleaved call by call: each of the calls of \<^verbatim>\<open>func1\<close> is one step. A
  thread is the list of calls it still has to make in the current round. Reading the clock is a
  parameter: \<open>clock n\<close> is the \<open>n\<close>-th reading of a round. The console output is left out.
\<close>

section \<open>The types\<close>

definition module_type :: type_ptr where
  "module_type = DefT ''CatLa'' 0"

definition object_type1 :: type_ptr where
  "object_type1 = DefT ''CatLa'' 1"

definition object_type2 :: type_ptr where
  "object_type2 = DefT ''CatLa'' 2"

definition main_types :: "(type_ptr \<rightharpoonup> Type) option" where
  "main_types =
     do { let parent' = \<lparr>import_index = 0, info_type_name = ''''\<rparr>;
          let type1 = Type_new None ''TestClass'' 0 [] parent';
          let type2 = (Type_new None ''TestClass'' 0 [] parent')\<lparr>is_cycling_type := True\<rparr>;
          let type3 = Type_new None ''TestModule'' 0 [] parent';
          bits \<leftarrow> set_flag (create_bitset 2) 0 True;
          bits \<leftarrow> set_flag bits 1 True;
          module_bits \<leftarrow> mark_flags set_flag (\<lambda>_. True) [0..<10] (create_bitset 10);
          Some [object_type1 \<mapsto> type1\<lparr>reference_fields := Some bits\<rparr>,
                object_type2 \<mapsto> type2\<lparr>reference_fields := Some bits\<rparr>,
                module_type \<mapsto> type3\<lparr>reference_fields := Some module_bits\<rparr>] }"

definition main_cycling :: "type_ptr \<Rightarrow> bool" where
  "main_cycling t = (case main_types of None \<Rightarrow> False
     | Some types \<Rightarrow> (case types t of None \<Rightarrow> False | Some type \<Rightarrow> is_cycling_type type))"

section \<open>State\<close>

text \<open>
  The calls of \<^verbatim>\<open>func1\<close>. Variable \<open>k\<close> is \<^verbatim>\<open>objk\<close>, \<open>i\<close> a field index.
\<close>

datatype call =
    Malloc nat
  | Insert_created
  | Into_module nat nat
  | Clone_from_module nat nat
  | Store_clone nat nat nat
  | Store_move nat nat nat
  | Release nat

text \<open>A worker's thread is a pointer into the machine's list of threads.\<close>

record worker =
  thread :: "nat option"
  locals :: "nat \<rightharpoonup> addr"
  todo :: "call list"
  rounds_left :: nat

record driver =
  virtual_machine :: CatVM
  cycle_collector :: CycleCollector
  main_search_start :: nat
  created_objects :: "addr list"
  module_object :: addr
  workers :: "worker list"

definition driver_heap :: "driver \<Rightarrow> heap" where
  "driver_heap d = heap (vm_memory (virtual_machine d))"

definition with_heap :: "heap \<Rightarrow> driver \<Rightarrow> driver" where
  "with_heap h d = d\<lparr>virtual_machine := (virtual_machine d)\<lparr>vm_memory := (vm_memory (virtual_machine d))\<lparr>heap := h\<rparr>\<rparr>\<rparr>"

section \<open>\<open>func1\<close>\<close>

definition get_10 :: "nat \<Rightarrow> nat" where
  "get_10 reading = reading mod 10"

definition func1_round :: "(nat \<Rightarrow> nat) \<Rightarrow> call list" where
  "func1_round clock =
     (if get_10 (clock 0) mod 2 = 0 then
        [Malloc 1, Malloc 2, Malloc 3, Insert_created,
         Into_module (get_10 (clock 1)) 1, Into_module (get_10 (clock 2)) 2, Into_module (get_10 (clock 3)) 3]
      else
        [Clone_from_module 1 (get_10 (clock 1)), Clone_from_module 2 (get_10 (clock 2)),
         Clone_from_module 3 (get_10 (clock 3))] @
        (if get_10 (clock 4) mod 2 = 0 then
           [Store_clone 1 (get_10 (clock 5) mod 2) 2, Store_move 2 (get_10 (clock 6) mod 2) 3, Release 1, Release 2]
         else
           [Store_clone 1 (get_10 (clock 5) mod 2) 2, Store_clone 2 (get_10 (clock 6) mod 2) 3,
            Store_clone 3 (get_10 (clock 7) mod 2) 1, Release 1, Release 2, Release 3]))"

text \<open>\<^verbatim>\<open>thread->heap_allocator->malloc(object_type2, 3, &thread->allocator_search_start_index)\<close>.\<close>

definition thread_malloc :: "nat \<Rightarrow> driver \<Rightarrow> (addr \<times> driver) option" where
  "thread_malloc t d =
     do { let vm = virtual_machine d;
          th \<leftarrow> at (threads vm) t;
          (al, m, object, start) \<leftarrow> HeapAllocator_malloc main_cycling object_type2 3 (thread_allocator th)
            (allocator_search_start_index th) (vm_memory vm);
          ts \<leftarrow> put (threads vm) t (th\<lparr>thread_allocator := al, allocator_search_start_index := start\<rparr>);
          Some (object, d\<lparr>virtual_machine := vm\<lparr>threads := ts, vm_memory := m\<rparr>\<rparr>) }"

fun exec_call :: "call \<Rightarrow> worker \<Rightarrow> driver \<Rightarrow> (worker \<times> driver) option" where
  "exec_call (Malloc k) w d =
     do { t \<leftarrow> thread w;
          (object, d) \<leftarrow> thread_malloc t d;
          Some (w\<lparr>locals := (locals w)(k \<mapsto> object)\<rparr>, d) }"
| "exec_call Insert_created w d =
     do { h \<leftarrow> object_lock (driver_heap d) (module_object d);
          obj1 \<leftarrow> locals w 1;
          obj2 \<leftarrow> locals w 2;
          obj3 \<leftarrow> locals w 3;
          let created = set_insert obj3 (set_insert obj2 (set_insert obj1 (created_objects d)));
          h \<leftarrow> object_unlock h (module_object d);
          Some (w, with_heap h (d\<lparr>created_objects := created\<rparr>)) }"
| "exec_call (Into_module i k) w d =
     do { obj \<leftarrow> locals w k;
          h \<leftarrow> set_move_object_field (driver_heap d) (module_object d) i obj;
          Some (w, with_heap h d) }"
| "exec_call (Clone_from_module k i) w d =
     do { (obj, cc, h) \<leftarrow> get_clone_object_field (cycle_collector d) (driver_heap d) (module_object d) i;
          Some (w\<lparr>locals := (locals w)(k \<mapsto> obj)\<rparr>, with_heap h (d\<lparr>cycle_collector := cc\<rparr>)) }"
| "exec_call (Store_clone k i l) w d =
     do { parent' \<leftarrow> locals w k;
          obj \<leftarrow> locals w l;
          (cc, h) \<leftarrow> set_clone_object_field (cycle_collector d) (driver_heap d) parent' i obj;
          Some (w, with_heap h (d\<lparr>cycle_collector := cc\<rparr>)) }"
| "exec_call (Store_move k i l) w d =
     do { parent' \<leftarrow> locals w k;
          obj \<leftarrow> locals w l;
          h \<leftarrow> set_move_object_field (driver_heap d) parent' i obj;
          Some (w, with_heap h d) }"
| "exec_call (Release k) w d =
     do { obj \<leftarrow> locals w k;
          h \<leftarrow> decrement_reference_count (driver_heap d) obj;
          Some (w, with_heap h d) }"

text \<open>\<open>here\<close> is the address of the local variable that \<^verbatim>\<open>create_thread\<close> takes.\<close>

definition func1_start :: "u64 \<Rightarrow> worker \<Rightarrow> driver \<Rightarrow> worker \<times> driver" where
  "func1_start here w d =
     (let (th, vm) = create_thread 2048 here (virtual_machine d)
      in (w\<lparr>thread := Some (length (threads (virtual_machine d)))\<rparr>, d\<lparr>virtual_machine := vm\<rparr>))"

text \<open>One step of worker \<open>i\<close>; a worker that has run all its rounds has none.\<close>

definition worker_step :: "u64 \<Rightarrow> (nat \<Rightarrow> nat) \<Rightarrow> nat \<Rightarrow> driver \<Rightarrow> driver option" where
  "worker_step here clock i d =
     do { w \<leftarrow> at (workers d) i;
          (w, d) \<leftarrow>
            (if thread w = None then Some (func1_start here w d)
             else case todo w of
                 c # calls \<Rightarrow> exec_call c (w\<lparr>todo := calls\<rparr>) d
               | [] \<Rightarrow> (if rounds_left w = 0 then None
                        else Some (w\<lparr>todo := func1_round clock, rounds_left := rounds_left w - 1\<rparr>, d)));
          ws \<leftarrow> put (workers d) i w;
          Some (d\<lparr>workers := ws\<rparr>) }"

definition finished :: "worker \<Rightarrow> bool" where
  "finished w \<longleftrightarrow> thread w \<noteq> None \<and> todo w = [] \<and> rounds_left w = 0"

section \<open>\<open>func2\<close>\<close>

definition collect_step :: "(addr list \<Rightarrow> addr list) \<Rightarrow> driver \<Rightarrow> driver option" where
  "collect_step iter d =
     do { (cc, h) \<leftarrow> gc_collect iter (cycle_collector d) (driver_heap d);
          Some (with_heap h (d\<lparr>cycle_collector := cc\<rparr>)) }"

section \<open>\<open>main\<close>\<close>

definition setup_virtual_machine :: "memory \<Rightarrow> CatVM" where
  "setup_virtual_machine m =
     (let (al, m) = HeapAllocator_new True 1024 1 m
      in \<lparr>threads = [], next_thread_id = 0, pre_loaded_module_map = [], loaded_module_map = Map.empty,
          vm_heap_allocator = al, vm_memory = m\<rparr>)"

definition main_malloc :: "type_ptr \<Rightarrow> u64 \<Rightarrow> driver \<Rightarrow> (addr \<times> driver) option" where
  "main_malloc ty fl d =
     do { let vm = virtual_machine d;
          (al, m, object, start) \<leftarrow> HeapAllocator_malloc main_cycling ty fl (vm_heap_allocator vm)
            (main_search_start d) (vm_memory vm);
          Some (object, d\<lparr>virtual_machine := vm\<lparr>vm_heap_allocator := al, vm_memory := m\<rparr>, main_search_start := start\<rparr>) }"

definition create_object :: "driver \<Rightarrow> (addr \<times> driver) option" where
  "create_object d =
     do { (object, d) \<leftarrow> main_malloc object_type2 2 d;
          Some (object, d\<lparr>created_objects := set_insert object (created_objects d)\<rparr>) }"

fun fill_module :: "nat list \<Rightarrow> driver \<Rightarrow> driver option" where
  "fill_module [] d = Some d"
| "fill_module (i # is) d =
     do { (object, d) \<leftarrow> create_object d;
          h \<leftarrow> set_move_object_field_uncheck (driver_heap d) (module_object d) i object;
          fill_module is (with_heap h d) }"

definition new_worker :: "nat \<Rightarrow> worker" where
  "new_worker rounds = \<lparr>thread = None, locals = Map.empty, todo = [], rounds_left = rounds\<rparr>"

definition main_setup :: "memory \<Rightarrow> driver option" where
  "main_setup m =
     do { let d = \<lparr>virtual_machine = setup_virtual_machine m, cycle_collector = CycleCollector_new,
                    main_search_start = 0, created_objects = [], module_object = nullptr, workers = []\<rparr>;
          (object, d) \<leftarrow> main_malloc module_type 10 d;
          d \<leftarrow> fill_module [0..<10] (d\<lparr>module_object := object\<rparr>);
          Some (d\<lparr>workers := replicate 3 (new_worker 10000000)\<rparr>) }"

text \<open>
  The threads run until the three workers have finished; \<^verbatim>\<open>task_flag\<close> then ends the
  collecting thread. \<open>n\<close> counts the steps of the workers; every collection may visit its sets in
  another order.
\<close>

inductive driver_run :: "nat \<Rightarrow> driver \<Rightarrow> driver \<Rightarrow> bool" where
  Start: "driver_run 0 d d"
| Work: "driver_run n d d1 \<Longrightarrow> worker_step here clock i d1 = Some d2 \<Longrightarrow> driver_run (Suc n) d d2"
| Gc: "driver_run n d d1 \<Longrightarrow> iterates iter \<Longrightarrow> collect_step iter d1 = Some d2 \<Longrightarrow> driver_run n d d2"

definition give_up_module :: "driver \<Rightarrow> driver option" where
  "give_up_module d =
     do { h \<leftarrow> decrement_reference_count (driver_heap d) (module_object d); Some (with_heap h d) }"

fun collect_steps :: "(addr list \<Rightarrow> addr list) \<Rightarrow> nat \<Rightarrow> driver \<Rightarrow> driver option" where
  "collect_steps iter 0 d = Some d"
| "collect_steps iter (Suc n) d = do { d \<leftarrow> collect_step iter d; collect_steps iter n d }"

text \<open>The objects that the last loop of the test reports: it reads the state of every object created.\<close>

fun not_dead :: "heap \<Rightarrow> addr list \<Rightarrow> addr list option" where
  "not_dead h [] = Some []"
| "not_dead h (p # ps) =
     do { ob \<leftarrow> h p;
          rest \<leftarrow> not_dead h ps;
          Some (if state ob \<noteq> dead then p # rest else rest) }"

definition main_finish :: "(addr list \<Rightarrow> addr list) \<Rightarrow> driver \<Rightarrow> (addr list \<times> driver) option" where
  "main_finish iter d =
     do { d \<leftarrow> give_up_module d;
          d \<leftarrow> collect_steps iter 5 d;
          living \<leftarrow> not_dead (driver_heap d) (created_objects d);
          Some (living, d) }"

end
