(* ===== verification/Allocator_Correct.thy ===== *)
theory Allocator_Correct
  imports Heap_Allocator
begin

text \<open>
  Correctness of the allocator: the size classes, the layout of a chunk, and what
  \<^verbatim>\<open>malloc\<close> promises about the cell it returns.
\<close>

section \<open>Size classes\<close>

definition block_class_ok :: "nat \<Rightarrow> bool" where
  "block_class_ok n =
     (case block_class (byte_size (of_nat n)) of
        None \<Rightarrow> False
      | Some (i, bs) \<Rightarrow> 0 < i \<and> unat i < 13 \<and> BLOCK_SIZES ! unat i = unat bs \<and> 40 + 8 * n \<le> unat bs \<and>
          list_all (\<lambda>b. 40 + 8 * n \<le> b \<longrightarrow> unat bs \<le> b \<or> n = 7) BLOCK_SIZES)"

lemma block_class_table: "list_all block_class_ok [0..<60]"
  by (simp add: upt_rec block_class_ok_def block_class_def byte_size_def BLOCK_SIZES_def
      sizeof_HeapObject_def)

lemma block_class_le_59: "n < 60 \<Longrightarrow> block_class_ok n"
  using block_class_table by (simp add: list_all_iff)

lemma unat_byte_size:
  assumes "unat n < 2 ^ 61 - 5"
  shows "unat (byte_size n) = 40 + 8 * unat n"
proof -
  have "unat (n * 8) = unat n * 8"
    using assms by (simp add: unat_word_ariths)
  then show ?thesis
    using assms by (simp add: byte_size_def sizeof_HeapObject_def push_bit_eq_mult unat_word_ariths)
qed

lemma block_class_large:
  assumes "59 < unat n" "unat n < 2 ^ 61 - 5"
  shows "block_class (byte_size n) = None"
proof -
  have "512 < unat (byte_size n)" using assms unat_byte_size [of n] by simp
  then have "512 < byte_size n" by (simp add: word_less_nat_alt)
  moreover from this have "\<not> byte_size n < 96" by (simp add: word_less_nat_alt)
  ultimately show ?thesis by (simp add: block_class_def not_le)
qed

lemma byte_size_wraps: "byte_size (n + 2 ^ 61) = byte_size n"
proof -
  have "(2 :: u64) ^ 61 * 8 = 2 ^ LENGTH(64)"
    by (simp flip: power_add [of "2 :: u64" 61 3])
  also have "\<dots> = 0" by (rule word_exp_length_eq_0)
  finally show ?thesis
    by (simp only: byte_size_def push_bit_eq_mult distrib_right) simp
qed

text \<open>
  C22. Every request for at most 59 fields gets a block that can hold the header and all the
  fields, and the smallest such block, except that an object of exactly 96 bytes (7 fields)
  is put in a 128-byte block although there is a 96-byte one.
\<close>

theorem block_class_best_fit:
  assumes "unat n \<le> 59"
  shows "\<exists>i bs. block_class (byte_size n) = Some (i, bs) \<and> unat i < NUMBER_OF_BLOCKS \<and>
    BLOCK_SIZES ! unat i = unat bs \<and> sizeof_HeapObject + 8 * unat n \<le> unat bs \<and>
    (\<forall>b \<in> set BLOCK_SIZES. sizeof_HeapObject + 8 * unat n \<le> b \<longrightarrow> unat bs \<le> b \<or> unat n = 7)"
proof -
  have "block_class_ok (unat n)" using assms block_class_le_59 by simp
  then show ?thesis
    by (auto simp: block_class_ok_def sizeof_HeapObject_def NUMBER_OF_BLOCKS_def list_all_iff
        split: option.splits)
qed

theorem block_class_best_fit_witness:
  "unat (8 :: u64) \<le> 59 \<and> (\<exists>i bs. block_class (byte_size 8) = Some (i, bs) \<and> BLOCK_SIZES ! unat i = unat bs)"
proof -
  have h: "unat (8 :: u64) \<le> 59" by simp
  from block_class_best_fit [OF h] show ?thesis using h by blast
qed

section \<open>The layout of a chunk\<close>

definition block_offset :: "nat \<Rightarrow> nat" where
  "block_offset i = sum_list (take i BLOCK_SIZES)"

definition cell_offset :: "nat \<Rightarrow> nat \<Rightarrow> nat \<Rightarrow> nat" where
  "cell_offset cells i k = block_offset i * cells + k * BLOCK_SIZES ! i"

lemma length_BLOCK_SIZES [simp]: "length BLOCK_SIZES = 13"
  by (simp add: BLOCK_SIZES_def)

lemma length_positions [simp]: "length (positions bs p cells) = length bs"
  by (induction bs arbitrary: p) auto

lemma nth_positions:
  "i < length bs \<Longrightarrow> positions bs p cells ! i = p + of_nat (sum_list (take i bs) * cells)"
proof (induction bs arbitrary: p i)
  case Nil
  then show ?case by simp
next
  case (Cons b bs)
  then show ?case by (cases i) (simp_all add: algebra_simps)
qed

lemma block_offset_Suc: "i < 13 \<Longrightarrow> block_offset (Suc i) = block_offset i + BLOCK_SIZES ! i"
  by (simp add: block_offset_def take_Suc_conv_app_nth)

lemma block_offset_mono: "i \<le> j \<Longrightarrow> block_offset i \<le> block_offset j"
  by (auto simp: block_offset_def take_add dest!: le_Suc_ex)


lemma block_offset_13: "block_offset 13 = BLOCKS_SIZE"
  by (simp add: block_offset_def BLOCK_SIZES_def BLOCKS_SIZE_def)

lemma block_size_ge: "i < 13 \<Longrightarrow> 32 \<le> BLOCK_SIZES ! i"
proof -
  assume "i < 13"
  then have "BLOCK_SIZES ! i \<in> set BLOCK_SIZES" by simp
  then show ?thesis by (auto simp: BLOCK_SIZES_def)
qed

text \<open>A cell ends inside its block, and a block ends where the next one starts.\<close>

lemma cell_end:
  assumes "i < 13" "k < cells"
  shows "cell_offset cells i k + BLOCK_SIZES ! i \<le> block_offset (Suc i) * cells"
proof -
  have "(k + 1) * BLOCK_SIZES ! i \<le> cells * BLOCK_SIZES ! i"
    using assms(2) by (intro mult_right_mono) auto
  then show ?thesis
    using assms(1) by (simp add: cell_offset_def block_offset_Suc algebra_simps)
qed

lemma cell_end_chunk:
  assumes "i < 13" "k < cells"
  shows "cell_offset cells i k + BLOCK_SIZES ! i \<le> BLOCKS_SIZE * cells"
proof -
  have "block_offset (Suc i) * cells \<le> block_offset 13 * cells"
    using assms(1) by (intro mult_right_mono block_offset_mono) auto
  with cell_end [OF assms] show ?thesis
    unfolding block_offset_13 by (rule order_trans)
qed

definition disjoint_ranges :: "nat \<Rightarrow> nat \<Rightarrow> nat \<Rightarrow> nat \<Rightarrow> bool" where
  "disjoint_ranges a n b m \<longleftrightarrow> a + n \<le> b \<or> b + m \<le> a"

lemma cells_disjoint_same:
  assumes "k < k'"
  shows "cell_offset cells i k + BLOCK_SIZES ! i \<le> cell_offset cells i k'"
proof -
  have "(k + 1) * BLOCK_SIZES ! i \<le> k' * BLOCK_SIZES ! i"
    using assms by (intro mult_right_mono) auto
  then show ?thesis by (simp add: cell_offset_def)
qed

lemma cells_disjoint_less:
  assumes "i < j" "j < 13" "k < cells"
  shows "cell_offset cells i k + BLOCK_SIZES ! i \<le> cell_offset cells j k'"
proof -
  have "block_offset (Suc i) * cells \<le> block_offset j * cells"
    using assms by (intro mult_right_mono block_offset_mono) auto
  with cell_end [of i k cells]
  have "cell_offset cells i k + BLOCK_SIZES ! i \<le> block_offset j * cells"
    using assms by (meson less_trans order_trans)
  then show ?thesis by (simp add: cell_offset_def [of cells j])
qed

lemma cells_disjoint:
  assumes "i < 13" "j < 13" "k < cells" "k' < cells" "(i, k) \<noteq> (j, k')"
  shows "disjoint_ranges (cell_offset cells i k) (BLOCK_SIZES ! i) (cell_offset cells j k') (BLOCK_SIZES ! j)"
proof (cases "i = j")
  case True
  then have "k < k' \<or> k' < k" using assms(5) by auto
  then show ?thesis using True cells_disjoint_same by (auto simp: disjoint_ranges_def)
next
  case False
  then have "i < j \<or> j < i" by auto
  then show ?thesis using cells_disjoint_less assms by (auto simp: disjoint_ranges_def)
qed

section \<open>Well-formed chunks\<close>

definition chunk_base :: "HeapChunk \<Rightarrow> addr" where
  "chunk_base ch = entry_position (block_info_list ch ! 0)"

definition chunk_end :: "HeapChunk \<Rightarrow> nat" where
  "chunk_end ch = unat (chunk_base ch) + BLOCKS_SIZE * cells_size ch"

definition cell :: "HeapChunk \<Rightarrow> nat \<Rightarrow> nat \<Rightarrow> addr" where
  "cell ch i k = chunk_base ch + of_nat (cell_offset (cells_size ch) i k)"

definition chunk_ok :: "HeapChunk \<Rightarrow> bool" where
  "chunk_ok ch \<longleftrightarrow> length (block_info_list ch) = NUMBER_OF_BLOCKS \<and> 0 < cells_size ch \<and>
     0 < unat (chunk_base ch) \<and> chunk_end ch < 2 ^ 64 \<and>
     (\<forall>i < 13. entry_position (block_info_list ch ! i) =
          chunk_base ch + of_nat (block_offset i * cells_size ch) \<and>
        current_location (block_info_list ch ! i) < cells_size ch)"

lemma unat_cell:
  assumes "chunk_ok ch" "i < 13" "k < cells_size ch"
  shows "unat (cell ch i k) = unat (chunk_base ch) + cell_offset (cells_size ch) i k"
proof -
  have "cell_offset (cells_size ch) i k \<le> BLOCKS_SIZE * cells_size ch"
    using cell_end_chunk [OF assms(2,3)] by simp
  then have b: "unat (chunk_base ch) + cell_offset (cells_size ch) i k < 2 ^ 64"
    using assms(1) by (simp add: chunk_ok_def chunk_end_def)
  then have "unat (of_nat (cell_offset (cells_size ch) i k) :: u64) = cell_offset (cells_size ch) i k"
    by (intro unat_of_nat_id) simp
  then show ?thesis
    using b unat_add_no_wrap [of "chunk_base ch" "of_nat (cell_offset (cells_size ch) i k)"]
    by (simp add: cell_def)
qed

lemma cell_range:
  assumes "chunk_ok ch" "i < 13" "k < cells_size ch"
  shows "unat (chunk_base ch) \<le> unat (cell ch i k)"
    and "unat (cell ch i k) + BLOCK_SIZES ! i \<le> chunk_end ch"
  using unat_cell [OF assms] cell_end_chunk [OF assms(2,3)] by (simp_all add: chunk_end_def)

lemma cell_nonnull:
  assumes "chunk_ok ch" "i < 13" "k < cells_size ch"
  shows "cell ch i k \<noteq> nullptr"
proof -
  have "0 < unat (cell ch i k)"
    using assms(1) cell_range(1) [OF assms] by (simp add: chunk_ok_def)
  then show ?thesis by auto
qed

lemma cell_inj:
  assumes "chunk_ok ch" "i < 13" "k < cells_size ch" "j < 13" "k' < cells_size ch"
    and "cell ch i k = cell ch j k'"
  shows "i = j \<and> k = k'"
proof (rule ccontr)
  assume "\<not> (i = j \<and> k = k')"
  then have "disjoint_ranges (cell_offset (cells_size ch) i k) (BLOCK_SIZES ! i)
      (cell_offset (cells_size ch) j k') (BLOCK_SIZES ! j)"
    using cells_disjoint assms by blast
  moreover have "cell_offset (cells_size ch) i k = cell_offset (cells_size ch) j k'"
    using unat_cell [OF assms(1,2,3)] unat_cell [OF assms(1,4,5)] assms(6) by simp
  ultimately show False
    using block_size_ge assms(2,4) by (fastforce simp: disjoint_ranges_def)
qed

text \<open>The pointer arithmetic of the search stays on the cells of the block.\<close>

lemma entry_cell:
  assumes "chunk_ok ch" "i < 13"
  shows "entry_position (block_info_list ch ! i) + of_nat (k * BLOCK_SIZES ! i) = cell ch i k"
  using assms by (simp add: chunk_ok_def cell_def cell_offset_def algebra_simps)


section \<open>Searching a block\<close>

lemma next_cell_cell:
  assumes "chunk_ok ch" "i < 13" "k < cells_size ch"
  shows "next_cell (cell ch i 0) (BLOCK_SIZES ! i) (cells_size ch) (cell ch i k, k) =
    (cell ch i (Suc k mod cells_size ch), Suc k mod cells_size ch)"
  using assms by (auto simp: next_cell_def cell_def cell_offset_def algebra_simps)

lemma cas_state_dead [heap_simps]:
  "h p = Some ob \<Longrightarrow> state ob = dead \<Longrightarrow> cas_state h p dead live = Some (True, h(p \<mapsto> ob\<lparr>state := live\<rparr>))"
  by (simp add: cas_state_def)

lemma scan_cells_spec:
  assumes ok: "chunk_ok ch" "i < 13" and k: "k < cells_size ch"
    and dom: "\<forall>k < cells_size ch. cell ch i k \<in> dom h"
  shows "(\<exists>j < n. \<exists>ob. h (cell ch i ((k + j) mod cells_size ch)) = Some ob \<and> state ob = dead \<and>
        scan_cells ts (cell ch i 0) (BLOCK_SIZES ! i) (cells_size ch) n h (cell ch i k) k =
          Some (if ts then h(cell ch i ((k + j) mod cells_size ch) \<mapsto> ob\<lparr>state := live\<rparr>) else h,
                Some (cell ch i ((k + j) mod cells_size ch)), (k + j) mod cells_size ch)) \<or>
    (scan_cells ts (cell ch i 0) (BLOCK_SIZES ! i) (cells_size ch) n h (cell ch i k) k =
          Some (h, None, (k + n) mod cells_size ch) \<and>
      (\<forall>j < n. \<forall>ob. h (cell ch i ((k + j) mod cells_size ch)) = Some ob \<longrightarrow> state ob \<noteq> dead))"
  (is "?found n k \<or> ?none n k")
  using k
proof (induction n arbitrary: k)
  case 0
  then show ?case by simp
next
  case (Suc n)
  let ?c = "cells_size ch"
  from Suc.prems dom obtain ob where ob: "h (cell ch i k) = Some ob" by blast
  show ?case
  proof (cases "state ob = dead")
    case True
    then have "?found (Suc n) k"
      using ob Suc.prems by (auto intro!: exI [of _ 0] simp: next_cell_cell [OF ok] heap_simps fun_upd_def)
    then show ?thesis ..
  next
    case False
    have less: "Suc k mod ?c < ?c" using Suc.prems by simp
    have idx: "(Suc k mod ?c + j) mod ?c = (k + Suc j) mod ?c" for j
      by (simp add: mod_add_left_eq)
    have step: "scan_cells ts (cell ch i 0) (BLOCK_SIZES ! i) ?c (Suc n) h (cell ch i k) k =
        scan_cells ts (cell ch i 0) (BLOCK_SIZES ! i) ?c n h (cell ch i (Suc k mod ?c)) (Suc k mod ?c)"
      using False ob by (simp add: next_cell_cell [OF ok Suc.prems])
    from Suc.IH [OF less] show ?thesis
    proof
      assume "?found n (Suc k mod ?c)"
      then have "?found (Suc n) k" unfolding step idx by (metis Suc_less_eq)
      then show ?thesis ..
    next
      assume none: "?none n (Suc k mod ?c)"
      have "state ob' \<noteq> dead" if "j < Suc n" "h (cell ch i ((k + j) mod ?c)) = Some ob'" for j ob'
        using that none ob False Suc.prems unfolding idx by (cases j) auto
      then have "?none (Suc n) k" using none unfolding step idx by simp
      then show ?thesis ..
    qed
  qed
qed

lemma mod_covers:
  assumes "(k :: nat) < c" "j < c"
  shows "\<exists>n < c. (k + n) mod c = j"
proof (cases "k \<le> j")
  case True
  then show ?thesis using assms by (intro exI [of _ "j - k"]) auto
next
  case False
  then show ?thesis using assms by (intro exI [of _ "c - k + j"]) auto
qed

text \<open>A whole round finds a dead cell if the block has one, and otherwise changes nothing.\<close>

lemma scan_block:
  assumes ok: "chunk_ok ch" "i < 13" and k: "k < cells_size ch"
    and dom: "\<forall>k < cells_size ch. cell ch i k \<in> dom h"
  shows "(\<exists>j < cells_size ch. \<exists>ob. h (cell ch i j) = Some ob \<and> state ob = dead \<and>
        scan_cells ts (cell ch i 0) (BLOCK_SIZES ! i) (cells_size ch) (cells_size ch) h (cell ch i k) k =
          Some (if ts then h(cell ch i j \<mapsto> ob\<lparr>state := live\<rparr>) else h, Some (cell ch i j), j)) \<or>
    (scan_cells ts (cell ch i 0) (BLOCK_SIZES ! i) (cells_size ch) (cells_size ch) h (cell ch i k) k =
          Some (h, None, k) \<and>
      (\<forall>j < cells_size ch. \<forall>ob. h (cell ch i j) = Some ob \<longrightarrow> state ob \<noteq> dead))"
proof -
  let ?c = "cells_size ch"
  have pos: "0 < ?c" using k by simp
  from scan_cells_spec [OF assms, of ?c ts] show ?thesis
  proof
    assume "\<exists>j < ?c. \<exists>ob. h (cell ch i ((k + j) mod ?c)) = Some ob \<and> state ob = dead \<and>
        scan_cells ts (cell ch i 0) (BLOCK_SIZES ! i) ?c ?c h (cell ch i k) k =
          Some (if ts then h(cell ch i ((k + j) mod ?c) \<mapsto> ob\<lparr>state := live\<rparr>) else h,
                Some (cell ch i ((k + j) mod ?c)), (k + j) mod ?c)"
    then show ?thesis using pos mod_less_divisor by blast
  next
    assume "scan_cells ts (cell ch i 0) (BLOCK_SIZES ! i) ?c ?c h (cell ch i k) k =
          Some (h, None, (k + ?c) mod ?c) \<and>
      (\<forall>j < ?c. \<forall>ob. h (cell ch i ((k + j) mod ?c)) = Some ob \<longrightarrow> state ob \<noteq> dead)"
    then show ?thesis using k mod_covers [OF k] by (metis mod_add_self2 mod_less)
  qed
qed


section \<open>\<open>HeapChunk::malloc\<close>\<close>

text \<open>What a successful allocation does to the heap: one dead cell becomes a fresh object.\<close>

definition allocates :: "(type_ptr \<Rightarrow> bool) \<Rightarrow> type_ptr \<Rightarrow> u64 \<Rightarrow> heap \<Rightarrow> heap \<Rightarrow> addr \<Rightarrow> bool" where
  "allocates cyc ty fl h h' a \<longleftrightarrow>
     (\<exists>ob. h a = Some ob \<and> state ob = dead \<and> h' = h(a \<mapsto> fresh_object cyc ty fl ob))"

definition same_chunk :: "HeapChunk \<Rightarrow> HeapChunk \<Rightarrow> bool" where
  "same_chunk ch ch' \<longleftrightarrow> chunk_ok ch' \<and> chunk_base ch' = chunk_base ch \<and> cells_size ch' = cells_size ch \<and>
     (\<forall>i < 13. empty (block_info_list ch' ! i) \<longrightarrow> empty (block_info_list ch ! i))"

definition chunk_in :: "HeapChunk \<Rightarrow> heap \<Rightarrow> bool" where
  "chunk_in ch h \<longleftrightarrow> (\<forall>i < 13. \<forall>k < cells_size ch. cell ch i k \<in> dom h)"

lemma same_chunk_cell: "same_chunk ch ch' \<Longrightarrow> cell ch' = cell ch"
  by (auto simp: same_chunk_def cell_def fun_eq_iff)

lemma same_chunk_refl: "chunk_ok ch \<Longrightarrow> same_chunk ch ch"
  by (simp add: same_chunk_def)

lemma same_chunk_trans: "same_chunk a b \<Longrightarrow> same_chunk b c \<Longrightarrow> same_chunk a c"
  by (auto simp: same_chunk_def)

lemma same_chunk_in: "same_chunk ch ch' \<Longrightarrow> chunk_in ch h \<Longrightarrow> dom h \<subseteq> dom h' \<Longrightarrow> chunk_in ch' h'"
  by (auto simp: chunk_in_def same_chunk_cell same_chunk_def) blast

lemma same_chunk_update:
  assumes ok: "chunk_ok ch" "i < 13"
    and b: "entry_position b = entry_position (block_info_list ch ! i)" "current_location b < cells_size ch"
      "empty b \<longrightarrow> empty (block_info_list ch ! i)"
  shows "same_chunk ch (ch\<lparr>block_info_list := (block_info_list ch)[i := b]\<rparr>)" (is "same_chunk ch ?ch")
proof -
  have len: "length (block_info_list ch) = 13"
    using ok(1) by (simp add: chunk_ok_def NUMBER_OF_BLOCKS_def)
  have nth: "block_info_list ?ch ! j = (if j = i then b else block_info_list ch ! j)" if "j < 13" for j
    using that len by simp
  have base: "chunk_base ?ch = chunk_base ch"
    unfolding chunk_base_def nth [OF zero_less_numeral] using b(1) by simp
  have "chunk_ok ?ch"
    unfolding chunk_ok_def base chunk_end_def using ok b nth len
    by (simp add: chunk_ok_def chunk_end_def NUMBER_OF_BLOCKS_def nth_list_update)
  then show ?thesis
    unfolding same_chunk_def base using b(3) nth by simp
qed

lemma fresh_object_live [simp]:
  "fresh_object cyc ty fl (ob\<lparr>state := live\<rparr>) = fresh_object cyc ty fl ob"
  by (simp add: fresh_object_def)

definition no_dead_cell :: "HeapChunk \<Rightarrow> heap \<Rightarrow> nat \<Rightarrow> bool" where
  "no_dead_cell ch h i \<longleftrightarrow>
     (\<forall>k < cells_size ch. \<forall>ob. h (cell ch i k) = Some ob \<longrightarrow> state ob \<noteq> dead)"

lemma malloc_block_spec:
  assumes ok: "chunk_ok ch" "i < 13" "chunk_in ch h"
    and fits: "sizeof_HeapObject + 8 * unat fl \<le> BLOCK_SIZES ! i"
  shows "\<exists>h' ch' found. malloc_block cyc ty fl ts i (BLOCK_SIZES ! i) h ch = Some (h', ch', found) \<and>
     same_chunk ch ch' \<and> (\<forall>j. j \<noteq> i \<longrightarrow> block_info_list ch' ! j = block_info_list ch ! j) \<and>
     (case found of
        None \<Rightarrow> h' = h \<and> \<not> empty (block_info_list ch' ! i) \<and>
          (empty (block_info_list ch ! i) \<longrightarrow> no_dead_cell ch h i)
      | Some a \<Rightarrow> (\<exists>k < cells_size ch. a = cell ch i k) \<and> allocates cyc ty fl h h' a \<and>
          empty (block_info_list ch' ! i))"
proof -
  let ?b = "block_info_list ch ! i"
  have len: "length (block_info_list ch) = 13"
    using ok(1) by (simp add: chunk_ok_def NUMBER_OF_BLOCKS_def)
  have loc: "current_location ?b < cells_size ch"
    using ok by (simp add: chunk_ok_def)
  have dom: "\<forall>k < cells_size ch. cell ch i k \<in> dom h"
    using ok by (simp add: chunk_in_def)
  have e0: "entry_position ?b = cell ch i 0"
    using entry_cell [OF ok(1,2), of 0] by simp
  have ek: "cell ch i 0 + of_nat (k * BLOCK_SIZES ! i) = cell ch i k" for k
    using entry_cell [OF ok(1,2), of k] e0 by simp
  show ?thesis
  proof (cases "empty ?b")
    case False
    then show ?thesis
      using len ok by (simp add: malloc_block_def at_def same_chunk_refl)
  next
    case True
    from scan_block [OF ok(1,2) loc dom, of ts] show ?thesis
    proof (elim disjE exE conjE)
      fix j ob
      assume j: "j < cells_size ch" and ob: "h (cell ch i j) = Some ob" "state ob = dead"
        and scan: "scan_cells ts (cell ch i 0) (BLOCK_SIZES ! i) (cells_size ch) (cells_size ch) h
          (cell ch i (current_location ?b)) (current_location ?b) =
          Some (if ts then h(cell ch i j \<mapsto> ob\<lparr>state := live\<rparr>) else h, Some (cell ch i j), j)"
      have al: "allocates cyc ty fl h (h(cell ch i j \<mapsto> fresh_object cyc ty fl ob)) (cell ch i j)"
        using ob by (auto simp: allocates_def)
      have sc: "same_chunk ch (ch\<lparr>block_info_list := (block_info_list ch)
          [i := ?b\<lparr>current_location := (if j + 1 = cells_size ch then 0 else j + 1)\<rparr>]\<rparr>)"
        using j by (intro same_chunk_update [OF ok(1,2)]) auto
      have "malloc_block cyc ty fl ts i (BLOCK_SIZES ! i) h ch =
        Some (h(cell ch i j \<mapsto> fresh_object cyc ty fl ob),
          ch\<lparr>block_info_list := (block_info_list ch)
            [i := ?b\<lparr>current_location := (if j + 1 = cells_size ch then 0 else j + 1)\<rparr>]\<rparr>,
          Some (cell ch i j))"
        using True len ok(2) ob fits
        by (simp add: malloc_block_def at_def e0 ek scan init_object_def del: of_nat_mult)
      then show ?thesis using al sc j True len ok(2) by auto
    next
      assume scan: "scan_cells ts (cell ch i 0) (BLOCK_SIZES ! i) (cells_size ch) (cells_size ch) h
          (cell ch i (current_location ?b)) (current_location ?b) = Some (h, None, current_location ?b)"
        and none: "\<forall>j < cells_size ch. \<forall>ob. h (cell ch i j) = Some ob \<longrightarrow> state ob \<noteq> dead"
      have "malloc_block cyc ty fl ts i (BLOCK_SIZES ! i) h ch =
        Some (h, ch\<lparr>block_info_list := (block_info_list ch)
            [i := ?b\<lparr>current_location := current_location ?b, empty := False\<rparr>]\<rparr>, None)"
        using True len ok(2) by (simp add: malloc_block_def at_def e0 ek scan del: of_nat_mult)
      moreover have "same_chunk ch (ch\<lparr>block_info_list := (block_info_list ch)
            [i := ?b\<lparr>current_location := current_location ?b, empty := False\<rparr>]\<rparr>)"
        using loc by (intro same_chunk_update [OF ok(1,2)]) auto
      ultimately show ?thesis using none len ok(2) by (auto simp: no_dead_cell_def)
    qed
  qed
qed


lemma next_block_size_nth:
  assumes "i < 13"
  shows "next_block_size (BLOCK_SIZES ! i) = Some (if i = 12 then 640 else BLOCK_SIZES ! (i + 1))"
proof -
  have "list_all (\<lambda>i. next_block_size (BLOCK_SIZES ! i) =
      Some (if i = 12 then 640 else BLOCK_SIZES ! (i + 1))) [0..<13]"
    by (simp add: upt_rec next_block_size_def BLOCK_SIZES_def)
  then show ?thesis using assms by (simp add: list_all_iff)
qed

lemma block_size_Suc: "i + 1 < 13 \<Longrightarrow> BLOCK_SIZES ! i \<le> BLOCK_SIZES ! (i + 1)"
proof -
  have "list_all (\<lambda>i. BLOCK_SIZES ! i \<le> BLOCK_SIZES ! (i + 1)) [0..<12]"
    by (simp add: upt_rec BLOCK_SIZES_def)
  then show "i + 1 < 13 \<Longrightarrow> ?thesis" by (simp add: list_all_iff)
qed

lemma allocates_dom: "allocates cyc ty fl h h' a \<Longrightarrow> dom h' = dom h"
  by (auto simp: allocates_def split: if_splits)

text \<open>
  The chunk either hands out a dead cell of a block at or above the requested class, or
  returns null and leaves the heap as it was. A block it passes over is never offered again.
\<close>

definition chunk_found :: "(type_ptr \<Rightarrow> bool) \<Rightarrow> type_ptr \<Rightarrow> u64 \<Rightarrow> HeapChunk \<Rightarrow> HeapChunk \<Rightarrow> nat \<Rightarrow> heap \<Rightarrow>
    heap \<Rightarrow> addr \<Rightarrow> bool" where
  "chunk_found cyc ty fl ch ch' i h h' a \<longleftrightarrow>
     (\<exists>j k. i \<le> j \<and> j < 13 \<and> k < cells_size ch \<and> a = cell ch j k \<and> empty (block_info_list ch' ! j) \<and>
        allocates cyc ty fl h h' a)"

definition chunk_full :: "HeapChunk \<Rightarrow> HeapChunk \<Rightarrow> nat \<Rightarrow> heap \<Rightarrow> bool" where
  "chunk_full ch ch' i h \<longleftrightarrow>
     (\<forall>j. i \<le> j \<and> j < 13 \<longrightarrow> \<not> empty (block_info_list ch' ! j) \<and>
        (empty (block_info_list ch ! j) \<longrightarrow> no_dead_cell ch h j))"

lemma no_dead_cell_same: "same_chunk ch ch' \<Longrightarrow> no_dead_cell ch' h = no_dead_cell ch h"
  by (auto simp: no_dead_cell_def same_chunk_cell fun_eq_iff same_chunk_def)

lemma chunk_found_step:
  assumes "same_chunk ch ch'" "chunk_found cyc ty fl ch' ch2 (i + 1) h h' a"
  shows "chunk_found cyc ty fl ch ch2 i h h' a"
proof -
  from assms(2) obtain j k where "i + 1 \<le> j" "j < 13" "k < cells_size ch'" "a = cell ch' j k"
    "empty (block_info_list ch2 ! j)" "allocates cyc ty fl h h' a"
    by (auto simp: chunk_found_def)
  then show ?thesis
    using assms(1) unfolding chunk_found_def same_chunk_cell [OF assms(1)]
    by (intro exI [of _ j] exI [of _ k]) (simp add: same_chunk_def)
qed

lemma chunk_full_step:
  assumes "same_chunk ch ch'" "same_chunk ch' ch''" "\<forall>j. j \<noteq> i \<longrightarrow> block_info_list ch' ! j = block_info_list ch ! j"
    "\<not> empty (block_info_list ch' ! i)" "empty (block_info_list ch ! i) \<longrightarrow> no_dead_cell ch h i"
    "chunk_full ch' ch'' (i + 1) h" "i < 13"
  shows "chunk_full ch ch'' i h"
  unfolding chunk_full_def
proof (intro allI impI)
  fix j assume j: "i \<le> j \<and> j < 13"
  show "\<not> empty (block_info_list ch'' ! j) \<and> (empty (block_info_list ch ! j) \<longrightarrow> no_dead_cell ch h j)"
  proof (cases "j = i")
    case True
    then show ?thesis using assms(2,4,5,7) by (auto simp: same_chunk_def)
  next
    case False
    then show ?thesis
      using assms(3,6) j no_dead_cell_same [OF assms(1)] by (auto simp: chunk_full_def)
  qed
qed

lemma HeapChunk_malloc_spec:
  assumes "chunk_ok ch" "i < 13" "chunk_in ch h"
    and "sizeof_HeapObject + 8 * unat fl \<le> BLOCK_SIZES ! i"
  shows "\<exists>h' ch' a. HeapChunk_malloc cyc ty fl ts i (BLOCK_SIZES ! i) h ch = Some (h', ch', a) \<and>
     same_chunk ch ch' \<and> (a = nullptr \<and> h' = h \<and> chunk_full ch ch' i h \<or> chunk_found cyc ty fl ch ch' i h h' a)"
  using assms
proof (induction "13 - i" arbitrary: i ch)
  case (0 i ch)
  then show ?case by simp
next
  case (Suc n i ch)
  obtain h' ch' found where mb: "malloc_block cyc ty fl ts i (BLOCK_SIZES ! i) h ch = Some (h', ch', found)"
    and sc: "same_chunk ch ch'" and fr: "\<forall>j. j \<noteq> i \<longrightarrow> block_info_list ch' ! j = block_info_list ch ! j"
    and res: "case found of
        None \<Rightarrow> h' = h \<and> \<not> empty (block_info_list ch' ! i) \<and>
          (empty (block_info_list ch ! i) \<longrightarrow> no_dead_cell ch h i)
      | Some a \<Rightarrow> (\<exists>k < cells_size ch. a = cell ch i k) \<and> allocates cyc ty fl h h' a \<and>
          empty (block_info_list ch' ! i)"
    using malloc_block_spec [OF Suc.prems] by blast
  show ?case
  proof (cases found)
    case (Some a)
    then have "chunk_found cyc ty fl ch ch' i h h' a"
      using res Suc.prems(2) by (auto simp: chunk_found_def)
    then show ?thesis using mb sc Some by (auto simp: HeapChunk_malloc.simps)
  next
    case None
    then have none: "h' = h" "\<not> empty (block_info_list ch' ! i)"
      "empty (block_info_list ch ! i) \<longrightarrow> no_dead_cell ch h i" using res by auto
    show ?thesis
    proof (cases "i = 12")
      case True
      have "chunk_full ch' ch' 13 h" by (auto simp: chunk_full_def)
      then have "chunk_full ch ch' i h"
        using chunk_full_step [OF sc same_chunk_refl fr none(2,3)] sc True by (simp add: same_chunk_def)
      then show ?thesis
        using mb sc None none(1) True next_block_size_nth [OF Suc.prems(2)]
        by (auto simp: HeapChunk_malloc.simps)
    next
      case False
      then have i: "i + 1 < 13" using Suc.prems(2) by simp
      have rec: "HeapChunk_malloc cyc ty fl ts i (BLOCK_SIZES ! i) h ch =
          HeapChunk_malloc cyc ty fl ts (i + 1) (BLOCK_SIZES ! (i + 1)) h ch'"
        using mb None none(1) next_block_size_nth [OF Suc.prems(2)] False
        by (subst HeapChunk_malloc.simps) simp
      have fits: "sizeof_HeapObject + 8 * unat fl \<le> BLOCK_SIZES ! (i + 1)"
        using block_size_Suc [OF i] Suc.prems(4) by simp
      have ok': "chunk_ok ch'" "chunk_in ch' h"
        using sc same_chunk_in [OF sc Suc.prems(3)] by (auto simp: same_chunk_def)
      have n: "n = 13 - (i + 1)" using Suc.hyps(2) by simp
      from Suc.hyps(1) [OF n ok'(1) i ok'(2) fits]
      obtain h2 ch2 a where r: "HeapChunk_malloc cyc ty fl ts (i + 1) (BLOCK_SIZES ! (i + 1)) h ch' = Some (h2, ch2, a)"
        "same_chunk ch' ch2"
        "a = nullptr \<and> h2 = h \<and> chunk_full ch' ch2 (i + 1) h \<or> chunk_found cyc ty fl ch' ch2 (i + 1) h h2 a"
        by blast
      show ?thesis
        unfolding rec using r same_chunk_trans [OF sc r(2)] chunk_found_step [OF sc]
          chunk_full_step [OF sc r(2) fr none(2,3) _ Suc.prems(2)] by blast
    qed
  qed
qed


section \<open>Memory\<close>

definition mem_ok :: "memory \<Rightarrow> bool" where
  "mem_ok m \<longleftrightarrow> 1 < unat (brk m) \<and> (\<forall>a \<in> dom (heap m). unat a < unat (brk m)) \<and>
     heap m nullptr = None \<and> heap m 1 = None \<and>
     (\<forall>c ch. chunk_at m c = Some ch \<longrightarrow> unat c < unat (brk m) \<and> chunk_ok ch \<and> chunk_in ch (heap m) \<and>
        chunk_end ch \<le> unat (brk m)) \<and>
     (\<forall>c c' ch ch'. chunk_at m c = Some ch \<and> chunk_at m c' = Some ch' \<and> c \<noteq> c' \<longrightarrow>
        disjoint_ranges (unat (chunk_base ch)) (BLOCKS_SIZE * cells_size ch)
          (unat (chunk_base ch')) (BLOCKS_SIZE * cells_size ch'))"

definition allocator_ok :: "HeapAllocator \<Rightarrow> memory \<Rightarrow> bool" where
  "allocator_ok al m \<longleftrightarrow> number_of_chunks al = length (chunks al) \<and> 0 < number_of_chunks al \<and>
     0 < chunks_cells_size al \<and> set (chunks al) \<subseteq> dom (chunk_at m)"

definition chunk_bytes :: "nat \<Rightarrow> nat" where
  "chunk_bytes cells = cells * BLOCKS_SIZE + sizeof_BlockInfo * NUMBER_OF_BLOCKS"

text \<open>Headers may change, but a chunk keeps its place, and nothing else moves.\<close>

definition mem_frame :: "memory \<Rightarrow> memory \<Rightarrow> bool" where
  "mem_frame m m' \<longleftrightarrow> (\<forall>c. rel_option same_chunk (chunk_at m c) (chunk_at m' c)) \<and>
     dom (heap m') = dom (heap m) \<and> brk m' = brk m \<and> heap_chunk_list m' = heap_chunk_list m"

lemma mem_ok_chunk:
  "mem_ok m \<Longrightarrow> chunk_at m c = Some ch \<Longrightarrow>
     chunk_ok ch \<and> chunk_in ch (heap m) \<and> unat c < unat (brk m) \<and> chunk_end ch \<le> unat (brk m)"
  by (auto simp: mem_ok_def)

lemma mem_ok_disjoint:
  "mem_ok m \<Longrightarrow> chunk_at m c = Some ch \<Longrightarrow> chunk_at m c' = Some ch' \<Longrightarrow> c \<noteq> c' \<Longrightarrow>
     disjoint_ranges (unat (chunk_base ch)) (BLOCKS_SIZE * cells_size ch)
       (unat (chunk_base ch')) (BLOCKS_SIZE * cells_size ch')"
  by (simp add: mem_ok_def)

lemma mem_ok_dom: "mem_ok m \<Longrightarrow> heap m a = Some ob \<Longrightarrow> unat a < unat (brk m)"
  unfolding mem_ok_def by blast

lemma mem_ok_pos: "mem_ok m \<Longrightarrow> 1 < unat (brk m)" and mem_ok_null: "mem_ok m \<Longrightarrow> heap m nullptr = None"
  and mem_ok_one: "mem_ok m \<Longrightarrow> heap m 1 = None"
  by (simp_all add: mem_ok_def)

lemma mem_ok_brk:
  assumes ok: "mem_ok m" and le: "unat (brk m) \<le> unat b"
  shows "mem_ok (m\<lparr>brk := b\<rparr>)"
  unfolding mem_ok_def
proof (intro conjI allI impI ballI)
  show "1 < unat (brk (m\<lparr>brk := b\<rparr>))" "heap (m\<lparr>brk := b\<rparr>) nullptr = None" "heap (m\<lparr>brk := b\<rparr>) 1 = None"
    using mem_ok_pos [OF ok] mem_ok_null [OF ok] mem_ok_one [OF ok] le by auto
  show "unat a < unat (brk (m\<lparr>brk := b\<rparr>))" if "a \<in> dom (heap (m\<lparr>brk := b\<rparr>))" for a
    using mem_ok_dom [OF ok, of a] le that by auto
  fix c ch assume "chunk_at (m\<lparr>brk := b\<rparr>) c = Some ch"
  then show "unat c < unat (brk (m\<lparr>brk := b\<rparr>))" "chunk_ok ch" "chunk_in ch (heap (m\<lparr>brk := b\<rparr>))"
    "chunk_end ch \<le> unat (brk (m\<lparr>brk := b\<rparr>))"
    using mem_ok_chunk [OF ok, of c ch] le by auto
qed (auto intro: mem_ok_disjoint [OF ok])

lemma mem_frame_update:
  assumes "mem_ok m" "chunk_at m c = Some ch" "same_chunk ch ch'" "dom h' = dom (heap m)"
  shows "mem_frame m (m\<lparr>heap := h', chunk_at := (chunk_at m)(c \<mapsto> ch')\<rparr>)"
proof -
  have "rel_option same_chunk (chunk_at m d) (chunk_at m d)" for d
    using mem_ok_chunk [OF assms(1)] same_chunk_refl by (cases "chunk_at m d") auto
  then show ?thesis using assms by (simp add: mem_frame_def)
qed

lemma rel_same_chunk_trans:
  "rel_option same_chunk x y \<Longrightarrow> rel_option same_chunk y z \<Longrightarrow> rel_option same_chunk x z"
  by (cases x; cases y; cases z) (auto intro: same_chunk_trans)

lemma mem_frame_trans: "mem_frame a b \<Longrightarrow> mem_frame b c \<Longrightarrow> mem_frame a c"
  unfolding mem_frame_def by (metis rel_same_chunk_trans)

lemma mem_frame_chunk:
  assumes "mem_frame m m'" "chunk_at m' c = Some ch'"
  shows "\<exists>ch. chunk_at m c = Some ch \<and> same_chunk ch ch'"
proof -
  have "rel_option same_chunk (chunk_at m c) (chunk_at m' c)"
    using assms(1) by (auto simp: mem_frame_def)
  then show ?thesis using assms(2) by (cases "chunk_at m c") auto
qed

lemma mem_frame_dom: "mem_frame m m' \<Longrightarrow> dom (chunk_at m') = dom (chunk_at m)"
proof (intro set_eqI)
  fix c assume "mem_frame m m'"
  then have "rel_option same_chunk (chunk_at m c) (chunk_at m' c)" by (auto simp: mem_frame_def)
  then show "c \<in> dom (chunk_at m') \<longleftrightarrow> c \<in> dom (chunk_at m)"
    by (cases "chunk_at m c"; cases "chunk_at m' c") auto
qed

lemma mem_frame_ok:
  assumes fr: "mem_frame m m'" and ok: "mem_ok m"
  shows "mem_ok m'"
  unfolding mem_ok_def
proof (intro conjI allI impI)
  have same: "dom (heap m') = dom (heap m)" "brk m' = brk m" using fr by (auto simp: mem_frame_def)
  show "1 < unat (brk m')" "\<forall>a \<in> dom (heap m'). unat a < unat (brk m')"
    using ok same by (auto simp: mem_ok_def)
  show "heap m' nullptr = None" "heap m' 1 = None"
    using mem_ok_null [OF ok] mem_ok_one [OF ok] same(1) by (metis domIff)+
  fix c ch' assume "chunk_at m' c = Some ch'"
  from mem_frame_chunk [OF fr this] obtain ch where ch: "chunk_at m c = Some ch" "same_chunk ch ch'" by blast
  note old = mem_ok_chunk [OF ok ch(1)]
  show "unat c < unat (brk m')" "chunk_ok ch'" "chunk_end ch' \<le> unat (brk m')"
    using old ch(2) same by (auto simp: same_chunk_def chunk_end_def)
  show "chunk_in ch' (heap m')" using same_chunk_in [OF ch(2)] old same by auto
next
  fix c c' ch ch'
  assume a: "chunk_at m' c = Some ch \<and> chunk_at m' c' = Some ch' \<and> c \<noteq> c'"
  obtain k where k: "chunk_at m c = Some k" "same_chunk k ch" using mem_frame_chunk [OF fr] a by blast
  obtain k' where k': "chunk_at m c' = Some k'" "same_chunk k' ch'" using mem_frame_chunk [OF fr] a by blast
  have "disjoint_ranges (unat (chunk_base k)) (BLOCKS_SIZE * cells_size k)
      (unat (chunk_base k')) (BLOCKS_SIZE * cells_size k')"
    using mem_ok_disjoint [OF ok k(1) k'(1)] a by blast
  then show "disjoint_ranges (unat (chunk_base ch)) (BLOCKS_SIZE * cells_size ch)
      (unat (chunk_base ch')) (BLOCKS_SIZE * cells_size ch')"
    using k(2) k'(2) by (simp add: same_chunk_def)
qed

section \<open>A new chunk\<close>

lemma cell_in_chunk_cells:
  assumes "i < 13" "k < cells"
  shows "p + of_nat (cell_offset cells i k) \<in> set (chunk_cells p cells)"
proof -
  have "block_cells (positions BLOCK_SIZES p cells ! i) (BLOCK_SIZES ! i) cells
      \<in> set (map2 (\<lambda>p b. block_cells p b cells) (positions BLOCK_SIZES p cells) BLOCK_SIZES)"
    using assms(1) by (force simp: set_conv_nth)
  moreover have "p + of_nat (cell_offset cells i k)
      \<in> set (block_cells (positions BLOCK_SIZES p cells ! i) (BLOCK_SIZES ! i) cells)"
    using assms by (auto simp: block_cells_def nth_positions cell_offset_def block_offset_def algebra_simps)
  ultimately show ?thesis
    unfolding chunk_cells_def set_concat by blast
qed

lemma chunk_cells_cell:
  assumes "a \<in> set (chunk_cells p cells)"
  shows "\<exists>i < 13. \<exists>k < cells. a = p + of_nat (cell_offset cells i k)"
proof -
  from assms obtain i where i: "i < 13"
    and a: "a \<in> set (block_cells (positions BLOCK_SIZES p cells ! i) (BLOCK_SIZES ! i) cells)"
    by (auto simp: chunk_cells_def in_set_conv_nth [of _ "zip _ _"])
  then obtain k where "k < cells" "a = positions BLOCK_SIZES p cells ! i + of_nat (k * BLOCK_SIZES ! i)"
    by (auto simp: block_cells_def)
  then show ?thesis
    using i by (intro exI [of _ i] exI [of _ k] conjI)
      (auto simp: nth_positions cell_offset_def block_offset_def algebra_simps)
qed


text \<open>Every cell of a region lies in the region, so new cells are not old objects.\<close>

lemma new_cell_range:
  assumes "unat p + chunk_bytes cells < 2 ^ 64" "a \<in> set (chunk_cells p cells)"
  shows "unat p \<le> unat a \<and> unat a < unat p + BLOCKS_SIZE * cells"
proof -
  from chunk_cells_cell [OF assms(2)] obtain i k where ik: "i < 13" "k < cells"
    and a: "a = p + of_nat (cell_offset cells i k)" by blast
  have lt: "cell_offset cells i k < BLOCKS_SIZE * cells"
    using cell_end_chunk [OF ik] block_size_ge [OF ik(1)] by simp
  moreover have "BLOCKS_SIZE * cells \<le> chunk_bytes cells" by (simp add: chunk_bytes_def)
  ultimately have b: "unat p + cell_offset cells i k < 2 ^ 64" using assms(1) by linarith
  then have "unat (of_nat (cell_offset cells i k) :: u64) = cell_offset cells i k"
    by (intro unat_of_nat_id) simp
  then have "unat a = unat p + cell_offset cells i k"
    using b unat_add_no_wrap [of p "of_nat (cell_offset cells i k)"] by (simp add: a)
  then show ?thesis using lt by simp
qed

definition new_chunk :: "addr \<Rightarrow> nat \<Rightarrow> HeapChunk" where
  "new_chunk p cells = \<lparr>cells_size = cells, block_info_list =
     map (\<lambda>p. \<lparr>entry_position = p, empty = True, current_location = 0\<rparr>) (positions BLOCK_SIZES p cells)\<rparr>"

lemma new_chunk_simps [simp]:
  "cells_size (new_chunk p cells) = cells" "chunk_base (new_chunk p cells) = p"
  "i < 13 \<Longrightarrow> empty (block_info_list (new_chunk p cells) ! i)"
  "chunk_end (new_chunk p cells) = unat p + BLOCKS_SIZE * cells"
  by (simp_all add: new_chunk_def chunk_base_def chunk_end_def nth_positions)

lemma new_chunk_ok:
  assumes "0 < cells" "0 < unat p" "unat p + chunk_bytes cells < 2 ^ 64"
  shows "chunk_ok (new_chunk p cells)"
proof -
  have "chunk_end (new_chunk p cells) < 2 ^ 64"
    using assms(3) by (simp add: chunk_bytes_def mult.commute)
  moreover have "\<forall>i < 13. entry_position (block_info_list (new_chunk p cells) ! i) =
        p + of_nat (block_offset i * cells) \<and> current_location (block_info_list (new_chunk p cells) ! i) < cells"
    using assms(1) by (simp add: new_chunk_def nth_positions block_offset_def)
  moreover have "length (block_info_list (new_chunk p cells)) = NUMBER_OF_BLOCKS"
    by (simp add: new_chunk_def NUMBER_OF_BLOCKS_def)
  ultimately show ?thesis using assms unfolding chunk_ok_def by simp
qed

lemma new_chunk_cell: "cell (new_chunk p cells) i k = p + of_nat (cell_offset cells i k)"
  by (simp add: cell_def)

text \<open>The heap grows by dead cells only.\<close>

definition grows :: "heap \<Rightarrow> heap \<Rightarrow> bool" where
  "grows h h' \<longleftrightarrow> (\<forall>a. h' a = h a \<or> h a = None \<and> h' a = Some zero_object)"

lemma grows_refl [simp]: "grows h h"
  by (simp add: grows_def)

lemma create_heap_chunk_eq:
  "create_heap_chunk c cells m =
     m\<lparr>brk := brk m + of_nat (chunk_bytes cells),
       heap := (\<lambda>a. if a \<in> set (chunk_cells (brk m) cells) then Some zero_object else heap m a),
       chunk_at := (chunk_at m)(c \<mapsto> new_chunk (brk m) cells)\<rparr>"
  by (simp add: create_heap_chunk_def calloc_def new_chunk_def chunk_bytes_def cong: if_cong)

lemma create_heap_chunk_ok:
  assumes ok: "mem_ok m" and c: "chunk_at m c = None" "unat c < unat (brk m)"
    and room: "0 < cells" "unat (brk m) + chunk_bytes cells < 2 ^ 64"
  shows "mem_ok (create_heap_chunk c cells m)"
    and "grows (heap m) (heap (create_heap_chunk c cells m))"
    and "unat (brk (create_heap_chunk c cells m)) = unat (brk m) + chunk_bytes cells"
proof -
  let ?m = "create_heap_chunk c cells m" and ?n = "new_chunk (brk m) cells"
  note eq = create_heap_chunk_eq [of c cells m]
  have pos: "0 < unat (brk m)" using ok by (simp add: mem_ok_def)
  have pos1: "1 < unat (brk m)" using ok by (simp add: mem_ok_def)
  have n: "unat (of_nat (chunk_bytes cells) :: u64) = chunk_bytes cells"
    using room by (intro unat_of_nat_id) simp
  show brk: "unat (brk ?m) = unat (brk m) + chunk_bytes cells"
    using room unat_add_no_wrap [of "brk m" "of_nat (chunk_bytes cells)"] n by (simp add: eq)
  have range: "unat (brk m) \<le> unat a \<and> unat a < unat (brk m) + BLOCKS_SIZE * cells"
    if "a \<in> set (chunk_cells (brk m) cells)" for a
    by (rule new_cell_range [OF room(2) that])
  have bytes: "BLOCKS_SIZE * cells \<le> chunk_bytes cells" by (simp add: chunk_bytes_def)
  have fresh: "heap m a = None" if "a \<in> set (chunk_cells (brk m) cells)" for a
    using range [OF that] ok unfolding mem_ok_def by (meson domIff not_le)
  show g: "grows (heap m) (heap ?m)"
    using fresh by (auto simp: eq grows_def)
  have dom: "dom (heap m) \<subseteq> dom (heap ?m)" by (auto simp: eq)
  have old: "unat d < unat (brk ?m) \<and> chunk_ok ch \<and> chunk_in ch (heap ?m) \<and> chunk_end ch \<le> unat (brk m)"
    if "chunk_at m d = Some ch" for d ch
    using mem_ok_chunk [OF ok that] dom brk same_chunk_in [OF same_chunk_refl, of ch "heap m" "heap ?m"] by auto
  have nok: "chunk_ok ?n" using new_chunk_ok room pos by blast
  have nin: "chunk_in ?n (heap ?m)"
    by (auto simp: chunk_in_def new_chunk_cell eq cell_in_chunk_cells)
  show "mem_ok ?m"
    unfolding mem_ok_def
  proof (intro conjI allI impI ballI)
    show "1 < unat (brk ?m)" using pos1 brk by simp
    show "unat a < unat (brk ?m)" if "a \<in> dom (heap ?m)" for a
    proof (cases "a \<in> set (chunk_cells (brk m) cells)")
      case True
      then show ?thesis using range brk bytes by fastforce
    next
      case False
      then have "a \<in> dom (heap m)" using that by (auto simp: eq)
      then have "unat a < unat (brk m)" using ok by (simp add: mem_ok_def)
      then show ?thesis using brk by simp
    qed
    have "nullptr \<notin> set (chunk_cells (brk m) cells)" "1 \<notin> set (chunk_cells (brk m) cells)"
      using range [of nullptr] range [of 1] pos1 by auto
    then show "heap ?m nullptr = None" "heap ?m 1 = None" using ok by (simp_all add: eq mem_ok_def)
    fix d ch assume ch: "chunk_at ?m d = Some ch"
    then have d: "d = c \<and> ch = ?n \<or> chunk_at m d = Some ch" by (auto simp: eq split: if_splits)
    show "unat d < unat (brk ?m)" "chunk_ok ch" "chunk_in ch (heap ?m)" "chunk_end ch \<le> unat (brk ?m)"
      using d old [of d ch] nok nin c(2) brk bytes by auto
  next
    fix d d' ch ch'
    assume a: "chunk_at ?m d = Some ch \<and> chunk_at ?m d' = Some ch' \<and> d \<noteq> d'"
    then have "(d = c \<and> ch = ?n \<or> chunk_at m d = Some ch \<and> d \<noteq> c) \<and> (d' = c \<and> ch' = ?n \<or> chunk_at m d' = Some ch' \<and> d' \<noteq> c)"
      by (auto simp: eq split: if_splits)
    then show "disjoint_ranges (unat (chunk_base ch)) (BLOCKS_SIZE * cells_size ch)
          (unat (chunk_base ch')) (BLOCKS_SIZE * cells_size ch')"
      using a old [of d ch] old [of d' ch'] mem_ok_disjoint [OF ok, of d ch d' ch']
      by (auto simp: disjoint_ranges_def chunk_end_def)
  qed
qed


section \<open>\<open>HeapAllocator::malloc\<close>\<close>

text \<open>A chunk that the search left without success has no dead cell in an open block.\<close>

definition exhausted :: "memory \<Rightarrow> nat \<Rightarrow> addr \<Rightarrow> bool" where
  "exhausted m i c \<longleftrightarrow> (\<forall>ch. chunk_at m c = Some ch \<longrightarrow>
     (\<forall>j. i \<le> j \<and> j < 13 \<and> empty (block_info_list ch ! j) \<longrightarrow> no_dead_cell ch (heap m) j))"

definition mem_allocates :: "(type_ptr \<Rightarrow> bool) \<Rightarrow> type_ptr \<Rightarrow> u64 \<Rightarrow> memory \<Rightarrow> memory \<Rightarrow> addr \<Rightarrow> bool" where
  "mem_allocates cyc ty fl m m' a \<longleftrightarrow> mem_frame m m' \<and> a \<noteq> nullptr \<and> allocates cyc ty fl (heap m) (heap m') a \<and>
     (\<exists>c ch j k. chunk_at m' c = Some ch \<and> j < 13 \<and> k < cells_size ch \<and> a = cell ch j k \<and>
        empty (block_info_list ch ! j) \<and> sizeof_HeapObject + 8 * unat fl \<le> BLOCK_SIZES ! j)"

lemma block_size_mono: "i \<le> j \<Longrightarrow> j < 13 \<Longrightarrow> BLOCK_SIZES ! i \<le> BLOCK_SIZES ! j"
proof (induction j)
  case 0
  then show ?case by simp
next
  case (Suc j)
  then show ?case using block_size_Suc [of j] by (cases "i = Suc j") auto
qed

lemma allocator_ok_frame: "allocator_ok al m \<Longrightarrow> mem_frame m m' \<Longrightarrow> allocator_ok al m'"
  by (auto simp: allocator_ok_def mem_frame_dom)

text \<open>One visit to a chunk.\<close>

lemma visit_chunk:
  assumes ok: "mem_ok m" "chunk_at m c = Some ch" and i: "i < 13"
    and fits: "sizeof_HeapObject + 8 * unat fl \<le> BLOCK_SIZES ! i"
  shows "\<exists>h' ch' a. HeapChunk_malloc cyc ty fl ts i (BLOCK_SIZES ! i) (heap m) ch = Some (h', ch', a) \<and>
     (let m' = m\<lparr>heap := h', chunk_at := (chunk_at m)(c \<mapsto> ch')\<rparr> in mem_frame m m' \<and>
       (a = nullptr \<and> heap m' = heap m \<and> exhausted m i c \<or> mem_allocates cyc ty fl m m' a))"
proof -
  note ch = mem_ok_chunk [OF ok]
  from HeapChunk_malloc_spec [of ch i "heap m" fl cyc ty ts] ch i fits
  obtain h' ch' a where r: "HeapChunk_malloc cyc ty fl ts i (BLOCK_SIZES ! i) (heap m) ch = Some (h', ch', a)"
    "same_chunk ch ch'"
    "a = nullptr \<and> h' = heap m \<and> chunk_full ch ch' i (heap m) \<or> chunk_found cyc ty fl ch ch' i (heap m) h' a"
    by auto
  let ?m = "m\<lparr>heap := h', chunk_at := (chunk_at m)(c \<mapsto> ch')\<rparr>"
  from r(3) show ?thesis
  proof
    assume none: "a = nullptr \<and> h' = heap m \<and> chunk_full ch ch' i (heap m)"
    then have "exhausted m i c" using ok(2) by (simp add: exhausted_def chunk_full_def)
    then show ?thesis using r(1) none mem_frame_update [OF ok r(2), of h'] by auto
  next
    assume "chunk_found cyc ty fl ch ch' i (heap m) h' a"
    then obtain j k where jk: "i \<le> j" "j < 13" "k < cells_size ch" "a = cell ch j k" "empty (block_info_list ch' ! j)"
      and al: "allocates cyc ty fl (heap m) h' a" by (auto simp: chunk_found_def)
    have "mem_frame m ?m" using mem_frame_update [OF ok r(2)] allocates_dom [OF al] by simp
    moreover have "a \<noteq> nullptr" using cell_nonnull [of ch j k] jk ch by simp
    moreover have "sizeof_HeapObject + 8 * unat fl \<le> BLOCK_SIZES ! j"
      using fits block_size_mono [OF jk(1,2)] by simp
    moreover have "chunk_at ?m c = Some ch'" "k < cells_size ch'" "a = cell ch' j k"
      using r(2) jk same_chunk_cell [OF r(2)] by (simp_all add: same_chunk_def)
    ultimately have "mem_allocates cyc ty fl m ?m a"
      unfolding mem_allocates_def using al jk(2,5) by (intro conjI exI [of _ c] exI [of _ ch'] exI [of _ j] exI [of _ k]) simp_all
    then show ?thesis using r(1) by (auto simp: mem_allocates_def Let_def)
  qed
qed

lemma mem_allocates_frame:
  assumes "mem_frame m m1" "heap m1 = heap m" "mem_allocates cyc ty fl m1 m' a"
  shows "mem_allocates cyc ty fl m m' a"
  using assms mem_frame_trans [OF assms(1)] by (auto simp: mem_allocates_def)

lemma exhausted_frame:
  assumes "mem_ok m" "chunk_at m c = Some ch" "exhausted m i c"
    "exhausted (m\<lparr>heap := heap m, chunk_at := (chunk_at m)(c \<mapsto> ch')\<rparr>) i d"
  shows "exhausted m i d"
  using assms by (cases "d = c") (auto simp: exhausted_def)

lemma search_chunks_spec:
  assumes "mem_ok m" "allocator_ok al m" "cci < number_of_chunks al" "i < 13"
    and "sizeof_HeapObject + 8 * unat fl \<le> BLOCK_SIZES ! i"
  shows "\<exists>m' found cci'. search_chunks cyc ty fl al i (BLOCK_SIZES ! i) n cci m = Some (m', found, cci') \<and>
     cci' < number_of_chunks al \<and>
     (case found of
        None \<Rightarrow> mem_frame m m' \<and> heap m' = heap m \<and>
          (\<forall>j < n. exhausted m i (chunks al ! ((cci + j) mod number_of_chunks al)))
      | Some a \<Rightarrow> mem_allocates cyc ty fl m m' a)"
  using assms
proof (induction n arbitrary: m cci)
  case 0
  have "rel_option same_chunk (chunk_at m c) (chunk_at m c)" for c
    using mem_ok_chunk [OF "0.prems"(1)] same_chunk_refl by (cases "chunk_at m c") auto
  then show ?case using 0 by (simp add: mem_frame_def)
next
  case (Suc n)
  let ?N = "number_of_chunks al" and ?c = "chunks al ! cci"
  have atc: "at (chunks al) cci = Some ?c" "?c \<in> set (chunks al)"
    using Suc.prems(2,3) by (auto simp: allocator_ok_def at_def)
  then obtain ch where ch: "chunk_at m ?c = Some ch"
    using Suc.prems(2) by (auto simp: allocator_ok_def)
  obtain h' ch' a where r: "HeapChunk_malloc cyc ty fl (is_thread_safe al) i (BLOCK_SIZES ! i) (heap m) ch = Some (h', ch', a)"
    and res: "let m' = m\<lparr>heap := h', chunk_at := (chunk_at m)(?c \<mapsto> ch')\<rparr> in mem_frame m m' \<and>
       (a = nullptr \<and> heap m' = heap m \<and> exhausted m i ?c \<or> mem_allocates cyc ty fl m m' a)"
    using visit_chunk [OF Suc.prems(1) ch Suc.prems(4,5)] by blast
  let ?m = "m\<lparr>heap := h', chunk_at := (chunk_at m)(?c \<mapsto> ch')\<rparr>"
  have fr: "mem_frame m ?m" using res by (simp add: Let_def)
  show ?case
  proof (cases "a = nullptr")
    case False
    then have "mem_allocates cyc ty fl m ?m a" using res by (simp add: Let_def)
    then show ?thesis using False atc ch r Suc.prems(3) by simp
  next
    case True
    then have none: "h' = heap m" "exhausted m i ?c"
      using res by (auto simp: Let_def mem_allocates_def)
    define cci1 where "cci1 = (if cci + 1 = ?N then 0 else cci + 1)"
    have cci1: "cci1 < ?N" "(cci1 + j) mod ?N = (cci + Suc j) mod ?N" for j
      using Suc.prems(3) by (auto simp: cci1_def) (metis add_Suc mod_add_self1)
    obtain m' found cci' where IH: "search_chunks cyc ty fl al i (BLOCK_SIZES ! i) n cci1 ?m = Some (m', found, cci')"
      "cci' < ?N" "case found of
        None \<Rightarrow> mem_frame ?m m' \<and> heap m' = heap ?m \<and>
          (\<forall>j < n. exhausted ?m i (chunks al ! ((cci1 + j) mod ?N)))
      | Some a \<Rightarrow> mem_allocates cyc ty fl ?m m' a"
      using Suc.IH [OF mem_frame_ok [OF fr Suc.prems(1)] allocator_ok_frame [OF Suc.prems(2) fr] cci1(1) Suc.prems(4,5)]
      by blast
    have step: "search_chunks cyc ty fl al i (BLOCK_SIZES ! i) (Suc n) cci m = Some (m', found, cci')"
      using True atc ch r IH(1) by (simp add: cci1_def)
    show ?thesis
    proof (cases found)
      case None
      have "exhausted m i (chunks al ! ((cci + j) mod ?N))" if "j < Suc n" for j
      proof (cases j)
        case 0
        then show ?thesis using none(2) Suc.prems(3) by simp
      next
        case (Suc j')
        then have "exhausted ?m i (chunks al ! ((cci1 + j') mod ?N))"
          using IH(3) None that by simp
        then have "exhausted ?m i (chunks al ! ((cci + j) mod ?N))"
          using Suc cci1(2) [of j'] by simp
        then show ?thesis
          using exhausted_frame [OF Suc.prems(1) ch none(2)] unfolding none(1) by blast
      qed
      then show ?thesis
        using step IH None none(1) mem_frame_trans [OF fr] by auto
    next
      case (Some b)
      then show ?thesis
        using step IH mem_allocates_frame [OF fr] none(1) by auto
    qed
  qed
qed


text \<open>What one call promises, in terms of the heap before and after.\<close>

definition malloc_result :: "(type_ptr \<Rightarrow> bool) \<Rightarrow> type_ptr \<Rightarrow> u64 \<Rightarrow> memory \<Rightarrow> memory \<Rightarrow> addr \<Rightarrow> bool" where
  "malloc_result cyc ty fl m m' a \<longleftrightarrow> a \<noteq> nullptr \<and>
     (\<exists>h. grows (heap m) h \<and> allocates cyc ty fl h (heap m') a) \<and>
     (\<exists>c ch j k. chunk_at m' c = Some ch \<and> j < 13 \<and> k < cells_size ch \<and> a = cell ch j k \<and>
        empty (block_info_list ch ! j) \<and> sizeof_HeapObject + 8 * unat fl \<le> BLOCK_SIZES ! j)"

lemma mem_allocates_result:
  assumes "mem_allocates cyc ty fl m1 m' a" "grows (heap m) (heap m1)"
  shows "malloc_result cyc ty fl m m' a"
  using assms by (auto simp: malloc_result_def mem_allocates_def)

text \<open>Room for one more chunk below the end of the address space.\<close>

definition room :: "HeapAllocator \<Rightarrow> memory \<Rightarrow> bool" where
  "room al m \<longleftrightarrow> unat (brk m) + sizeof_HeapChunk + chunk_bytes (chunks_cells_size al) < 2 ^ 64"

text \<open>
  Chunks stay where they are, blocks that were closed stay closed, new cells lie above the memory
  handed out before, and at most one chunk's worth of memory is taken.
\<close>

definition chunks_kept :: "nat \<Rightarrow> memory \<Rightarrow> memory \<Rightarrow> bool" where
  "chunks_kept cells m m' \<longleftrightarrow>
     (\<forall>c ch. chunk_at m c = Some ch \<longrightarrow> (\<exists>ch'. chunk_at m' c = Some ch' \<and> chunk_base ch' = chunk_base ch \<and>
        cells_size ch' = cells_size ch \<and> (\<forall>j < 13. empty (block_info_list ch' ! j) \<longrightarrow> empty (block_info_list ch ! j)))) \<and>
     (\<forall>a \<in> dom (heap m'). a \<in> dom (heap m) \<or> unat (brk m) \<le> unat a) \<and> unat (brk m) \<le> unat (brk m') \<and>
     unat (brk m') \<le> unat (brk m) + (sizeof_HeapChunk + chunk_bytes cells)"

lemma chunks_kept_chunk:
  assumes "chunks_kept cells m m'" "chunk_at m c = Some ch"
  obtains ch' where "chunk_at m' c = Some ch'" "chunk_base ch' = chunk_base ch" "cells_size ch' = cells_size ch"
    "\<And>j. j < 13 \<Longrightarrow> empty (block_info_list ch' ! j) \<Longrightarrow> empty (block_info_list ch ! j)"
  using assms unfolding chunks_kept_def by metis

lemma chunks_kept_frame: "mem_frame m m' \<Longrightarrow> chunks_kept cells m m'"
proof -
  assume fr: "mem_frame m m'"
  have "\<exists>ch'. chunk_at m' c = Some ch' \<and> chunk_base ch' = chunk_base ch \<and> cells_size ch' = cells_size ch \<and>
      (\<forall>j < 13. empty (block_info_list ch' ! j) \<longrightarrow> empty (block_info_list ch ! j))"
    if "chunk_at m c = Some ch" for c ch
    using fr that by (auto simp: mem_frame_def same_chunk_def dest!: spec [of _ c] elim: option.rel_cases)
  then show ?thesis using fr by (simp add: chunks_kept_def mem_frame_def)
qed

lemma chunks_kept_frames:
  assumes "mem_frame m m1" "chunks_kept cells m1 m2" "mem_frame m2 m3"
  shows "chunks_kept cells m m3"
proof -
  have eq: "brk m1 = brk m" "brk m3 = brk m2" "dom (heap m1) = dom (heap m)" "dom (heap m3) = dom (heap m2)"
    using assms by (simp_all add: mem_frame_def)
  have "\<exists>ch'. chunk_at m3 c = Some ch' \<and> chunk_base ch' = chunk_base ch \<and> cells_size ch' = cells_size ch \<and>
      (\<forall>j < 13. empty (block_info_list ch' ! j) \<longrightarrow> empty (block_info_list ch ! j))"
    if c: "chunk_at m c = Some ch" for c ch
  proof -
    from chunks_kept_chunk [OF chunks_kept_frame [OF assms(1)] c] obtain ch1 where 1: "chunk_at m1 c = Some ch1"
      "chunk_base ch1 = chunk_base ch" "cells_size ch1 = cells_size ch"
      "\<And>j. j < 13 \<Longrightarrow> empty (block_info_list ch1 ! j) \<Longrightarrow> empty (block_info_list ch ! j)" by blast
    from chunks_kept_chunk [OF assms(2) 1(1)] obtain ch2 where 2: "chunk_at m2 c = Some ch2"
      "chunk_base ch2 = chunk_base ch1" "cells_size ch2 = cells_size ch1"
      "\<And>j. j < 13 \<Longrightarrow> empty (block_info_list ch2 ! j) \<Longrightarrow> empty (block_info_list ch1 ! j)" by blast
    from chunks_kept_chunk [OF chunks_kept_frame [OF assms(3)] 2(1)] obtain ch3 where "chunk_at m3 c = Some ch3"
      "chunk_base ch3 = chunk_base ch2" "cells_size ch3 = cells_size ch2"
      "\<And>j. j < 13 \<Longrightarrow> empty (block_info_list ch3 ! j) \<Longrightarrow> empty (block_info_list ch2 ! j)" by blast
    then show ?thesis using 1 2 by (intro exI [of _ ch3]) auto
  qed
  then show ?thesis using assms(2) eq by (simp add: chunks_kept_def)
qed

lemma create_new_chunk_spec:
  assumes ok: "mem_ok m" "allocator_ok al m" and room: "room al m"
    and new: "create_new_chunk (chunks_cells_size al) al m = (al', m')"
  shows "mem_ok m'" "allocator_ok al' m'" "grows (heap m) (heap m')"
    "number_of_chunks al' = Suc (number_of_chunks al)" "chunks_cells_size al' = chunks_cells_size al"
    "\<exists>c p. chunks al' = chunks al @ [c] \<and> chunk_at m' c = Some (new_chunk p (chunks_cells_size al)) \<and>
       set (chunk_cells p (chunks_cells_size al)) \<subseteq> {a. heap m' a = Some zero_object}"
    "chunks_kept (chunks_cells_size al) m m'"
proof -
  let ?cells = "chunks_cells_size al" and ?c = "brk m"
  let ?m1 = "m\<lparr>brk := brk m + of_nat sizeof_HeapChunk\<rparr>"
  let ?m2 = "create_heap_chunk ?c ?cells ?m1"
  have eq: "al' = al\<lparr>chunks := chunks al @ [?c], number_of_chunks := number_of_chunks al + 1\<rparr>"
    "m' = ?m2\<lparr>heap_chunk_list := heap_chunk_list ?m2 @ [?c]\<rparr>"
    using new by (simp_all add: create_new_chunk_def HeapChunk_new_def calloc_def)
  have b1: "unat (brk ?m1) = unat (brk m) + sizeof_HeapChunk"
    using room unat_add_no_wrap [of "brk m" "16 :: u64"] by (simp add: room_def sizeof_HeapChunk_def)
  have ok1: "mem_ok ?m1"
    using b1 by (intro mem_ok_brk [OF ok(1)]) simp
  have c: "chunk_at ?m1 ?c = None" "unat ?c < unat (brk ?m1)"
    using mem_ok_chunk [OF ok(1), of ?c] b1 by (cases "chunk_at m ?c", auto simp: sizeof_HeapChunk_def)
  have cells: "0 < ?cells" "unat (brk ?m1) + chunk_bytes ?cells < 2 ^ 64"
    using ok(2) room b1 by (auto simp: allocator_ok_def room_def)
  note new = create_heap_chunk_ok [OF ok1 c cells]
  show "mem_ok m'" using new(1) unfolding eq mem_ok_def by simp
  show "grows (heap m) (heap m')" using new(2) by (simp add: eq)
  show "number_of_chunks al' = Suc (number_of_chunks al)" "chunks_cells_size al' = ?cells"
    by (simp_all add: eq)
  show "allocator_ok al' m'"
    using ok(2) by (auto simp: allocator_ok_def eq create_heap_chunk_eq)
  show "\<exists>c p. chunks al' = chunks al @ [c] \<and> chunk_at m' c = Some (new_chunk p ?cells) \<and>
       set (chunk_cells p ?cells) \<subseteq> {a. heap m' a = Some zero_object}"
    by (intro exI [of _ ?c] exI [of _ "brk ?m1"]) (auto simp: eq create_heap_chunk_eq)
  have "unat (brk m) \<le> unat a" if "a \<in> set (chunk_cells (brk ?m1) ?cells)" for a
    using new_cell_range [OF cells(2) that] b1 by simp
  then show "chunks_kept ?cells m m'"
    using c(1) b1 new(3) by (auto simp: chunks_kept_def eq create_heap_chunk_eq split: if_splits)
qed

lemma new_chunk_not_exhausted:
  assumes "chunk_at m c = Some (new_chunk p cells)" "0 < cells" "i < 13"
    "set (chunk_cells p cells) \<subseteq> {a. heap m a = Some zero_object}"
  shows "\<not> exhausted m i c"
proof
  assume "exhausted m i c"
  then have "no_dead_cell (new_chunk p cells) (heap m) i"
    using assms(1,3) by (simp add: exhausted_def)
  moreover have "heap m (cell (new_chunk p cells) i 0) = Some zero_object"
    using assms cell_in_chunk_cells [of i 0 cells p] by (auto simp: new_chunk_cell)
  ultimately show False
    using assms(2) by (auto simp: no_dead_cell_def zero_object_def)
qed

lemma grows_trans: "grows a b \<Longrightarrow> grows b c \<Longrightarrow> grows a c"
  unfolding grows_def by (metis option.distinct(1))

lemma malloc_loop_spec:
  assumes ok: "mem_ok m" "allocator_ok al m" "cci < number_of_chunks al" and room: "room al m"
    and i: "i < 13" and fits: "sizeof_HeapObject + 8 * unat fl \<le> BLOCK_SIZES ! i"
  shows "\<exists>al' m' a cci'. malloc_loop cyc ty fl i (BLOCK_SIZES ! i) al cci m = Some (al', m', a, cci') \<and>
     mem_ok m' \<and> allocator_ok al' m' \<and> cci' < number_of_chunks al' \<and>
     number_of_chunks al' \<le> number_of_chunks al + 1 \<and> malloc_result cyc ty fl m m' a \<and>
     chunks_kept (chunks_cells_size al) m m' \<and> chunks_cells_size al' = chunks_cells_size al"
proof -
  obtain m1 found cci1 where s1: "search_chunks cyc ty fl al i (BLOCK_SIZES ! i) (number_of_chunks al) cci m = Some (m1, found, cci1)"
    "cci1 < number_of_chunks al" and r1: "case found of
        None \<Rightarrow> mem_frame m m1 \<and> heap m1 = heap m \<and>
          (\<forall>j < number_of_chunks al. exhausted m i (chunks al ! ((cci + j) mod number_of_chunks al)))
      | Some a \<Rightarrow> mem_allocates cyc ty fl m m1 a"
    using search_chunks_spec [OF ok i fits] by blast
  show ?thesis
  proof (cases found)
    case (Some a)
    then have al: "mem_allocates cyc ty fl m m1 a" using r1 by simp
    then have fr: "mem_frame m m1" by (simp add: mem_allocates_def)
    have "malloc_loop cyc ty fl i (BLOCK_SIZES ! i) al cci m = Some (al, m1, a, cci1)"
      using s1 Some by (simp add: malloc_loop.simps)
    then show ?thesis
      using s1(2) mem_frame_ok [OF fr ok(1)] allocator_ok_frame [OF ok(2) fr] mem_allocates_result [OF al]
        chunks_kept_frame [OF fr] by auto
  next
    case None
    then have fr: "mem_frame m m1" and h1: "heap m1 = heap m" using r1 by auto
    have room1: "room al m1" using room fr by (simp add: room_def mem_frame_def)
    obtain al2 m2 where new: "create_new_chunk (chunks_cells_size al) al m1 = (al2, m2)" by fastforce
    note ok1 = mem_frame_ok [OF fr ok(1)] allocator_ok_frame [OF ok(2) fr]
    note n = create_new_chunk_spec [OF ok1 room1 new]
    let ?N = "number_of_chunks al2"
    have cci: "cci1 < ?N" using s1(2) n(4) by simp
    obtain m3 found3 cci3 where s3: "search_chunks cyc ty fl al2 i (BLOCK_SIZES ! i) ?N cci1 m2 = Some (m3, found3, cci3)"
      "cci3 < ?N" and r3: "case found3 of
        None \<Rightarrow> mem_frame m2 m3 \<and> heap m3 = heap m2 \<and>
          (\<forall>j < ?N. exhausted m2 i (chunks al2 ! ((cci1 + j) mod ?N)))
      | Some a \<Rightarrow> mem_allocates cyc ty fl m2 m3 a"
      using search_chunks_spec [OF n(1,2) cci i fits] by blast
    obtain c p where c: "chunks al2 = chunks al @ [c]" "chunk_at m2 c = Some (new_chunk p (chunks_cells_size al))"
      "set (chunk_cells p (chunks_cells_size al)) \<subseteq> {a. heap m2 a = Some zero_object}" using n(6) by blast
    have "\<not> exhausted m2 i c"
      using new_chunk_not_exhausted [OF c(2) _ i c(3)] ok(2) by (simp add: allocator_ok_def)
    moreover have "chunks al2 ! number_of_chunks al = c"
      using c(1) ok(2) by (simp add: allocator_ok_def)
    moreover obtain j where "j < ?N" "(cci1 + j) mod ?N = number_of_chunks al"
      using mod_covers [OF cci, of "number_of_chunks al"] n(4) by auto
    ultimately obtain a where a: "found3 = Some a" "mem_allocates cyc ty fl m2 m3 a"
      using r3 by (cases found3) auto
    have "malloc_loop cyc ty fl i (BLOCK_SIZES ! i) al cci m = malloc_loop cyc ty fl i (BLOCK_SIZES ! i) al2 cci1 m2"
      using s1 None new by (subst malloc_loop.simps) simp
    also have "\<dots> = Some (al2, m3, a, cci3)" using s3 a(1) by (simp add: malloc_loop.simps)
    finally have run: "malloc_loop cyc ty fl i (BLOCK_SIZES ! i) al cci m = Some (al2, m3, a, cci3)" .
    have fr3: "mem_frame m2 m3" using a(2) by (simp add: mem_allocates_def)
    have "grows (heap m) (heap m2)" using n(3) h1 by simp
    then show ?thesis
      using run s3(2) n(4) mem_frame_ok [OF fr3 n(1)] allocator_ok_frame [OF n(2) fr3]
        mem_allocates_result [OF a(2)] chunks_kept_frames [OF fr n(7) fr3] n(5) by auto
  qed
qed


lemma block_class_cases:
  assumes "unat n \<le> 59"
  obtains i where "i < 13" "block_class (byte_size n) = Some (of_nat i, of_nat (BLOCK_SIZES ! i))"
    "sizeof_HeapObject + 8 * unat n \<le> BLOCK_SIZES ! i" "unat (of_nat i :: u64) = i"
    "unat (of_nat (BLOCK_SIZES ! i) :: u64) = BLOCK_SIZES ! i"
proof -
  have "block_class_ok (unat n)" using assms block_class_le_59 by simp
  then obtain i bs where ibs: "block_class (byte_size n) = Some (i, bs)" "unat i < 13"
    "BLOCK_SIZES ! unat i = unat bs" "40 + 8 * unat n \<le> unat bs"
    by (auto simp: block_class_ok_def split: option.splits)
  show thesis
    by (rule that [of "unat i"]) (use ibs in \<open>simp_all add: sizeof_HeapObject_def\<close>)
qed

lemma malloc_result_heap:
  assumes "malloc_result cyc ty fl m m' a"
  shows "\<exists>ob. (heap m a = Some ob \<and> state ob = dead \<or> heap m a = None \<and> ob = zero_object) \<and>
      heap m' a = Some (fresh_object cyc ty fl ob)"
    and "b \<noteq> a \<Longrightarrow> heap m' b = heap m b \<or> heap m b = None \<and> heap m' b = Some zero_object"
proof -
  from assms obtain h where h: "grows (heap m) h" "allocates cyc ty fl h (heap m') a"
    by (auto simp: malloc_result_def)
  then obtain ob where "h a = Some ob" "state ob = dead" "heap m' = h(a \<mapsto> fresh_object cyc ty fl ob)"
    by (auto simp: allocates_def)
  moreover have "h a = heap m a \<or> heap m a = None \<and> h a = Some zero_object" for a
    using h(1) by (auto simp: grows_def)
  ultimately show "\<exists>ob. (heap m a = Some ob \<and> state ob = dead \<or> heap m a = None \<and> ob = zero_object) \<and>
      heap m' a = Some (fresh_object cyc ty fl ob)"
    and "b \<noteq> a \<Longrightarrow> heap m' b = heap m b \<or> heap m b = None \<and> heap m' b = Some zero_object"
    by (metis fun_upd_same option.sel, metis fun_upd_other)
qed

lemma HeapAllocator_malloc_total:
  assumes "mem_ok m" "allocator_ok al m" "start < number_of_chunks al" "room al m" "unat fl \<le> 59"
  shows "\<exists>al' m' a start'. HeapAllocator_malloc cyc ty fl al start m = Some (al', m', a, start') \<and>
     mem_ok m' \<and> allocator_ok al' m' \<and> start' < number_of_chunks al' \<and>
     number_of_chunks al' \<le> number_of_chunks al + 1 \<and> malloc_result cyc ty fl m m' a \<and>
     chunks_kept (chunks_cells_size al) m m' \<and> chunks_cells_size al' = chunks_cells_size al"
proof -
  obtain i where i: "i < 13" "block_class (byte_size fl) = Some (of_nat i, of_nat (BLOCK_SIZES ! i))"
    "sizeof_HeapObject + 8 * unat fl \<le> BLOCK_SIZES ! i" "unat (of_nat i :: u64) = i"
    "unat (of_nat (BLOCK_SIZES ! i) :: u64) = BLOCK_SIZES ! i"
    using block_class_cases [OF assms(5)] by metis
  show ?thesis
    using malloc_loop_spec [OF assms(1-4) i(1,3), of cyc ty] i by (simp add: HeapAllocator_malloc_def)
qed

text \<open>Different cells, of the same chunk or of different ones, occupy disjoint byte ranges.\<close>

lemma cells_apart:
  assumes "mem_ok m"
    and "chunk_at m c = Some ch" "i < NUMBER_OF_BLOCKS" "k < cells_size ch" "a = cell ch i k"
    and "chunk_at m c' = Some ch'" "j < NUMBER_OF_BLOCKS" "l < cells_size ch'" "b = cell ch' j l"
    and "a \<noteq> b"
  shows "disjoint_ranges (unat a) (BLOCK_SIZES ! i) (unat b) (BLOCK_SIZES ! j)"
proof -
  note ij = assms(3,7) [unfolded NUMBER_OF_BLOCKS_def]
  note ch = mem_ok_chunk [OF assms(1,2)] and ch' = mem_ok_chunk [OF assms(1,6)]
  show ?thesis
  proof (cases "c = c'")
    case True
    then have "ch' = ch" using assms(2,6) by simp
    then have "disjoint_ranges (cell_offset (cells_size ch) i k) (BLOCK_SIZES ! i)
        (cell_offset (cells_size ch) j l) (BLOCK_SIZES ! j)"
      using assms ij by (intro cells_disjoint) auto
    then show ?thesis
      using \<open>ch' = ch\<close> ch assms ij by (simp add: unat_cell disjoint_ranges_def)
  next
    case False
    then show ?thesis
      using mem_ok_disjoint [OF assms(1,2,6) False] cell_range [of ch i k] cell_range [of ch' j l] ch ch' assms ij
      by (auto simp: disjoint_ranges_def chunk_end_def)
  qed
qed

section \<open>Setting up an allocator\<close>

lemma create_chunks_ok:
  assumes "mem_ok m" "0 < cells"
    and "\<forall>i \<in> set is. chunk_at m (entry + of_nat (sz * i)) = None \<and> unat (entry + of_nat (sz * i)) < unat (brk m)"
    and "distinct (map (\<lambda>i. entry + of_nat (sz * i) :: addr) is)"
    and "unat (brk m) + length is * chunk_bytes cells < 2 ^ 64"
    and "create_chunks cells sz entry n is m = (cs, m')"
  shows "mem_ok m' \<and> length cs = length is \<and> dom (chunk_at m') = dom (chunk_at m) \<union> set cs \<and>
     unat (brk m') = unat (brk m) + length is * chunk_bytes cells \<and> grows (heap m) (heap m') \<and>
     (\<forall>c. chunk_at m c \<noteq> None \<longrightarrow> chunk_at m' c = chunk_at m c) \<and>
     (\<forall>a \<in> dom (heap m'). a \<in> dom (heap m) \<or> unat (brk m) \<le> unat a)"
  using assms
proof (induction "is" arbitrary: m cs m')
  case Nil
  then show ?case by simp
next
  case (Cons i "is")
  let ?c = "entry + of_nat (sz * i) :: addr"
  let ?m = "create_heap_chunk ?c cells m"
  from Cons.prems(6) obtain cs1 where rest: "create_chunks cells sz entry n is ?m = (cs1, m')" "cs = ?c # cs1"
    by (auto split: prod.splits simp: Let_def simp del: of_nat_mult)
  have room: "unat (brk m) + chunk_bytes cells < 2 ^ 64" using Cons.prems(5) by simp
  have c: "chunk_at m ?c = None" "unat ?c < unat (brk m)" using Cons.prems(3) by auto
  note new = create_heap_chunk_ok [OF Cons.prems(1) c Cons.prems(2) room]
  have "\<forall>j \<in> set is. chunk_at ?m (entry + of_nat (sz * j)) = None \<and> unat (entry + of_nat (sz * j)) < unat (brk ?m)"
  proof
    fix j assume j: "j \<in> set is"
    have "?c \<notin> (\<lambda>j. entry + of_nat (sz * j)) ` set is"
      using Cons.prems(4) by (simp del: of_nat_mult)
    moreover have "entry + of_nat (sz * j) \<in> (\<lambda>j. entry + of_nat (sz * j)) ` set is"
      by (rule imageI [OF j])
    ultimately have neq: "entry + of_nat (sz * j) \<noteq> ?c" by metis
    have "chunk_at m (entry + of_nat (sz * j)) = None"
      "unat (entry + of_nat (sz * j)) < unat (brk m)"
      using Cons.prems(3) j by (auto simp del: of_nat_mult)
    with neq show "chunk_at ?m (entry + of_nat (sz * j)) = None \<and> unat (entry + of_nat (sz * j)) < unat (brk ?m)"
      unfolding new(3) by (auto simp: create_heap_chunk_eq simp del: of_nat_mult)
  qed
  from Cons.IH [OF new(1) Cons.prems(2) this _ _ rest(1)] Cons.prems(4,5) new(3)
  have IH: "mem_ok m'" "length cs1 = length is" "dom (chunk_at m') = dom (chunk_at ?m) \<union> set cs1"
     "unat (brk m') = unat (brk ?m) + length is * chunk_bytes cells" "grows (heap ?m) (heap m')"
     "\<forall>c. chunk_at ?m c \<noteq> None \<longrightarrow> chunk_at m' c = chunk_at ?m c"
     "\<forall>a \<in> dom (heap m'). a \<in> dom (heap ?m) \<or> unat (brk ?m) \<le> unat a"
    by auto
  have "a \<in> dom (heap m) \<or> unat (brk m) \<le> unat a" if "a \<in> dom (heap ?m)" for a
    using that new_cell_range [OF room] by (auto simp: create_heap_chunk_eq split: if_splits)
  then have "\<forall>a \<in> dom (heap m'). a \<in> dom (heap m) \<or> unat (brk m) \<le> unat a"
    using IH(7) new(3) by fastforce
  moreover have "\<forall>c'. chunk_at m c' \<noteq> None \<longrightarrow> chunk_at m' c' = chunk_at m c'"
    using IH(6) c(1) by (auto simp: create_heap_chunk_eq)
  moreover have "dom (chunk_at ?m) = insert ?c (dom (chunk_at m))" by (simp add: create_heap_chunk_eq)
  ultimately show ?case using IH new grows_trans [OF new(2) IH(5)] rest(2) by auto
qed


definition chunk_stride :: "nat \<Rightarrow> nat" where
  "chunk_stride cells = sizeof_HeapChunk + chunk_bytes cells"

lemma header_addresses:
  assumes "unat e + sz * n < 2 ^ 64" "0 < sz" "i < n"
  shows "unat (e + of_nat (sz * i) :: u64) = unat e + sz * i" "sz * i < sz * n"
proof -
  show lt: "sz * i < sz * n" using assms by simp
  then have b: "unat e + sz * i < 2 ^ 64" using assms(1) by linarith
  then have "unat (of_nat (sz * i) :: u64) = sz * i" by (intro unat_of_nat_id) simp
  then show "unat (e + of_nat (sz * i) :: u64) = unat e + sz * i"
    using b unat_add_no_wrap [of e "of_nat (sz * i)"] by simp
qed

lemma HeapAllocator_new_ok:
  assumes ok: "mem_ok m" and n: "0 < n" "0 < cells"
    and room: "unat (brk m) + n * (chunk_stride cells + chunk_bytes cells) < 2 ^ 64"
    and new: "HeapAllocator_new ts cells n m = (al, m')"
  shows "mem_ok m'" "allocator_ok al m'" "grows (heap m) (heap m')" "number_of_chunks al = n"
    "chunks_cells_size al = cells"
    "unat (brk m') = unat (brk m) + n * (chunk_stride cells + chunk_bytes cells)"
    "chunk_at m c \<noteq> None \<Longrightarrow> chunk_at m' c = chunk_at m c"
    "a \<in> dom (heap m') \<Longrightarrow> a \<in> dom (heap m) \<or> unat (brk m) \<le> unat a"
proof -
  let ?sz = "chunk_stride cells" and ?e = "brk m"
  let ?m = "m\<lparr>brk := brk m + of_nat (?sz * n)\<rparr>"
  obtain cs where cc: "create_chunks cells ?sz ?e n [0..<n] ?m = (cs, m')"
    and al: "al = \<lparr>is_thread_safe = ts, number_of_chunks = n, chunks = cs, chunks_cells_size = cells\<rparr>"
    using new by (auto simp: HeapAllocator_new_def calloc_def chunk_stride_def chunk_bytes_def
        Let_def simp del: of_nat_mult of_nat_add split: prod.splits)
  have sz: "0 < ?sz" by (simp add: chunk_stride_def sizeof_HeapChunk_def)
  have b: "unat ?e + ?sz * n < 2 ^ 64" using room by (simp add: algebra_simps)
  then have "unat (of_nat (?sz * n) :: u64) = ?sz * n" by (intro unat_of_nat_id) simp
  then have b1: "unat (brk ?m) = unat ?e + ?sz * n"
    using b unat_add_no_wrap [of ?e "of_nat (?sz * n)"] by simp
  have ok1: "mem_ok ?m" using b1 by (intro mem_ok_brk [OF ok]) simp
  have hdr: "unat (?e + of_nat (?sz * i) :: u64) = unat ?e + ?sz * i \<and> ?sz * i < ?sz * n" if "i < n" for i
    using header_addresses [OF b sz that] by blast
  have "\<forall>i \<in> set [0..<n]. chunk_at ?m (?e + of_nat (?sz * i)) = None \<and> unat (?e + of_nat (?sz * i)) < unat (brk ?m)"
  proof
    fix i assume "i \<in> set [0..<n]"
    then have h: "unat (?e + of_nat (?sz * i) :: u64) = unat ?e + ?sz * i" "?sz * i < ?sz * n"
      using hdr by auto
    have "chunk_at m (?e + of_nat (?sz * i)) = None"
      using mem_ok_chunk [OF ok, of "?e + of_nat (?sz * i)"] h(1)
      by (cases "chunk_at m (?e + of_nat (?sz * i))") (auto simp del: of_nat_mult)
    then show "chunk_at ?m (?e + of_nat (?sz * i)) = None \<and> unat (?e + of_nat (?sz * i)) < unat (brk ?m)"
      unfolding b1 h(1) using h(2) by simp
  qed
  moreover have "distinct (map (\<lambda>i. ?e + of_nat (?sz * i) :: addr) [0..<n])"
  proof (simp add: distinct_map del: of_nat_mult, rule inj_onI)
    fix i j assume "i \<in> {0..<n}" "j \<in> {0..<n}" "?e + of_nat (?sz * i) = ?e + (of_nat (?sz * j) :: addr)"
    then have "?sz * i = ?sz * j" using hdr [of i] hdr [of j] by simp
    then show "i = j" using sz by simp
  qed
  moreover have "unat (brk ?m) + length [0..<n] * chunk_bytes cells < 2 ^ 64"
    using room unfolding b1 by (simp add: algebra_simps)
  ultimately have r: "mem_ok m'" "length cs = n" "dom (chunk_at m') = dom (chunk_at ?m) \<union> set cs"
    "unat (brk m') = unat (brk ?m) + n * chunk_bytes cells" "grows (heap ?m) (heap m')"
    "\<forall>c. chunk_at ?m c \<noteq> None \<longrightarrow> chunk_at m' c = chunk_at ?m c"
    "\<forall>a \<in> dom (heap m'). a \<in> dom (heap ?m) \<or> unat (brk ?m) \<le> unat a"
    using create_chunks_ok [OF ok1 n(2) _ _ _ cc] by auto
  show "a \<in> dom (heap m') \<Longrightarrow> a \<in> dom (heap m) \<or> unat (brk m) \<le> unat a" using r(7) b1 by fastforce
  show "chunk_at m c \<noteq> None \<Longrightarrow> chunk_at m' c = chunk_at m c" using r(6) by simp
  show "mem_ok m'" "grows (heap m) (heap m')" "number_of_chunks al = n" "chunks_cells_size al = cells"
    using r by (simp_all add: al)
  show "allocator_ok al m'" using r n by (auto simp: allocator_ok_def al)
  show "unat (brk m') = unat (brk m) + n * (chunk_stride cells + chunk_bytes cells)"
    using r(4) b1 by (simp add: algebra_simps)
qed

text \<open>Memory before the first allocation: nothing but a start address.\<close>

definition initial_memory :: "addr \<Rightarrow> memory" where
  "initial_memory start = \<lparr>heap = (\<lambda>_. None), chunk_at = (\<lambda>_. None), brk = start, heap_chunk_list = []\<rparr>"

lemma initial_memory_ok: "1 < unat start \<Longrightarrow> mem_ok (initial_memory start)"
  by (simp add: mem_ok_def initial_memory_def unat_gt_0)

section \<open>Properties\<close>

text \<open>
  C9. \<^verbatim>\<open>HeapAllocator::malloc\<close> always terminates and succeeds for at most 59 fields:
  it returns a non-null cell that held no object in use, initialised as a live object with
  count one and null fields; every other object keeps its contents; at most one chunk is
  added, and the invariants of memory and allocator are kept.
\<close>

theorem HeapAllocator_malloc_correct:
  assumes "mem_ok m" "allocator_ok al m" "start < number_of_chunks al" "room al m" "unat fl \<le> 59"
  shows "\<exists>al' m' a start'. HeapAllocator_malloc cyc ty fl al start m = Some (al', m', a, start') \<and>
     a \<noteq> nullptr \<and>
     (\<exists>ob ob'. (heap m a = Some ob \<and> state ob = dead \<or> heap m a = None \<and> ob = zero_object) \<and>
        heap m' a = Some ob' \<and> state ob' = live \<and> count ob' = 1 \<and>
        field_length ob' = fl \<and> slots ob' = replicate (unat fl) nullptr \<and> type_info ob' = Some ty \<and>
        is_cyclic_type ob' = cyc ty \<and> \<not> async_release ob' \<and> lock_flag ob' = lock_flag ob) \<and>
     (\<forall>b. b \<noteq> a \<longrightarrow> heap m' b = heap m b \<or> heap m b = None \<and> heap m' b = Some zero_object) \<and>
     number_of_chunks al' \<le> number_of_chunks al + 1 \<and>
     mem_ok m' \<and> allocator_ok al' m' \<and> start' < number_of_chunks al'"
proof -
  obtain al' m' a start' where r: "HeapAllocator_malloc cyc ty fl al start m = Some (al', m', a, start')"
    "mem_ok m'" "allocator_ok al' m'" "start' < number_of_chunks al'"
    "number_of_chunks al' \<le> number_of_chunks al + 1" "malloc_result cyc ty fl m m' a"
    using HeapAllocator_malloc_total [OF assms] by blast
  have "a \<noteq> nullptr" using r(6) by (simp add: malloc_result_def)
  moreover note c = malloc_result_heap [OF r(6)]
  moreover obtain ob where ob: "heap m a = Some ob \<and> state ob = dead \<or> heap m a = None \<and> ob = zero_object"
    "heap m' a = Some (fresh_object cyc ty fl ob)" using c by blast
  moreover have "state (fresh_object cyc ty fl ob) = live" "count (fresh_object cyc ty fl ob) = 1"
    "field_length (fresh_object cyc ty fl ob) = fl" "slots (fresh_object cyc ty fl ob) = replicate (unat fl) nullptr"
    "type_info (fresh_object cyc ty fl ob) = Some ty" "is_cyclic_type (fresh_object cyc ty fl ob) = cyc ty"
    "\<not> async_release (fresh_object cyc ty fl ob)" "lock_flag (fresh_object cyc ty fl ob) = lock_flag ob"
    by (simp_all add: fresh_object_def)
  ultimately show ?thesis
    using r(1-5) by (intro exI [of _ al'] exI [of _ m'] exI [of _ a] exI [of _ start'] conjI) blast+
qed

theorem HeapAllocator_malloc_correct_witness:
  "\<exists>al m. HeapAllocator_new True 2 1 (initial_memory 4096) = (al, m) \<and>
     (\<exists>al' m' a start'. HeapAllocator_malloc (\<lambda>_. False) (PrimT type_void) 3 al 0 m = Some (al', m', a, start') \<and> a \<noteq> nullptr)"
proof -
  obtain al m where new: "HeapAllocator_new True 2 1 (initial_memory 4096) = (al, m)" by fastforce
  have size: "chunk_stride 2 = 4040" "chunk_bytes 2 = 4024"
    by (simp_all add: chunk_stride_def chunk_bytes_def sizeof_HeapChunk_def BLOCKS_SIZE_def
        sizeof_BlockInfo_def NUMBER_OF_BLOCKS_def)
  have brk0: "unat (brk (initial_memory 4096)) = 4096" by (simp add: initial_memory_def)
  have bound: "unat (brk (initial_memory 4096)) + 1 * (chunk_stride 2 + chunk_bytes 2) < 2 ^ 64"
    unfolding brk0 size by simp
  note ok = HeapAllocator_new_ok [OF initial_memory_ok _ _ bound new, simplified]
  have "start < number_of_chunks al" "room al m" if "start = 0" for start
    using ok(4,5,6) that unfolding room_def by (simp_all add: brk0 size sizeof_HeapChunk_def)
  from HeapAllocator_malloc_correct [OF ok(1,2) this [OF refl], of 3 "\<lambda>_. False" "PrimT type_void"] new
  show ?thesis by fastforce
qed


lemma example_memory:
  obtains al m where "HeapAllocator_new True 2 1 (initial_memory 4096) = (al, m)" "mem_ok m" "allocator_ok al m"
    "number_of_chunks al = 1" "room al m"
    "chunk_at m 4096 = Some (new_chunk 8136 2)"
proof -
  obtain al m where new: "HeapAllocator_new True 2 1 (initial_memory 4096) = (al, m)" by fastforce
  have size: "chunk_stride 2 = 4040" "chunk_bytes 2 = 4024"
    by (simp_all add: chunk_stride_def chunk_bytes_def sizeof_HeapChunk_def BLOCKS_SIZE_def
        sizeof_BlockInfo_def NUMBER_OF_BLOCKS_def)
  have brk0: "unat (brk (initial_memory 4096)) = 4096" by (simp add: initial_memory_def)
  have bound: "unat (brk (initial_memory 4096)) + 1 * (chunk_stride 2 + chunk_bytes 2) < 2 ^ 64"
    unfolding brk0 size by simp
  note ok = HeapAllocator_new_ok [OF initial_memory_ok _ _ bound new, simplified]
  have "room al m" using ok(5,6) unfolding room_def by (simp_all add: brk0 size sizeof_HeapChunk_def)
  moreover have "chunk_at m 4096 = Some (new_chunk 8136 2)"
    using new by (auto simp: HeapAllocator_new_def calloc_def initial_memory_def create_heap_chunk_eq
        BLOCKS_SIZE_def sizeof_BlockInfo_def NUMBER_OF_BLOCKS_def sizeof_HeapChunk_def)
  ultimately show thesis using that [OF new] ok by simp
qed

text \<open>
  A request for more than 59 fields (and fewer than \<open>2\<^sup>6\<^sup>1 - 5\<close>) returns null and
  changes nothing.
\<close>

lemma malloc_too_large:
  assumes "59 < unat fl" "unat fl < 2 ^ 61 - 5"
  shows "HeapAllocator_malloc cyc ty fl al start m = Some (al, m, nullptr, start)"
  by (simp add: HeapAllocator_malloc_def block_class_large [OF assms])

text \<open>
  C28. The size computation wraps: a request for \<open>2\<^sup>6\<^sup>1 + n\<close> fields is served from the block
  chosen for \<open>n\<close> fields, and clearing the fields of that cell runs past its end.
\<close>

theorem malloc_size_wraps:
  assumes "unat n \<le> 59"
  shows "\<exists>i bs. block_class (byte_size (n + 2 ^ 61)) = Some (i, bs) \<and>
    block_class (byte_size n) = Some (i, bs) \<and> init_object cyc ty (unat bs) (n + 2 ^ 61) ob = None"
proof -
  obtain i where i: "i < 13" "block_class (byte_size n) = Some (of_nat i, of_nat (BLOCK_SIZES ! i))"
    "unat (of_nat (BLOCK_SIZES ! i) :: u64) = BLOCK_SIZES ! i"
    using block_class_cases [OF assms] by metis
  have "BLOCK_SIZES ! i \<in> set BLOCK_SIZES" using i(1) by simp
  then have small: "BLOCK_SIZES ! i \<le> 512" by (auto simp: BLOCK_SIZES_def)
  have "unat (2 ^ 61 :: u64) = 2 ^ 61" by simp
  then have "unat (n + 2 ^ 61) = unat n + 2 ^ 61"
    using assms unat_add_no_wrap [of n "2 ^ 61"] by simp
  then show ?thesis
    unfolding byte_size_wraps using i(2,3) small by (simp add: init_object_def)
qed

theorem malloc_size_wraps_witness:
  "unat (0 :: u64) \<le> 59 \<and>
     (\<exists>i bs. block_class (byte_size (0 + 2 ^ 61)) = Some (i, bs) \<and>
        init_object (\<lambda>_. False) (PrimT type_void) (unat bs) (0 + 2 ^ 61) zero_object = None)"
  using malloc_size_wraps [of 0 "\<lambda>_. False" "PrimT type_void" zero_object] by auto

text \<open>The destructor of a chunk never frees a pointer that \<^verbatim>\<open>calloc\<close> returned.\<close>

lemma HeapChunk_delete_invalid:
  assumes "mem_ok m" "chunk_at m c = Some ch"
  shows "HeapChunk_delete c m = None"
proof -
  have ch: "length (block_info_list ch) = 13" "0 < cells_size ch" "unat (chunk_base ch) + 1856 * cells_size ch < 2 ^ 64"
    "entry_position (block_info_list ch ! 12) = chunk_base ch + of_nat (block_offset 12 * cells_size ch)"
    using mem_ok_chunk [OF assms] by (auto simp: chunk_ok_def chunk_end_def NUMBER_OF_BLOCKS_def BLOCKS_SIZE_def)
  have b: "block_offset 12 * cells_size ch + BLOCK_SIZES ! 12 * cells_size ch = 1856 * cells_size ch"
    using block_offset_13 block_offset_Suc [of 12] by (simp add: BLOCKS_SIZE_def add_mult_distrib [symmetric])
  have "(of_nat (1856 * cells_size ch) :: u64) \<noteq> 0"
    using ch(2,3) by (simp add: word_unat_eq_iff unat_of_nat_id del: of_nat_mult)
  then have "entry_position (block_info_list ch ! 12) + of_nat (BLOCK_SIZES ! 12 * cells_size ch) \<noteq> chunk_base ch"
    unfolding ch(4) add.assoc of_nat_add [symmetric] b by simp
  then show ?thesis using ch(1) assms(2) by (simp add: HeapChunk_delete_def at_def chunk_base_def)
qed

text \<open>
  A block whose \<open>empty\<close> flag was cleared is never used again, even when all its objects
  have died: with all flags cleared from the requested class up, the chunk returns null
  whatever the heap contains.
\<close>

lemma closed_blocks_skipped:
  assumes "length (block_info_list ch) = NUMBER_OF_BLOCKS" "i < NUMBER_OF_BLOCKS"
    and "\<forall>j < NUMBER_OF_BLOCKS. i \<le> j \<longrightarrow> \<not> empty (block_info_list ch ! j)"
  shows "HeapChunk_malloc cyc ty fl ts i (BLOCK_SIZES ! i) h ch = Some (h, ch, nullptr)"
  using assms
proof (induction "13 - i" arbitrary: i)
  case 0
  then show ?case by (simp add: NUMBER_OF_BLOCKS_def)
next
  case (Suc n)
  have i: "i < 13" and len: "length (block_info_list ch) = 13"
    using Suc.prems by (simp_all add: NUMBER_OF_BLOCKS_def)
  have mb: "malloc_block cyc ty fl ts i (BLOCK_SIZES ! i) h ch = Some (h, ch, None)"
    using Suc.prems len by (simp add: malloc_block_def at_def NUMBER_OF_BLOCKS_def)
  show ?case
  proof (cases "i = 12")
    case True
    then show ?thesis using mb next_block_size_nth [OF i] by (simp add: HeapChunk_malloc.simps)
  next
    case False
    then have "HeapChunk_malloc cyc ty fl ts i (BLOCK_SIZES ! i) h ch =
        HeapChunk_malloc cyc ty fl ts (i + 1) (BLOCK_SIZES ! (i + 1)) h ch"
      using mb next_block_size_nth [OF i] by (subst HeapChunk_malloc.simps) simp
    also have "\<dots> = Some (h, ch, nullptr)"
      using Suc.hyps(1) [of "i + 1"] Suc.hyps(2) Suc.prems i False by (auto simp: NUMBER_OF_BLOCKS_def)
    finally show ?thesis .
  qed
qed

section \<open>The contract of an object allocator\<close>

locale object_allocator =
  fixes alloc :: "type_ptr \<Rightarrow> u64 \<Rightarrow> 's \<Rightarrow> ('s \<times> addr) option"
    and heap_of :: "'s \<Rightarrow> heap"
    and ready :: "'s \<Rightarrow> bool"
    and cyc :: "type_ptr \<Rightarrow> bool"
    and max_fields :: nat
  assumes alloc_defined: "ready s \<Longrightarrow> unat fl \<le> max_fields \<Longrightarrow> \<exists>s' a. alloc ty fl s = Some (s', a)"
    and alloc_object: "ready s \<Longrightarrow> unat fl \<le> max_fields \<Longrightarrow> alloc ty fl s = Some (s', a) \<Longrightarrow>
      a \<noteq> nullptr \<and> (\<exists>h. grows (heap_of s) h \<and> allocates cyc ty fl h (heap_of s') a)"
begin

lemma alloc_fresh:
  assumes "ready s" "unat fl \<le> max_fields" "alloc ty fl s = Some (s', a)"
  shows "\<not> in_use (heap_of s) a" "in_use (heap_of s') b \<longleftrightarrow> in_use (heap_of s) b \<or> b = a"
    and "in_use (heap_of s) b \<Longrightarrow> heap_of s' b = heap_of s b"
proof -
  obtain h ob where h: "grows (heap_of s) h" "h a = Some ob" "state ob = dead"
    "heap_of s' = h(a \<mapsto> fresh_object cyc ty fl ob)"
    using alloc_object [OF assms] by (auto simp: allocates_def)
  have g: "in_use h b \<longleftrightarrow> in_use (heap_of s) b" "in_use (heap_of s) b \<Longrightarrow> h b = heap_of s b" for b
    using h(1) [unfolded grows_def, rule_format, of b]
    by (elim disjE; simp add: in_use_def zero_object_def)+
  show n: "\<not> in_use (heap_of s) a" using g(1) [of a] h(2,3) by (auto simp: in_use_def)
  have "in_use (heap_of s') b \<longleftrightarrow> in_use h b \<or> b = a"
    using h(4) by (auto simp: in_use_def fresh_object_def)
  then show "in_use (heap_of s') b \<longleftrightarrow> in_use (heap_of s) b \<or> b = a" using g(1) by simp
  show "in_use (heap_of s) b \<Longrightarrow> heap_of s' b = heap_of s b" using n g(2) h(4) by auto
qed

end

text \<open>A thread's allocator with its search position, as \<^verbatim>\<open>NewClassObject::eval\<close> uses it.\<close>

type_synonym allocator_state = "HeapAllocator \<times> nat \<times> memory"

definition allocator_malloc :: "(type_ptr \<Rightarrow> bool) \<Rightarrow> type_ptr \<Rightarrow> u64 \<Rightarrow> allocator_state \<Rightarrow>
    (allocator_state \<times> addr) option" where
  "allocator_malloc cyc ty fl = (\<lambda>(al, start, m).
     do { (al', m', a, start') \<leftarrow> HeapAllocator_malloc cyc ty fl al start m;
          Some ((al', start', m'), a) })"

definition allocator_ready :: "allocator_state \<Rightarrow> bool" where
  "allocator_ready = (\<lambda>(al, start, m). mem_ok m \<and> allocator_ok al m \<and> start < number_of_chunks al \<and> room al m)"

lemma allocator_malloc_spec:
  assumes "allocator_ready s" "unat fl \<le> 59"
  shows "\<exists>s' a. allocator_malloc cyc ty fl s = Some (s', a) \<and>
    malloc_result cyc ty fl (snd (snd s)) (snd (snd s')) a"
proof -
  obtain al start m where s: "s = (al, start, m)" by (cases s)
  show ?thesis
    using HeapAllocator_malloc_total [of m al start fl cyc ty] assms
    by (auto simp: s allocator_ready_def allocator_malloc_def)
qed

interpretation vm_alloc: object_allocator "allocator_malloc cyc" "\<lambda>(al, start, m). heap m" allocator_ready cyc 59
  for cyc
proof unfold_locales
  fix s ty and fl :: u64
  assume s: "allocator_ready s" "unat fl \<le> 59"
  from allocator_malloc_spec [OF s, of cyc ty]
  show "\<exists>s' a. allocator_malloc cyc ty fl s = Some (s', a)" by blast
  fix s' a assume "allocator_malloc cyc ty fl s = Some (s', a)"
  with allocator_malloc_spec [OF s, of cyc ty]
  have "malloc_result cyc ty fl (snd (snd s)) (snd (snd s')) a" by simp
  then show "a \<noteq> nullptr \<and> (\<exists>h. grows (case s of (al, start, m) \<Rightarrow> heap m) h \<and>
      allocates cyc ty fl h (case s' of (al, start, m) \<Rightarrow> heap m) a)"
    by (auto simp: malloc_result_def split: prod.splits)
qed

end
