(* ===== verification/Mutator.thy ===== *)
theory Mutator
  imports Field_Access Cycle_Collector_Correct Allocator_Correct
begin

text \<open>
  The operations a program uses on its references, and that all of them together with the
  allocator and the collector keep the heap consistent. \<open>own x\<close> is the number of references to
  \<open>x\<close> the program holds outside the heap.
\<close>

section \<open>The invariant under the single operations\<close>

lemma gc_ok_live: "gc_ok L T h own cc \<Longrightarrow> p \<in> L \<Longrightarrow> \<exists>ob. h p = Some ob \<and> obj_ok L h own p ob"
  by (auto simp: gc_ok_def elim: rc_okD)

lemma gc_ok_in_use: "gc_ok L T h own cc \<Longrightarrow> p \<in> L \<union> T \<Longrightarrow> in_use h p"
  using gc_ok_live [of L T h own cc p] by (auto simp: gc_ok_def waiting_ok_def waiting_at_def in_use_def obj_ok_def)

lemma gc_ok_disjoint: "gc_ok L T h own cc \<Longrightarrow> L \<inter> T = {}"
  using live_not_waiting by (fastforce simp: gc_ok_def waiting_ok_def)

text \<open>What an operation may do to the objects in use, and that nothing else is written.\<close>

definition retires_to :: "addr set \<Rightarrow> heap \<Rightarrow> addr set \<Rightarrow> heap \<Rightarrow> bool" where
  "retires_to U h U' h' \<longleftrightarrow> U' \<subseteq> U \<and> dom h' = dom h \<and> (\<forall>p. p \<notin> U \<longrightarrow> h' p = h p) \<and>
     (\<forall>p \<in> U - U'. \<exists>ob. h' p = Some ob \<and> state ob = dead)"

lemma retires_to_trans:
  assumes "retires_to U h U1 h1" "retires_to U1 h1 U2 h2"
  shows "retires_to U h U2 h2"
proof -
  have "\<exists>ob. h2 p = Some ob \<and> state ob = dead" if p: "p \<in> U - U2" for p
  proof (cases "p \<in> U1")
    case True
    then show ?thesis using assms(2) p by (simp add: retires_to_def)
  next
    case False
    then have "h2 p = h1 p" "\<exists>ob. h1 p = Some ob \<and> state ob = dead" using assms p by (simp_all add: retires_to_def)
    then show ?thesis by simp
  qed
  moreover have "h2 p = h p" if "p \<notin> U" for p using assms that unfolding retires_to_def by (metis subsetD)
  ultimately show ?thesis using assms unfolding retires_to_def by auto
qed

lemma retires_to_refl: "retires_to U h U h"
  by (simp add: retires_to_def)

lemma retires_to_upd: "h p = Some ob \<Longrightarrow> p \<in> U \<Longrightarrow> retires_to U h U (h(p \<mapsto> ob'))"
  by (auto simp: retires_to_def)

text \<open>The fields of the object at an address, and what an operation leaves of the live objects.\<close>

definition slots_at :: "heap \<Rightarrow> addr \<Rightarrow> u64 list" where
  "slots_at h p = (case h p of None \<Rightarrow> [] | Some ob \<Rightarrow> slots ob)"

text \<open>
  What the collector relies on to find cycles: an object of a cyclic type is watched once it is
  referred to twice, and stays watched.
\<close>

definition calm :: "HeapObject \<Rightarrow> bool" where
  "calm ob \<longleftrightarrow> (is_cyclic_type ob \<longrightarrow> watched ob \<or> unat (count ob) \<le> 1)"

definition upkeep :: "HeapObject \<Rightarrow> HeapObject \<Rightarrow> bool" where
  "upkeep ob ob' \<longleftrightarrow> is_cyclic_type ob' = is_cyclic_type ob \<and> (watched ob \<longrightarrow> watched ob') \<and> (calm ob \<longrightarrow> calm ob')"

definition leaves :: "addr set \<Rightarrow> heap \<Rightarrow> addr set \<Rightarrow> heap \<Rightarrow> (addr \<Rightarrow> u64 list) \<Rightarrow> bool" where
  "leaves L h L' h' fs \<longleftrightarrow> L' \<subseteq> L \<and> (\<forall>p\<in>L'. slots_at h' p = fs p \<and>
     (\<exists>ob ob'. h p = Some ob \<and> h' p = Some ob' \<and> upkeep ob ob'))"

lemma slots_at_Some [simp]: "h p = Some ob \<Longrightarrow> slots_at h p = slots ob"
  by (simp add: slots_at_def)

lemma slots_at_upd [simp]: "slots_at (h(p \<mapsto> ob)) = (slots_at h)(p := slots ob)"
  by (auto simp: slots_at_def)

lemma upkeep_refl [simp]: "upkeep ob ob"
  by (simp add: upkeep_def)

lemma upkeep_trans: "upkeep a b \<Longrightarrow> upkeep b c \<Longrightarrow> upkeep a c"
  by (auto simp: upkeep_def)

lemma leaves_after:
  assumes "leaves L h L1 h1 fs" "leaves L1 h1 L2 h2 gs"
  shows "leaves L h L2 h2 gs"
proof -
  have "\<exists>ob ob'. h p = Some ob \<and> h2 p = Some ob' \<and> upkeep ob ob'" if p: "p \<in> L2" for p
  proof -
    have "p \<in> L1" using assms(2) p by (auto simp: leaves_def)
    then obtain ob ob1 where "h p = Some ob" "h1 p = Some ob1" "upkeep ob ob1" using assms(1) by (auto simp: leaves_def)
    moreover from this obtain ob2 where "h2 p = Some ob2" "upkeep ob1 ob2" using assms(2) p by (auto simp: leaves_def dest!: bspec [of _ _ p])
    ultimately show ?thesis using upkeep_trans by blast
  qed
  then show ?thesis using assms by (auto simp: leaves_def)
qed

lemma leaves_trans:
  assumes "leaves L h L1 h1 fs" "leaves L1 h1 L2 h2 (slots_at h1)"
  shows "leaves L h L2 h2 fs"
proof -
  have "slots_at h1 p = fs p" if "p \<in> L2" for p using assms that by (auto simp: leaves_def)
  then show ?thesis using leaves_after [OF assms] by (auto simp: leaves_def)
qed

lemma leaves_refl: "gc_ok L T h own cc \<Longrightarrow> leaves L h L h (slots_at h)"
  using gc_ok_live by (fastforce simp: leaves_def)

lemma leaves_upd:
  assumes "gc_ok L T h own cc" "p \<in> L" "h p = Some ob" "upkeep ob ob'"
  shows "leaves L h L (h(p \<mapsto> ob')) ((slots_at h)(p := slots ob'))"
  using assms(2-4) gc_ok_live [OF assms(1)] by (fastforce simp: leaves_def)

text \<open>When references only disappear, the counts of the objects that stay live do not grow.\<close>

lemma survivors_cnt:
  assumes ok: "gc_ok L T h own cc" "gc_ok L' T' h' own' cc'" and c: "counts_only L' h h'" "L' \<subseteq> L"
    and own: "\<forall>x. own' x \<le> own x" and p: "p \<in> L'"
  shows "cnt h' p \<le> cnt h p"
proof -
  have rc: "rc_ok L h own" "rc_ok L' h' own'" using ok by (simp_all add: gc_ok_def)
  have fin: "finite L" using rc(1) by (simp add: rc_ok_def)
  have same: "refs h' q p = refs h q p" if "q \<in> L'" for q
    using c(1) that by (auto simp: counts_only_def refs_def dest!: bspec [of _ _ q])
  have "cnt h' p = own' p + (\<Sum>q\<in>L'. refs h' q p)" using rc_ok_cnt [OF rc(2) p] .
  also have "\<dots> \<le> own p + (\<Sum>q\<in>L. refs h q p)"
    using own same sum_mono2 [OF fin c(2), of "\<lambda>q. refs h q p"] by (simp add: add_mono)
  also have "\<dots> = cnt h p" using rc_ok_cnt [OF rc(1), of p] c(2) p by auto
  finally show ?thesis .
qed

lemma leaves_survivors:
  assumes ok: "gc_ok L T h own cc" "gc_ok L' T' h' own' cc'" and c: "counts_only L' h h'" "L' \<subseteq> L"
    and own: "\<forall>x. own' x \<le> own x"
  shows "leaves L h L' h' (slots_at h)"
proof -
  have "slots_at h' p = slots_at h p \<and> (\<exists>ob ob'. h p = Some ob \<and> h' p = Some ob' \<and> upkeep ob ob')" if p: "p \<in> L'" for p
  proof -
    obtain ob k where ob: "h p = Some ob" "h' p = Some (ob\<lparr>count := k\<rparr>)" using c(1) p by (auto simp: counts_only_def)
    then have "unat k \<le> unat (count ob)" using survivors_cnt [OF assms p] by (simp add: cnt_def)
    then have "upkeep ob (ob\<lparr>count := k\<rparr>)" by (auto simp: upkeep_def calm_def watched_def)
    then show ?thesis using ob by simp
  qed
  then show ?thesis using c(2) by (simp add: leaves_def)
qed

lemma increment_keeps:
  assumes ok: "gc_ok L T h own cc" and p: "object \<in> L" "cnt h object < 2 ^ 63"
  shows "\<exists>cc' h' ob ob'. increment_reference_count cc h object = Some (cc', h') \<and>
    gc_ok L T h' (own(object := own object + 1)) cc' \<and> h object = Some ob \<and>
    h' = h(object \<mapsto> ob') \<and> slots ob' = slots ob \<and> leaves L h L h' (slots_at h)"
proof -
  have rc: "rc_ok L h own" and T: "waiting_ok T h" and ul: "unlocked UNIV h" and zs: "zeros L h = {}"
    and S: "distinct (suspected_object_list cc)" "set (suspected_object_list cc) = {p \<in> L \<union> T. watched_at h p}"
    using ok by (simp_all add: gc_ok_def)
  obtain ob where ob: "h object = Some ob" using gc_ok_live [OF ok p(1)] by blast
  have small: "unat (count ob) < 2 ^ 64 - 1" using p(2) ob by (simp add: cnt_def)
  let ?ob = "ob\<lparr>count := count ob + 1, async_release := async_release ob \<or> (is_cyclic_type ob \<and> count ob = 1)\<rparr>"
  let ?h = "h(object \<mapsto> ?ob)"
  obtain cc' where r: "increment_reference_count cc h object = Some (cc', ?h)"
    "rc_ok L ?h (own(object := own object + 1))"
    "set (suspected_object_list cc') = set (suspected_object_list cc) \<union>
        (if is_cyclic_type ob \<and> \<not> async_release ob \<and> count ob = 1 then {object} else {})"
    "distinct (suspected_object_list cc')"
    using increment_spec [OF rc p(1) ob small S(1)] by blast
  have oT: "object \<notin> T" using gc_ok_disjoint [OF ok] p(1) by blast
  have T': "waiting_ok T ?h" using T by (rule waiting_ok_frame) (use oT in auto)
  have "count ob + 1 \<noteq> 0" using unat_inc [of "count ob"] small by auto
  then have "zeros L ?h = {}" using zs by (auto simp: zeros_def)
  moreover have "unlocked UNIV ?h" using ul ob by (auto simp: unlocked_def)
  moreover have "{p \<in> L \<union> T. watched_at ?h p} = {p \<in> L \<union> T. watched_at h p} \<union>
      (if is_cyclic_type ob \<and> \<not> async_release ob \<and> count ob = 1 then {object} else {})"
    using ob p(1) by (auto simp: watched_at_def watched_def)
  ultimately have "gc_ok L T ?h (own(object := own object + 1)) cc'" using r(2-4) T' S by (simp add: gc_ok_def)
  moreover have "upkeep ob ?ob"
    using unat_inc [of "count ob"] small by (auto simp: upkeep_def calm_def watched_def le_Suc_eq word_eq_iff_unsigned [where ?'a = nat])
  then have "leaves L h L ?h (slots_at h)"
    using leaves_upd [of L T h own cc object ob ?ob, OF ok p(1) ob] fun_upd_idem [of "slots_at h" object "slots ob"] ob by simp
  ultimately show ?thesis using r(1) ob by (intro exI [of _ cc'] exI [of _ ?h] exI [of _ ob] exI [of _ ?ob]) simp
qed

lemma outcome_dom:
  assumes "outcome H h ext stk Z D W h'"
  shows "dom h' = dom h"
proof -
  have "(h' p = None) = (h p = None)" for p
  proof -
    consider "p \<in> D" | "p \<in> W" | "p \<in> H - (D \<union> W)" | "p \<notin> H" by blast
    then show ?thesis
    proof cases
      case 3
      then obtain ob k where "h p = Some ob" "h' p = Some (ob\<lparr>count := k\<rparr>)"
        using assms unfolding outcome_def counts_only_def by blast
      then show ?thesis by simp
    next
      case 4
      then show ?thesis using assms by (simp add: outcome_def unchanged_outside_def)
    qed (use assms in \<open>auto simp: outcome_def retires_def dest!: bspec [of _ _ p]\<close>)
  qed
  then show ?thesis by (auto simp: dom_def)
qed

lemma decrement_keeps:
  assumes ok: "gc_ok L T h own cc" and p: "0 < own object"
  shows "\<exists>h' L' T'. decrement_reference_count h object = Some h' \<and>
    gc_ok L' T' h' (own(object := own object - 1)) cc \<and> retires_to (L \<union> T) h (L' \<union> T') h' \<and> counts_only L' h h' \<and>
    leaves L h L' h' (slots_at h)"
proof -
  have rc: "rc_ok L h own" and T: "waiting_ok T h" and ul: "unlocked UNIV h" and zs: "pending L h [] {}"
    and S: "distinct (suspected_object_list cc)" "set (suspected_object_list cc) = {p \<in> L \<union> T. watched_at h p}"
    using ok by (simp_all add: gc_ok_def pending_def)
  obtain h' D W where d: "decrement_reference_count h object = Some h'"
    and o: "outcome L h (own(object := own object - 1)) [] {} D W h'"
    using decrement_spec [OF rc p zs] by blast
  let ?L = "L - (D \<union> W)"
  have D: "D \<subseteq> L" "W \<subseteq> L" "D \<inter> W = {}" "\<forall>p\<in>D. \<not> watched_at h p" "retires waiting_for_gc W h h'" "forest W h'"
    using o by (auto simp: outcome_def)
  have out: "h' p = h p" if "p \<notin> L" for p using o that by (simp add: outcome_def unchanged_outside_def)
  have LT: "L \<inter> T = {}" using gc_ok_disjoint [OF ok] .
  have WT: "waiting_ok W h'" by (rule retired_waiting_ok [OF D(5,6) graph_live [OF rc] D(2)])
  have T': "waiting_ok T h'" using T by (rule waiting_ok_frame) (use out LT in blast)
  have "forest (T \<union> W) h'" using T' WT LT D(2) by (intro forest_union) (auto simp: waiting_ok_def)
  then have W': "waiting_ok (T \<union> W) h'" using T' WT by (auto simp: waiting_ok_def)
  have "{p \<in> L \<union> T. watched_at h p} = {p \<in> ?L \<union> (T \<union> W). watched_at h' p}"
    using D outcome_watched [OF o] by auto
  then have ok': "gc_ok ?L (T \<union> W) h' (own(object := own object - 1)) cc"
    using o W' outcome_unlocked [OF o ul] S by (simp add: gc_ok_def outcome_def pending_def)
  have "\<exists>ob. h' p = Some ob \<and> state ob = dead" if "p \<in> D" for p
    using o that by (auto simp: outcome_def retires_def retired_def dest!: bspec [of _ _ p])
  then have "retires_to (L \<union> T) h (?L \<union> (T \<union> W)) h'"
    using out D outcome_dom [OF o] by (auto simp: retires_to_def)
  moreover have c: "counts_only ?L h h'" using o by (simp add: outcome_def)
  moreover have "leaves L h ?L h' (slots_at h)" using leaves_survivors [OF ok ok' c] by auto
  ultimately show ?thesis using d ok' by blast
qed

text \<open>Exchanging a field gives up one reference to the new object and gains one to the old.\<close>

definition traded :: "(addr \<Rightarrow> nat) \<Rightarrow> addr \<Rightarrow> addr \<Rightarrow> addr \<Rightarrow> nat" where
  "traded own new old x = (if x = nullptr then own x
     else own x + (if x = old then 1 else 0) - (if x = new then 1 else 0))"

lemma traded_balance:
  assumes "x \<noteq> nullptr" "new = nullptr \<or> 0 < own new" "S' + (if old = x then 1 else 0) = S + (if new = x then 1 else 0)"
  shows "traded own new old x + S' = own x + S"
  using assms by (auto simp: traded_def split: if_splits)

lemma rc_ok_exchange:
  assumes rc: "rc_ok H h own" and p: "p \<in> H" "h p = Some ob" "i < length (slots ob)" and new: "new = nullptr \<or> 0 < own new"
  shows "rc_ok H (h(p \<mapsto> ob\<lparr>slots := (slots ob)[i := new]\<rparr>)) (traded own new (slots ob ! i))"
proof -
  let ?ob = "ob\<lparr>slots := (slots ob)[i := new]\<rparr>" and ?old = "slots ob ! i"
  let ?h = "h(p \<mapsto> ?ob)"
  have newH: "new = nullptr \<or> new \<in> H" using new rc_ok_ext [OF rc] by blast
  have okp: "obj_ok H h own p ob" using rc_okD [OF rc p(1)] p(2) by auto
  have old: "?old \<noteq> nullptr \<Longrightarrow> ?old \<in> H" using okp p(3) by (auto simp: obj_ok_def)
  have sum: "(\<Sum>q\<in>H. refs ?h q x) + (if ?old = x then 1 else 0) = (\<Sum>q\<in>H. refs h q x) + (if new = x then 1 else 0)" for x
  proof -
    have "refs ?h q x = refs h q x" if "q \<noteq> p" for q using that by (simp add: refs_def)
    then have "(\<Sum>q\<in>H-{p}. refs ?h q x) = (\<Sum>q\<in>H-{p}. refs h q x)" by (intro sum.cong) auto
    moreover have "refs ?h p x + (if ?old = x then 1 else 0) = refs h p x + (if new = x then 1 else 0)"
      using count_list_update [OF p(3), of new x] p(2) by (simp add: refs_def)
    ultimately show ?thesis
      using sum.remove [of H p "\<lambda>q. refs ?h q x"] sum.remove [of H p "\<lambda>q. refs h q x"] rc p(1) by simp
  qed
  have "\<exists>ob'. ?h q = Some ob' \<and> obj_ok H ?h (traded own new ?old) q ob'" if q: "q \<in> H" for q
  proof -
    obtain oq where oq: "h q = Some oq" "obj_ok H h own q oq" using rc_okD [OF rc q] by blast
    have "q \<noteq> nullptr" using q rc by (auto simp: rc_ok_def)
    then have "unat (count oq) = traded own new ?old q + (\<Sum>r\<in>H. refs ?h r q)"
      using oq(2) traded_balance [of q new own, OF \<open>q \<noteq> nullptr\<close> new sum [of q]] by (simp add: obj_ok_def)
    moreover have "set ((slots ob)[i := new]) \<subseteq> insert new (set (slots ob))" by (rule set_update_subset_insert)
    ultimately show ?thesis
      using oq p newH okp by (cases "q = p") (auto simp: obj_ok_def)
  qed
  moreover have "x \<in> H" if "0 < traded own new ?old x" for x
    using that old rc_ok_ext [OF rc, of x] by (auto simp: traded_def split: if_splits)
  ultimately show ?thesis using rc by (auto simp: rc_ok_def)
qed

lemma exchange_field_run:
  assumes "h p = Some ob" "\<not> lock_flag ob" "i < length (slots ob)" "slots ob ! i \<noteq> borrowed"
  shows "exchange_field h p i new = Some (slots ob ! i, h(p \<mapsto> ob\<lparr>slots := (slots ob)[i := new]\<rparr>))"
  using assms
  by (subst exchange_field.simps) (cases ob, simp add: heap_simps object_unlock_def)

definition field_at :: "heap \<Rightarrow> addr \<Rightarrow> nat \<Rightarrow> addr" where
  "field_at h p i = (case h p of None \<Rightarrow> nullptr | Some ob \<Rightarrow> if i < length (slots ob) then slots ob ! i else nullptr)"

definition has_field :: "heap \<Rightarrow> addr \<Rightarrow> nat \<Rightarrow> bool" where
  "has_field h p i \<longleftrightarrow> (\<exists>ob. h p = Some ob \<and> i < length (slots ob))"

lemma field_not_borrowed:
  assumes ok: "gc_ok L T h own cc" and p: "p \<in> L" "has_field h p i" and one: "borrowed \<notin> L"
  obtains ob where "h p = Some ob" "i < length (slots ob)" "slots ob ! i = field_at h p i" "\<not> lock_flag ob"
    "field_at h p i \<noteq> borrowed" "field_at h p i = nullptr \<or> field_at h p i \<in> L"
proof -
  obtain ob where ob: "h p = Some ob" "i < length (slots ob)" using p(2) by (auto simp: has_field_def)
  have "obj_ok L h own p ob" using gc_ok_live [OF ok p(1)] ob(1) by auto
  then have "slots ob ! i = nullptr \<or> slots ob ! i \<in> L" using ob(2) by (auto simp: obj_ok_def)
  moreover have "\<not> lock_flag ob" using ok ob(1) by (auto simp: gc_ok_def unlocked_def)
  ultimately show thesis using ob one by (intro that [of ob]) (auto simp: field_at_def)
qed

lemma exchange_keeps:
  assumes ok: "gc_ok L T h own cc" and p: "p \<in> L" "has_field h p i" and one: "borrowed \<notin> L"
    and new: "new = nullptr \<or> 0 < own new"
  shows "\<exists>h'. exchange_field h p i new = Some (field_at h p i, h') \<and>
    gc_ok L T h' (traded own new (field_at h p i)) cc \<and> retires_to (L \<union> T) h (L \<union> T) h' \<and>
    has_field h' p i \<and> field_at h' p i = new \<and> leaves L h L h' ((slots_at h)(p := (slots_at h p)[i := new]))"
proof -
  have rc: "rc_ok L h own" and T: "waiting_ok T h" and ul: "unlocked UNIV h" and zs: "zeros L h = {}"
    and S: "distinct (suspected_object_list cc)" "set (suspected_object_list cc) = {p \<in> L \<union> T. watched_at h p}"
    using ok by (simp_all add: gc_ok_def)
  obtain ob where ob: "h p = Some ob" "i < length (slots ob)" "slots ob ! i = field_at h p i" "\<not> lock_flag ob"
    "field_at h p i \<noteq> borrowed" by (rule field_not_borrowed [OF ok p one])
  let ?h = "h(p \<mapsto> ob\<lparr>slots := (slots ob)[i := new]\<rparr>)"
  have run: "exchange_field h p i new = Some (field_at h p i, ?h)"
    using exchange_field_run [of h p ob i new] ob by simp
  have pT: "p \<notin> T" using gc_ok_disjoint [OF ok] p(1) by blast
  have "rc_ok L ?h (traded own new (field_at h p i))" using rc_ok_exchange [OF rc p(1) ob(1,2) new] ob(3) by simp
  moreover have "zeros L ?h = {}" using zs ob(1) by (auto simp: zeros_def)
  moreover have "waiting_ok T ?h" using T by (rule waiting_ok_frame) (use pT in auto)
  moreover have "unlocked UNIV ?h" using ul ob(1) by (auto simp: unlocked_def)
  moreover have "watched_at ?h q = watched_at h q" for q using ob(1) by (simp add: watched_at_def watched_def)
  ultimately have "gc_ok L T ?h (traded own new (field_at h p i)) cc" using S by (simp add: gc_ok_def)
  moreover have "retires_to (L \<union> T) h (L \<union> T) ?h" using ob(1) p(1) by (intro retires_to_upd) auto
  moreover have "has_field ?h p i" "field_at ?h p i = new" using ob(1,2) by (simp_all add: has_field_def field_at_def)
  moreover have "upkeep ob (ob\<lparr>slots := (slots ob)[i := new]\<rparr>)" by (simp add: upkeep_def calm_def watched_def)
  then have "leaves L h L ?h ((slots_at h)(p := (slots_at h p)[i := new]))"
    using leaves_upd [of L T h own cc p ob, OF ok p(1) ob(1), of "ob\<lparr>slots := (slots ob)[i := new]\<rparr>"] ob(1) by simp
  ultimately show ?thesis using run by blast
qed

lemma counts_only_field:
  "counts_only A h h' \<Longrightarrow> p \<in> A \<Longrightarrow> field_at h' p i = field_at h p i \<and> has_field h' p i = has_field h p i"
  by (auto simp: counts_only_def field_at_def has_field_def dest!: bspec [of _ _ p])

lemma traded_null: "traded own nullptr old = (if old = nullptr then own else own(old := own old + 1))"
  by (auto simp: traded_def fun_eq_iff)

lemma traded_drop:
  assumes "old \<noteq> nullptr" "new = nullptr \<or> 0 < own new"
  shows "0 < traded own new old old"
    "(traded own new old)(old := traded own new old old - 1) = (if new = nullptr then own else own(new := own new - 1))"
  using assms by (auto simp: traded_def fun_eq_iff)

text \<open>Storing a reference the program gives away.\<close>

lemma store_keeps:
  assumes ok: "gc_ok L T h own cc" and p: "p \<in> L" "has_field h p i" and one: "borrowed \<notin> L"
    and new: "new = nullptr \<or> 0 < own new"
  shows "\<exists>h' L' T'. set_move_object_field h p i new = Some h' \<and>
    gc_ok L' T' h' (if new = nullptr then own else own(new := own new - 1)) cc \<and> retires_to (L \<union> T) h (L' \<union> T') h' \<and>
    (p \<in> L' \<longrightarrow> has_field h' p i \<and> field_at h' p i = new) \<and>
    leaves L h L' h' ((slots_at h)(p := (slots_at h p)[i := new]))"
proof -
  let ?old = "field_at h p i"
  obtain h1 where e: "exchange_field h p i new = Some (?old, h1)" "gc_ok L T h1 (traded own new ?old) cc"
    "retires_to (L \<union> T) h (L \<union> T) h1" "has_field h1 p i" "field_at h1 p i = new"
    "leaves L h L h1 ((slots_at h)(p := (slots_at h p)[i := new]))" using exchange_keeps [OF ok p one new] by blast
  show ?thesis
  proof (cases "?old = nullptr")
    case True
    then have "traded own new ?old = (if new = nullptr then own else own(new := own new - 1))"
      by (auto simp: traded_def fun_eq_iff)
    then have "gc_ok L T h1 (if new = nullptr then own else own(new := own new - 1)) cc" using e(2) by simp
    moreover have "set_move_object_field h p i new = Some h1" using e(1) True by (simp add: set_move_object_field_def)
    ultimately show ?thesis using e(3-6) by blast
  next
    case False
    note t = traded_drop [of ?old new own, OF False new]
    obtain h' L' T' where d: "decrement_reference_count h1 ?old = Some h'"
      "gc_ok L' T' h' (if new = nullptr then own else own(new := own new - 1)) cc" "retires_to (L \<union> T) h1 (L' \<union> T') h'" "counts_only L' h1 h'"
      "leaves L h1 L' h' (slots_at h1)"
      using decrement_keeps [OF e(2) t(1)] unfolding t(2) by blast
    have "set_move_object_field h p i new = Some h'" using e(1) False d(1) by (simp add: set_move_object_field_def)
    then show ?thesis
      using d(2) retires_to_trans [OF e(3) d(3)] counts_only_field [OF d(4), of p i] e(4,5) leaves_trans [OF e(6) d(5)] by blast
  qed
qed

lemma clone_store_keeps:
  assumes ok: "gc_ok L T h own cc" and p: "p \<in> L" "has_field h p i" and one: "borrowed \<notin> L"
    and new: "new \<in> L" "cnt h new < 2 ^ 63"
  shows "\<exists>cc' h' L' T'. set_clone_object_field cc h p i new = Some (cc', h') \<and>
    gc_ok L' T' h' own cc' \<and> retires_to (L \<union> T) h (L' \<union> T') h' \<and>
    leaves L h L' h' ((slots_at h)(p := (slots_at h p)[i := new]))"
proof -
  obtain cc' h1 ob ob' where c: "increment_reference_count cc h new = Some (cc', h1)"
    "gc_ok L T h1 (own(new := own new + 1)) cc'" "h new = Some ob" "h1 = h(new \<mapsto> ob')" "slots ob' = slots ob" "leaves L h L h1 (slots_at h)"
    using increment_keeps [OF ok new] by blast
  have "has_field h1 p i" using p(2) c(3,4,5) by (auto simp: has_field_def)
  moreover have "new \<noteq> nullptr" using new(1) ok by (auto simp: gc_ok_def rc_ok_def)
  ultimately obtain h' L' T' where m: "set_move_object_field h1 p i new = Some h'" "gc_ok L' T' h' own cc'"
    "retires_to (L \<union> T) h1 (L' \<union> T') h'" "leaves L h1 L' h' ((slots_at h1)(p := (slots_at h1 p)[i := new]))"
    using store_keeps [OF c(2) p(1) _ one, of i new] by fastforce
  have "set_clone_object_field cc h p i new = do { h \<leftarrow> set_move_object_field h1 p i new; Some (cc', h) }"
    using c(1) by (auto simp: set_clone_object_field_def set_move_object_field_def intro!: Option.bind_cong split: prod.splits)
  then have "set_clone_object_field cc h p i new = Some (cc', h')" using m(1) by simp
  moreover have "retires_to (L \<union> T) h (L \<union> T) h1" using retires_to_upd [of h new ob "L \<union> T" ob'] new(1) c(3,4) by simp
  then have "retires_to (L \<union> T) h (L' \<union> T') h'" by (rule retires_to_trans [OF _ m(3)])
  moreover have "slots_at h1 = slots_at h" using c(3-5) by (auto simp: fun_eq_iff slots_at_def)
  then have "leaves L h L' h' ((slots_at h)(p := (slots_at h p)[i := new]))" using leaves_after [OF c(6) m(4)] by simp
  ultimately show ?thesis using m(2) by blast
qed

lemma move_out_keeps:
  assumes ok: "gc_ok L T h own cc" and p: "p \<in> L" "has_field h p i" and one: "borrowed \<notin> L"
  shows "\<exists>h'. get_move_object_field h p i = Some (field_at h p i, h') \<and>
    gc_ok L T h' (if field_at h p i = nullptr then own else own(field_at h p i := own (field_at h p i) + 1)) cc \<and>
    retires_to (L \<union> T) h (L \<union> T) h' \<and> leaves L h L h' ((slots_at h)(p := (slots_at h p)[i := nullptr]))"
  using exchange_keeps [OF ok p one, of nullptr] unfolding get_move_object_field_def traded_null by blast

lemma get_clone_run:
  assumes ob: "h p = Some ob" "\<not> lock_flag ob" "i < length (slots ob)" "slots ob ! i \<noteq> borrowed"
    and f: "f = slots ob ! i" "f = nullptr \<or> (\<exists>fob. h f = Some fob)"
  shows "get_clone_object_field cc h p i = (if f = nullptr then Some (f, cc, h)
     else do { (cc, h) \<leftarrow> increment_reference_count cc h f; Some (f, cc, h) })"
proof (cases "f = nullptr")
  case True
  have "(ob\<lparr>lock_flag := True\<rparr>)\<lparr>lock_flag := False\<rparr> = ob" using ob(2) by (cases ob) simp
  then show ?thesis
    using ob f True by (subst get_clone_object_field.simps) (simp add: heap_simps object_unlock_def fun_upd_idem)
next
  case False
  obtain fob where fob: "h f = Some fob" using f(2) False by blast
  show ?thesis
  proof (cases "f = p")
    case True
    then show ?thesis
      using ob f(1) False fob
      by (subst get_clone_object_field.simps)
        (cases ob, auto simp: heap_simps object_unlock_def increment_reference_count_def fetch_add_def)
  next
    case neq: False
    then show ?thesis
      using ob f(1) False fob
      by (subst get_clone_object_field.simps)
        (cases ob, auto simp: heap_simps object_unlock_def increment_reference_count_def fetch_add_def fun_upd_twist)
  qed
qed

lemma clone_out_keeps:
  assumes ok: "gc_ok L T h own cc" and p: "p \<in> L" "has_field h p i" and one: "borrowed \<notin> L"
    and small: "field_at h p i \<noteq> nullptr \<Longrightarrow> cnt h (field_at h p i) < 2 ^ 63"
  shows "\<exists>cc' h'. get_clone_object_field cc h p i = Some (field_at h p i, cc', h') \<and>
    gc_ok L T h' (if field_at h p i = nullptr then own else own(field_at h p i := own (field_at h p i) + 1)) cc' \<and>
    retires_to (L \<union> T) h (L \<union> T) h' \<and> leaves L h L h' (slots_at h)"
proof -
  let ?f = "field_at h p i"
  obtain ob where ob: "h p = Some ob" "i < length (slots ob)" "slots ob ! i = ?f" "\<not> lock_flag ob"
    "?f \<noteq> borrowed" "?f = nullptr \<or> ?f \<in> L" by (rule field_not_borrowed [OF ok p one])
  have "?f = nullptr \<or> (\<exists>fob. h ?f = Some fob)" using ob(6) gc_ok_live [OF ok] by blast
  then have run: "get_clone_object_field cc h p i = (if ?f = nullptr then Some (?f, cc, h)
     else do { (cc, h) \<leftarrow> increment_reference_count cc h ?f; Some (?f, cc, h) })"
    by (rule get_clone_run [of h p ob, OF ob(1,4,2) ob(5) [folded ob(3)] ob(3) [symmetric]])
  show ?thesis
  proof (cases "?f = nullptr")
    case True
    then show ?thesis using run ok retires_to_refl leaves_refl [OF ok] by simp
  next
    case False
    then have fL: "?f \<in> L" using ob(6) by simp
    obtain cc' h' fob fob' where i: "increment_reference_count cc h ?f = Some (cc', h')"
      "gc_ok L T h' (own(?f := own ?f + 1)) cc'" "h ?f = Some fob" "h' = h(?f \<mapsto> fob')" "leaves L h L h' (slots_at h)"
      using increment_keeps [OF ok fL small [OF False]] by blast
    then have "leaves L h L h' (slots_at h)" "retires_to (L \<union> T) h (L \<union> T) h'"
      using fL retires_to_upd [of h ?f fob "L \<union> T" fob'] by simp_all
    then show ?thesis using run False i(1,2) by (intro exI [of _ cc'] exI [of _ h']) simp
  qed
qed

lemma collect_keeps:
  assumes ok: "gc_ok L T h own cc" and i: "iterates iter" and small: "\<forall>p\<in>L. cnt h p < 2 ^ 63"
  shows "\<exists>cc' h' L' T'. gc_collect iter cc h = Some (cc', h') \<and> gc_ok L' T' h' own cc' \<and>
    retires_to (L \<union> T) h (L' \<union> T') h' \<and> leaves L h L' h' (slots_at h) \<and> T' \<subseteq> L - L' \<and> counts_only L' h h'"
proof -
  obtain cc' h' L' T' where g: "gc_collect iter cc h = Some (cc', h')" "gc_ok L' T' h' own cc'" "L' \<subseteq> L" "T' \<subseteq> L - L'"
    "\<forall>p \<in> L \<union> T. p \<in> L' \<union> T' \<or> (\<exists>ob. h' p = Some ob \<and> state ob = dead)" "\<forall>p. p \<notin> L \<union> T \<longrightarrow> h' p = h p"
    "counts_only L' h h'"
    using gc_collect_spec [OF assms] by blast
  have some: "h p \<noteq> None" if "gc_ok L T h own cc" "p \<in> L \<union> T" for L T h p cc
    using that gc_ok_live [OF that(1), of p] by (auto simp: gc_ok_def waiting_ok_def readable_def)
  have "(h' p = None) = (h p = None)" for p
    using some [OF ok, of p] some [OF g(2), of p] bspec [OF g(5), of p] g(6) by (cases "p \<in> L \<union> T") auto
  then have "dom h' = dom h" by (auto simp: dom_def)
  then have "retires_to (L \<union> T) h (L' \<union> T') h'" using g(3-6) by (auto simp: retires_to_def)
  then show ?thesis using g(1,2,4,7) leaves_survivors [OF ok g(2,7,3)] by blast
qed

section \<open>Operations on references\<close>

text \<open>A consistent heap: the objects in use are those of the invariant.\<close>

definition consistent :: "(addr \<Rightarrow> nat) \<Rightarrow> CycleCollector \<Rightarrow> heap \<Rightarrow> bool" where
  "consistent own cc h \<longleftrightarrow> (\<exists>L T. gc_ok L T h own cc \<and> (\<forall>p. in_use h p \<longleftrightarrow> p \<in> L \<union> T))"

definition live_at :: "heap \<Rightarrow> addr \<Rightarrow> bool" where
  "live_at h p \<longleftrightarrow> (\<exists>ob. h p = Some ob \<and> state ob = live)"

lemma live_iff:
  assumes ok: "gc_ok L T h own cc" and u: "\<forall>p. in_use h p \<longleftrightarrow> p \<in> L \<union> T"
  shows "live_at h p \<longleftrightarrow> p \<in> L"
proof
  assume l: "live_at h p"
  then have "p \<in> L \<union> T" using u by (auto simp: live_at_def in_use_def)
  moreover have "p \<notin> T" using l ok by (auto simp: live_at_def gc_ok_def waiting_ok_def waiting_at_def)
  ultimately show "p \<in> L" by simp
next
  assume "p \<in> L"
  then show "live_at h p" using gc_ok_live [OF ok] by (auto simp: live_at_def obj_ok_def)
qed

text \<open>
  The contract all operations share: on a consistent heap, and if the program may perform it,
  an operation terminates and leaves a consistent heap for the references the program then
  holds, in which every object that is no longer in use is dead.
\<close>

locale reference_op =
  fixes run :: "CycleCollector \<Rightarrow> heap \<Rightarrow> (CycleCollector \<times> heap) option"
    and pre :: "heap \<Rightarrow> (addr \<Rightarrow> nat) \<Rightarrow> bool"
    and post :: "heap \<Rightarrow> (addr \<Rightarrow> nat) \<Rightarrow> (addr \<Rightarrow> nat)"
    and fields' :: "heap \<Rightarrow> addr \<Rightarrow> u64 list"
  assumes run_keeps: "gc_ok L T h own cc \<Longrightarrow> borrowed \<notin> L \<Longrightarrow> pre h own \<Longrightarrow>
    \<exists>cc' h' L' T'. run cc h = Some (cc', h') \<and> gc_ok L' T' h' (post h own) cc' \<and>
      retires_to (L \<union> T) h (L' \<union> T') h' \<and> leaves L h L' h' (fields' h)"
begin

lemma run_consistent:
  assumes "consistent own cc h" "h borrowed = None" "pre h own"
  shows "\<exists>cc' h'. run cc h = Some (cc', h') \<and> consistent (post h own) cc' h' \<and> dom h' = dom h \<and>
    (\<forall>p. live_at h' p \<longrightarrow> live_at h p \<and> slots_at h' p = fields' h p \<and>
       (\<exists>ob ob'. h p = Some ob \<and> h' p = Some ob' \<and> upkeep ob ob'))"
proof -
  obtain L T where ok: "gc_ok L T h own cc" and u: "\<forall>p. in_use h p \<longleftrightarrow> p \<in> L \<union> T"
    using assms(1) by (auto simp: consistent_def)
  have "borrowed \<notin> L" using u [rule_format, of borrowed] assms(2) by (auto simp: in_use_def)
  then obtain cc' h' L' T' where r: "run cc h = Some (cc', h')" "gc_ok L' T' h' (post h own) cc'"
    "retires_to (L \<union> T) h (L' \<union> T') h'" "leaves L h L' h' (fields' h)" using run_keeps [OF ok _ assms(3)] by blast
  have "in_use h' p \<longleftrightarrow> p \<in> L' \<union> T'" for p
  proof (cases "p \<in> L' \<union> T'")
    case True
    then show ?thesis using gc_ok_in_use [OF r(2)] by blast
  next
    case out: False
    show ?thesis
    proof (cases "p \<in> L \<union> T")
      case True
      then have "\<exists>ob. h' p = Some ob \<and> state ob = dead" using r(3) out by (simp add: retires_to_def)
      then show ?thesis using out by (auto simp: in_use_def)
    next
      case False
      then have "h' p = h p" using r(3) by (simp add: retires_to_def)
      then show ?thesis using u [rule_format, of p] False out by (auto simp: in_use_def)
    qed
  qed
  then have u': "\<forall>p. in_use h' p \<longleftrightarrow> p \<in> L' \<union> T'" by blast
  have "live_at h p \<and> slots_at h' p = fields' h p \<and> (\<exists>ob ob'. h p = Some ob \<and> h' p = Some ob' \<and> upkeep ob ob')"
    if "live_at h' p" for p
    using that r(4) live_iff [OF r(2) u'] live_iff [OF ok u] by (auto simp: leaves_def)
  moreover have "consistent (post h own) cc' h'" using r(2) u' by (auto simp: consistent_def)
  ultimately show ?thesis using r by (auto simp: retires_to_def)
qed

end

datatype ref_op = Clone addr | Drop addr | Set_clone addr nat addr | Set_move addr nat addr
  | Get_clone addr nat | Get_move addr nat | Collect

fun exec_op :: "(addr list \<Rightarrow> addr list) \<Rightarrow> ref_op \<Rightarrow> CycleCollector \<Rightarrow> heap \<Rightarrow> (CycleCollector \<times> heap) option" where
  "exec_op iter (Clone x) cc h = increment_reference_count cc h x"
| "exec_op iter (Drop x) cc h = map_option (\<lambda>h. (cc, h)) (decrement_reference_count h x)"
| "exec_op iter (Set_clone p i f) cc h = set_clone_object_field cc h p i f"
| "exec_op iter (Set_move p i f) cc h = map_option (\<lambda>h. (cc, h)) (set_move_object_field h p i f)"
| "exec_op iter (Get_clone p i) cc h = map_option snd (get_clone_object_field cc h p i)"
| "exec_op iter (Get_move p i) cc h = map_option (\<lambda>r. (cc, snd r)) (get_move_object_field h p i)"
| "exec_op iter Collect cc h = gc_collect iter cc h"

text \<open>
  What the program may do: use objects it holds a reference to, give away references it holds;
  and there are fewer than \<open>2 ^ 63\<close> references to an object.
\<close>

fun may_do :: "(addr list \<Rightarrow> addr list) \<Rightarrow> ref_op \<Rightarrow> heap \<Rightarrow> (addr \<Rightarrow> nat) \<Rightarrow> bool" where
  "may_do iter (Clone x) h own \<longleftrightarrow> 0 < own x \<and> cnt h x < 2 ^ 63"
| "may_do iter (Drop x) h own \<longleftrightarrow> 0 < own x"
| "may_do iter (Set_clone p i f) h own \<longleftrightarrow> 0 < own p \<and> has_field h p i \<and> 0 < own f \<and> cnt h f < 2 ^ 63"
| "may_do iter (Set_move p i f) h own \<longleftrightarrow> 0 < own p \<and> has_field h p i \<and> (f = nullptr \<or> 0 < own f)"
| "may_do iter (Get_clone p i) h own \<longleftrightarrow> 0 < own p \<and> has_field h p i \<and>
     (field_at h p i \<noteq> nullptr \<longrightarrow> cnt h (field_at h p i) < 2 ^ 63)"
| "may_do iter (Get_move p i) h own \<longleftrightarrow> 0 < own p \<and> has_field h p i"
| "may_do iter Collect h own \<longleftrightarrow> iterates iter \<and> (\<forall>p. live_at h p \<longrightarrow> cnt h p < 2 ^ 63)"

definition gain :: "addr \<Rightarrow> (addr \<Rightarrow> nat) \<Rightarrow> addr \<Rightarrow> nat" where
  "gain x own = (if x = nullptr then own else own(x := own x + 1))"

definition lose :: "addr \<Rightarrow> (addr \<Rightarrow> nat) \<Rightarrow> addr \<Rightarrow> nat" where
  "lose x own = (if x = nullptr then own else own(x := own x - 1))"

fun holds_after :: "ref_op \<Rightarrow> heap \<Rightarrow> (addr \<Rightarrow> nat) \<Rightarrow> addr \<Rightarrow> nat" where
  "holds_after (Clone x) h own = gain x own"
| "holds_after (Drop x) h own = lose x own"
| "holds_after (Set_clone p i f) h own = own"
| "holds_after (Set_move p i f) h own = lose f own"
| "holds_after (Get_clone p i) h own = gain (field_at h p i) own"
| "holds_after (Get_move p i) h own = gain (field_at h p i) own"
| "holds_after Collect h own = own"

fun fields_after :: "ref_op \<Rightarrow> heap \<Rightarrow> addr \<Rightarrow> u64 list" where
  "fields_after (Set_clone p i f) h = (slots_at h)(p := (slots_at h p)[i := f])"
| "fields_after (Set_move p i f) h = (slots_at h)(p := (slots_at h p)[i := f])"
| "fields_after (Get_move p i) h = (slots_at h)(p := (slots_at h p)[i := nullptr])"
| "fields_after _ h = slots_at h"

lemma gc_ok_held: "gc_ok L T h own cc \<Longrightarrow> 0 < own x \<Longrightarrow> x \<in> L \<and> x \<noteq> nullptr"
  by (auto simp: gc_ok_def rc_ok_def)

interpretation ref: reference_op "exec_op iter op" "may_do iter op" "holds_after op" "fields_after op"
  for iter op
proof unfold_locales
  fix L T h own cc
  assume ok: "gc_ok L T h own cc" and one: "borrowed \<notin> L" and may: "may_do iter op h own"
  note held = gc_ok_held [OF ok]
  show "\<exists>cc' h' L' T'. exec_op iter op cc h = Some (cc', h') \<and> gc_ok L' T' h' (holds_after op h own) cc' \<and>
      retires_to (L \<union> T) h (L' \<union> T') h' \<and> leaves L h L' h' (fields_after op h)"
  proof (cases op)
    case (Clone x)
    then have x: "x \<in> L" "x \<noteq> nullptr" "cnt h x < 2 ^ 63" using may held by auto
    obtain cc' h' ob ob' where i: "increment_reference_count cc h x = Some (cc', h')" "gc_ok L T h' (own(x := own x + 1)) cc'"
      "h x = Some ob" "h' = h(x \<mapsto> ob')" "leaves L h L h' (slots_at h)" using increment_keeps [OF ok x(1,3)] by blast
    then have "retires_to (L \<union> T) h (L \<union> T) h'" "leaves L h L h' (slots_at h)"
      using retires_to_upd [of h x ob "L \<union> T" ob'] x(1) by simp_all
    with i(1,2) show ?thesis using Clone x(2) by (simp add: gain_def) blast
  next
    case (Drop x)
    then show ?thesis using may held [of x] decrement_keeps [OF ok, of x] by (fastforce simp: lose_def)
  next
    case (Set_clone p i f)
    then show ?thesis using may held [of p] held [of f] clone_store_keeps [OF ok _ _ one, of p i f] by simp
  next
    case (Set_move p i f)
    then have "p \<in> L" "has_field h p i" "f = nullptr \<or> 0 < own f" using may held [of p] by auto
    from store_keeps [OF ok this(1,2) one this(3)] show ?thesis unfolding Set_move lose_def exec_op.simps holds_after.simps fields_after.simps by fastforce
  next
    case (Get_clone p i)
    then have "p \<in> L" "has_field h p i" "field_at h p i \<noteq> nullptr \<Longrightarrow> cnt h (field_at h p i) < 2 ^ 63" using may held [of p] by auto
    from clone_out_keeps [OF ok this(1,2) one this(3)] show ?thesis
      unfolding Get_clone gain_def exec_op.simps holds_after.simps fields_after.simps by fastforce
  next
    case (Get_move p i)
    then have "p \<in> L" "has_field h p i" using may held [of p] by auto
    from move_out_keeps [OF ok this one] show ?thesis
      unfolding Get_move gain_def exec_op.simps holds_after.simps fields_after.simps by fastforce
  next
    case Collect
    then have "iterates iter" "\<forall>p\<in>L. cnt h p < 2 ^ 63" using may gc_ok_live [OF ok] by (auto simp: live_at_def obj_ok_def)
    from collect_keeps [OF ok this] show ?thesis unfolding Collect exec_op.simps holds_after.simps fields_after.simps by blast
  qed
qed

section \<open>Allocation\<close>

lemma allocate_keeps:
  assumes ok: "gc_ok L T h own cc" and g: "grows h g" and a: "allocates cyc ty fl g h' a" "a \<noteq> nullptr"
  shows "gc_ok (insert a L) T h' (own(a := own a + 1)) cc" "a \<notin> L \<union> T"
proof -
  have rc: "rc_ok L h own" and T: "waiting_ok T h" and ul: "unlocked UNIV h" and zs: "zeros L h = {}"
    and S: "distinct (suspected_object_list cc)" "set (suspected_object_list cc) = {p \<in> L \<union> T. watched_at h p}"
    using ok by (simp_all add: gc_ok_def)
  obtain ob where ob: "g a = Some ob" "state ob = dead" "h' = g(a \<mapsto> fresh_object cyc ty fl ob)"
    using a(1) by (auto simp: allocates_def)
  have gr: "g p = h p \<or> h p = None \<and> g p = Some zero_object" for p using g by (auto simp: grows_def)
  show aLT: "a \<notin> L \<union> T" using gc_ok_in_use [OF ok, of a] gr [of a] ob(1,2) by (auto simp: in_use_def)
  have same: "h' p = h p" if "p \<in> L \<union> T" for p
    using gr [of p] gc_ok_in_use [OF ok that] ob(3) that aLT by (auto simp: in_use_def)
  have ra: "refs h' a x = 0" if "x \<noteq> nullptr" for x
    using that ob(3) by (simp add: refs_def fresh_object_def count_list_0_iff)
  have rL: "refs h' q x = refs h q x" if "q \<in> L" for q x using same [of q] that by (simp add: refs_def)
  have fin: "finite L" "a \<notin> L" using rc aLT by auto
  have sum: "(\<Sum>q\<in>insert a L. refs h' q x) = (\<Sum>q\<in>L. refs h q x)" if "x \<noteq> nullptr" for x
    using fin ra [OF that] rL by simp
  have own0: "own a = 0" using rc_ok_ext [OF rc, of a] aLT by auto
  have noa: "(\<Sum>q\<in>L. refs h q a) = 0"
  proof -
    have "a \<notin> set (kept_at h q)" if "q \<in> L" for q using rc_ok_kept [OF rc that] aLT by blast
    then show ?thesis using a(2) by (simp add: refs_kept count_list_0_iff)
  qed
  have "\<exists>ob'. h' p = Some ob' \<and> obj_ok (insert a L) h' (own(a := own a + 1)) p ob'" if p: "p \<in> insert a L" for p
  proof (cases "p = a")
    case True
    then show ?thesis using ob(3) sum [OF a(2)] noa own0 by (simp add: obj_ok_def fresh_object_def)
  next
    case False
    then obtain oq where oq: "h p = Some oq" "obj_ok L h own p oq" using rc_okD [OF rc, of p] p by auto
    have "p \<noteq> nullptr" using p False rc by (auto simp: rc_ok_def)
    then show ?thesis using oq same [of p] p False sum by (auto simp: obj_ok_def)
  qed
  then have 1: "rc_ok (insert a L) h' (own(a := own a + 1))"
    using rc a(2) by (auto simp: rc_ok_def)
  have 2: "waiting_ok T h'" using T by (rule waiting_ok_frame) (use same in blast)
  have "zeros L h' = {}" using zs zeros_frame [of L h' h] same by simp
  then have 3: "zeros (insert a L) h' = {}" using ob(3) by (auto simp: zeros_def fresh_object_def)
  have "\<not> lock_flag o'" if "g p = Some o'" for p o'
    using gr [of p] that ul by (auto simp: unlocked_def zero_object_def)
  then have 4: "unlocked UNIV h'" using ob(1,3) by (auto simp: unlocked_def fresh_object_def)
  have "watched_at h' p = watched_at h p" if "p \<in> L \<union> T" for p using same [OF that] by (simp add: watched_at_def)
  moreover have "\<not> watched_at h' a" using ob(3) by (simp add: watched_at_def watched_def fresh_object_def)
  ultimately have "{p \<in> insert a L \<union> T. watched_at h' p} = {p \<in> L \<union> T. watched_at h p}" by auto
  then show "gc_ok (insert a L) T h' (own(a := own a + 1)) cc" using 1 2 3 4 S by (simp add: gc_ok_def)
qed

section \<open>The machine\<close>

record machine =
  collector :: CycleCollector
  allocator :: HeapAllocator
  search_start :: nat
  mem :: memory

definition machine_ok :: "machine \<times> (addr \<Rightarrow> nat) \<Rightarrow> bool" where
  "machine_ok = (\<lambda>(s, own). consistent own (collector s) (heap (mem s)) \<and> mem_ok (mem s) \<and>
     allocator_ok (allocator s) (mem s) \<and> search_start s < number_of_chunks (allocator s))"

inductive machine_step :: "(type_ptr \<Rightarrow> bool) \<Rightarrow> (addr list \<Rightarrow> addr list) \<Rightarrow> machine \<times> (addr \<Rightarrow> nat) \<Rightarrow>
    machine \<times> (addr \<Rightarrow> nat) \<Rightarrow> bool" for cyc iter where
  New: "HeapAllocator_malloc cyc ty fl (allocator s) (search_start s) (mem s) = Some (al', m', a, start') \<Longrightarrow>
     unat fl \<le> 59 \<Longrightarrow> room (allocator s) (mem s) \<Longrightarrow>
     machine_step cyc iter (s, own) (s\<lparr>allocator := al', search_start := start', mem := m'\<rparr>, gain a own)"
| Op: "may_do iter op (heap (mem s)) own \<Longrightarrow>
     exec_op iter op (collector s) (heap (mem s)) = Some (cc', h') \<Longrightarrow>
     machine_step cyc iter (s, own) (s\<lparr>collector := cc', mem := (mem s)\<lparr>heap := h'\<rparr>\<rparr>, holds_after op (heap (mem s)) own)"

inductive_cases machine_stepE: "machine_step cyc iter (s, own) x"

lemma consistent_alloc:
  assumes c: "consistent own cc (heap m)" and r: "malloc_result cyc ty fl m m' a"
  shows "consistent (gain a own) cc (heap m')"
proof -
  obtain L T where ok: "gc_ok L T (heap m) own cc" and u: "\<forall>p. in_use (heap m) p \<longleftrightarrow> p \<in> L \<union> T"
    using c by (auto simp: consistent_def)
  obtain g where g: "grows (heap m) g" "allocates cyc ty fl g (heap m') a" "a \<noteq> nullptr"
    using r by (auto simp: malloc_result_def)
  note k = allocate_keeps [OF ok g]
  have "in_use (heap m') p \<longleftrightarrow> p \<in> insert a L \<union> T" for p
    using u [rule_format, of p] malloc_result_heap(1) [OF r] malloc_result_heap(2) [OF r, of p]
    by (cases "p = a") (auto simp: in_use_def fresh_object_def zero_object_def)
  then show ?thesis using k(1) g(3) by (auto simp: consistent_def gain_def)
qed

text \<open>Changing objects in place leaves the memory well formed.\<close>

lemma mem_frame_heap:
  assumes "mem_ok m" "dom h' = dom (heap m)"
  shows "mem_frame m (m\<lparr>heap := h'\<rparr>)"
proof -
  have "rel_option same_chunk (chunk_at m d) (chunk_at m d)" for d
    using mem_ok_chunk [OF assms(1)] same_chunk_refl by (cases "chunk_at m d") auto
  then show ?thesis using assms(2) by (simp add: mem_frame_def)
qed

lemma mem_ok_heap: "mem_ok m \<Longrightarrow> dom h' = dom (heap m) \<Longrightarrow> mem_ok (m\<lparr>heap := h'\<rparr>)"
  using mem_frame_ok [OF mem_frame_heap] by blast

lemma machine_step_ok:
  assumes "machine_step cyc iter x y" "machine_ok x"
  shows "machine_ok y"
  using assms
proof cases
  case (New ty fl s al' m' a start' own)
  then have "consistent own (collector s) (heap (mem s))" "mem_ok m'" "allocator_ok al' m'" "start' < number_of_chunks al'"
    "malloc_result cyc ty fl (mem s) m' a"
    using assms(2) HeapAllocator_malloc_total [of "mem s" "allocator s" "search_start s" fl cyc ty] by (auto simp: machine_ok_def)
  then show ?thesis using New(2) consistent_alloc by (simp add: machine_ok_def)
next
  case (Op op s own cc' h')
  have m: "consistent own (collector s) (heap (mem s))" "mem_ok (mem s)" "allocator_ok (allocator s) (mem s)"
    "search_start s < number_of_chunks (allocator s)" using Op(1) assms(2) by (simp_all add: machine_ok_def)
  from ref.run_consistent [OF m(1) mem_ok_one [OF m(2)] Op(3)] Op(4)
  have c: "consistent (holds_after op (heap (mem s)) own) cc' h'" "dom h' = dom (heap (mem s))" by auto
  note fr = mem_frame_heap [OF m(2) c(2)]
  show ?thesis
    using c(1) mem_frame_ok [OF fr m(2)] allocator_ok_frame [OF m(3) fr] m(4) Op(2) by (simp add: machine_ok_def)
qed

definition CatVM_new :: "addr \<Rightarrow> machine" where
  "CatVM_new start = (case HeapAllocator_new True 1024 1 (initial_memory start) of (al, m) \<Rightarrow>
     \<lparr>collector = CycleCollector_new, allocator = al, search_start = 0, mem = m\<rparr>)"

lemma CatVM_new_ok:
  assumes "1 < unat start" "unat start < 2 ^ 63"
  shows "machine_ok (CatVM_new start, \<lambda>_. 0)"
proof -
  obtain al m where new: "HeapAllocator_new True 1024 1 (initial_memory start) = (al, m)" by fastforce
  have sz: "unat (brk (initial_memory start)) + 1 * (chunk_stride 1024 + chunk_bytes 1024) < 2 ^ 64"
    using assms(2) by (simp add: initial_memory_def chunk_stride_def chunk_bytes_def sizeof_HeapChunk_def BLOCKS_SIZE_def
        sizeof_BlockInfo_def NUMBER_OF_BLOCKS_def)
  note n = HeapAllocator_new_ok [OF initial_memory_ok [OF assms(1)] _ _ sz new, simplified]
  have dead: "\<not> in_use (heap m) p" for p
    using n(3) by (auto simp: grows_def initial_memory_def in_use_def zero_object_def dest: spec [of _ p])
  have "unlocked UNIV (heap m)"
    using n(3) by (auto simp: grows_def initial_memory_def unlocked_def zero_object_def) (metis option.distinct(1) option.inject HeapObject.select_convs(6))
  then have "gc_ok {} {} (heap m) (\<lambda>_. 0) CycleCollector_new"
    by (simp add: gc_ok_def rc_ok_def zeros_def waiting_ok_def CycleCollector_new_def)
  then have "consistent (\<lambda>_. 0) CycleCollector_new (heap m)"
    unfolding consistent_def using dead by (intro exI [of _ "{}"]) auto
  then show ?thesis using n(1,2,4) new by (simp add: machine_ok_def CatVM_new_def)
qed

lemma CatVM_new_nothing_live:
  assumes "1 < unat start" "unat start < 2 ^ 63"
  shows "\<not> live_at (heap (mem (CatVM_new start))) p"
proof -
  obtain al m where new: "HeapAllocator_new True 1024 1 (initial_memory start) = (al, m)" by fastforce
  have sz: "unat (brk (initial_memory start)) + 1 * (chunk_stride 1024 + chunk_bytes 1024) < 2 ^ 64"
    using assms(2) by (simp add: initial_memory_def chunk_stride_def chunk_bytes_def sizeof_HeapChunk_def BLOCKS_SIZE_def
        sizeof_BlockInfo_def NUMBER_OF_BLOCKS_def)
  note n = HeapAllocator_new_ok [OF initial_memory_ok [OF assms(1)] _ _ sz new, simplified]
  have "heap m p = None \<or> heap m p = Some zero_object" using n(3) by (auto simp: grows_def initial_memory_def)
  then show ?thesis using new by (auto simp: CatVM_new_def live_at_def zero_object_def)
qed

interpretation vm: invariant_system "\<lambda>x. \<exists>start. x = (CatVM_new start, \<lambda>_. 0) \<and> 1 < unat start \<and> unat start < 2 ^ 63"
    "machine_step cyc iter" machine_ok
  for cyc iter
  by unfold_locales (auto intro: CatVM_new_ok machine_step_ok)

lemma machine_reachable_ok:
  assumes "1 < unat start" "unat start < 2 ^ 63" "(machine_step cyc iter)\<^sup>*\<^sup>* (CatVM_new start, \<lambda>_. 0) y"
  shows "machine_ok y"
  by (rule vm.reachable_inv [OF assms(3)]) (use assms(1,2) in blast)

lemma consistent_live:
  assumes "consistent own cc h"
  obtains L T where "gc_ok L T h own cc" "L = {p. live_at h p}"
proof -
  obtain L T where ok: "gc_ok L T h own cc" and u: "\<forall>p. in_use h p \<longleftrightarrow> p \<in> L \<union> T"
    using assms by (auto simp: consistent_def)
  have "live_at h p \<longleftrightarrow> p \<in> L" for p using live_iff [OF ok u] .
  then show thesis using that [OF ok] by auto
qed

text \<open>An accessor that finds the object locked or the field borrowed waits.\<close>

definition blocked :: "heap \<Rightarrow> addr \<Rightarrow> nat \<Rightarrow> bool" where
  "blocked h p i \<longleftrightarrow> (\<exists>ob. h p = Some ob \<and> (lock_flag ob \<or> (i < length (slots ob) \<and> slots ob ! i = borrowed)))"

lemma blocked_round:
  assumes "blocked h p i" "object_lock h p = Some h1"
  shows "get_object_field h1 p i = Some borrowed" "object_unlock h1 p = Some h2 \<Longrightarrow> blocked h2 p i"
  using object_lock_Some [OF assms(2)] assms(1)
  by (auto simp: blocked_def get_object_field_def at_def object_unlock_def upd_obj_def)

lemma exchange_blocked: "exchange_field h p i f = Some r \<Longrightarrow> \<not> blocked h p i"
proof (erule exchange_field.raw_induct [rotated])
  fix rec :: "heap \<Rightarrow> addr \<Rightarrow> nat \<Rightarrow> addr \<Rightarrow> (addr \<times> heap) option" and h p i f r
  assume IH: "\<And>h p i f r. rec h p i f = Some r \<Longrightarrow> \<not> blocked h p i"
    and eq: "(object_lock h p \<bind> (\<lambda>h. get_object_field h p i \<bind> (\<lambda>old. if old \<noteq> borrowed
      then set_object_field h p i f \<bind> (\<lambda>h. object_unlock h p \<bind> (\<lambda>h. Some (old, h)))
      else object_unlock h p \<bind> (\<lambda>h. rec h p i f)))) = Some r"
  show "\<not> blocked h p i"
  proof
    assume b: "blocked h p i"
    obtain h1 where h1: "object_lock h p = Some h1" using eq by (auto simp: bind_Some_iff)
    then obtain h2 where "object_unlock h1 p = Some h2" "rec h2 p i f = Some r"
      using eq blocked_round(1) [OF b h1] by (auto simp: bind_Some_iff)
    then show False using IH blocked_round(2) [OF b h1] by blast
  qed
qed

lemma get_clone_blocked: "get_clone_object_field cc h p i = Some r \<Longrightarrow> \<not> blocked h p i"
proof (erule get_clone_object_field.raw_induct [rotated])
  fix rec :: "CycleCollector \<Rightarrow> heap \<Rightarrow> addr \<Rightarrow> nat \<Rightarrow> (addr \<times> CycleCollector \<times> heap) option" and cc h p i r
  assume IH: "\<And>cc h p i r. rec cc h p i = Some r \<Longrightarrow> \<not> blocked h p i"
    and eq: "(object_lock h p \<bind> (\<lambda>h. get_object_field h p i \<bind> (\<lambda>f. if f \<noteq> borrowed
      then (if f \<noteq> nullptr then increment_reference_count cc h f else Some (cc, h)) \<bind>
        (\<lambda>(cc, h). object_unlock h p \<bind> (\<lambda>h. Some (f, cc, h)))
      else object_unlock h p \<bind> (\<lambda>h. rec cc h p i)))) = Some r"
  show "\<not> blocked h p i"
  proof
    assume b: "blocked h p i"
    obtain h1 where h1: "object_lock h p = Some h1" using eq by (auto simp: bind_Some_iff)
    then obtain h2 where "object_unlock h1 p = Some h2" "rec cc h2 p i = Some r"
      using eq blocked_round(1) [OF b h1] by (auto simp: bind_Some_iff)
    then show False using IH blocked_round(2) [OF b h1] by blast
  qed
qed

lemma get_atomic_blocked: "get_object_field_atomic h p i = Some r \<Longrightarrow> \<not> blocked h p i"
proof (erule get_object_field_atomic.raw_induct [rotated])
  fix rec :: "heap \<Rightarrow> addr \<Rightarrow> nat \<Rightarrow> (addr \<times> heap) option" and h p i r
  assume IH: "\<And>h p i r. rec h p i = Some r \<Longrightarrow> \<not> blocked h p i"
    and eq: "(object_lock h p \<bind> (\<lambda>h. get_object_field h p i \<bind> (\<lambda>f. object_unlock h p \<bind> (\<lambda>h.
      if f \<noteq> borrowed then Some (f, h) else rec h p i)))) = Some r"
  show "\<not> blocked h p i"
  proof
    assume b: "blocked h p i"
    obtain h1 where h1: "object_lock h p = Some h1" using eq by (auto simp: bind_Some_iff)
    then obtain h2 where "object_unlock h1 p = Some h2" "rec h2 p i = Some r"
      using eq blocked_round(1) [OF b h1] by (auto simp: bind_Some_iff)
    then show False using IH blocked_round(2) [OF b h1] by blast
  qed
qed

lemma set_clone_blocked: "set_clone_object_field cc h p i f = Some r \<Longrightarrow> \<not> blocked h p i"
proof
  assume r: "set_clone_object_field cc h p i f = Some r" and b: "blocked h p i"
  obtain cc1 h1 old h2 where i: "increment_reference_count cc h f = Some (cc1, h1)" and x: "exchange_field h1 p i f = Some (old, h2)"
    using r by (auto simp: set_clone_object_field_def bind_Some_iff)
  have "blocked h1 p i"
    using i b by (auto simp: blocked_def increment_reference_count_def fetch_add_def bind_Some_iff split: if_splits)
  then show False using exchange_blocked [OF x] by blast
qed

lemma get_atomic_run:
  "h p = Some ob \<Longrightarrow> \<not> lock_flag ob \<Longrightarrow> i < length (slots ob) \<Longrightarrow> slots ob ! i \<noteq> borrowed \<Longrightarrow>
     get_object_field_atomic h p i = Some (slots ob ! i, h)"
  by (cases ob) (simp add: get_object_field_atomic.simps heap_simps object_unlock_def get_object_field_def at_def fun_upd_idem)

lemma store_without_check:
  assumes "h p = Some ob" "i < length (slots ob)"
  shows "set_object_field_atomic h p i f = (if lock_flag ob then None else Some (h(p \<mapsto> ob\<lparr>slots := (slots ob)[i := f]\<rparr>)))"
    and "set_move_object_field_uncheck h p i f = (if lock_flag ob then None else Some (h(p \<mapsto> ob\<lparr>slots := (slots ob)[i := f]\<rparr>)))"
  using assms
  by (cases ob; simp add: set_object_field_atomic_def set_move_object_field_uncheck_def heap_simps object_unlock_def
      object_lock_held get_object_field_def at_def)+

section \<open>Properties\<close>

text \<open>
  C1. Memory safety of the whole machine. From a fresh machine, a program may allocate objects,
  clone and drop references it holds, read and write fields of objects it holds, and run the
  collector, in any order. In every state it can reach, every object it holds a reference to is
  live; the fields of live objects lead to live objects; and the count of a live object is the
  number of references the program holds to it plus the number of fields of live objects that
  hold it, and is not zero. So no object is ever used after it died, and none is lost.
\<close>

theorem reachable_heap_safe:
  assumes "1 < unat start" "unat start < 2 ^ 63"
    "(machine_step cyc iter)\<^sup>*\<^sup>* (CatVM_new start, \<lambda>_. 0) (s, own)"
  shows "(\<forall>x. 0 < own x \<longrightarrow> live_at (heap (mem s)) x) \<and>
     (\<forall>p ob. heap (mem s) p = Some ob \<and> state ob = live \<longrightarrow>
        (\<forall>f \<in> set (slots ob). f \<noteq> nullptr \<longrightarrow> live_at (heap (mem s)) f) \<and> count ob \<noteq> 0 \<and>
        unat (count ob) = own p + (\<Sum>q | live_at (heap (mem s)) q. refs (heap (mem s)) q p))"
proof -
  have "machine_ok (s, own)" using machine_reachable_ok [OF assms] .
  then obtain L T where ok: "gc_ok L T (heap (mem s)) own (collector s)" and L: "L = {p. live_at (heap (mem s)) p}"
    by (auto simp: machine_ok_def elim: consistent_live)
  have "0 < own x \<longrightarrow> live_at (heap (mem s)) x" for x using gc_ok_held [OF ok] L by auto
  moreover have "(\<forall>f \<in> set (slots ob). f \<noteq> nullptr \<longrightarrow> live_at (heap (mem s)) f) \<and> count ob \<noteq> 0 \<and>
        unat (count ob) = own p + (\<Sum>q | live_at (heap (mem s)) q. refs (heap (mem s)) q p)"
    if p: "heap (mem s) p = Some ob" "state ob = live" for p ob
  proof -
    have pL: "p \<in> L" using p L by (auto simp: live_at_def)
    then have "obj_ok L (heap (mem s)) own p ob" using gc_ok_live [OF ok pL] p(1) by auto
    moreover have "count ob \<noteq> 0" using ok pL p(1) by (auto simp: gc_ok_def zeros_def)
    ultimately show ?thesis using L by (auto simp: obj_ok_def)
  qed
  ultimately show ?thesis by blast
qed

text \<open>
  C25. Reading back what was stored: in a consistent heap, moving a reference the program holds
  into a field of another object it holds, and then moving it out again, gives the reference that
  was stored, whatever was released with the old contents of the field.
\<close>

theorem field_store_load:
  assumes "consistent own cc h" "h borrowed = None" "0 < own p" "has_field h p i" "0 < own f" "f \<noteq> p"
  shows "\<exists>h1 h2. set_move_object_field h p i f = Some h1 \<and> get_move_object_field h1 p i = Some (f, h2)"
proof -
  obtain L T where ok: "gc_ok L T h own cc" using assms(1) by (auto simp: consistent_def)
  have no_one: "borrowed \<notin> L" if "gc_ok L T h own cc" "h borrowed = None" for L T h own
    using gc_ok_in_use [OF that(1), of borrowed] that(2) by (auto simp: in_use_def)
  have pL: "p \<in> L" "f \<noteq> nullptr" using gc_ok_held [OF ok] assms(3,5) by auto
  have "f = nullptr \<or> 0 < own f" using assms(5) by simp
  from store_keeps [OF ok pL(1) assms(4) no_one [OF ok assms(2)] this] obtain h1 L' T' where
    s: "set_move_object_field h p i f = Some h1" "gc_ok L' T' h1 (own(f := own f - 1)) cc"
      "retires_to (L \<union> T) h (L' \<union> T') h1" "p \<in> L' \<longrightarrow> has_field h1 p i \<and> field_at h1 p i = f"
    using pL(2) by auto
  have p': "p \<in> L'" using gc_ok_held [OF s(2), of p] assms(3,6) by simp
  have "dom h1 = dom h" using s(3) by (simp add: retires_to_def)
  then have "h1 borrowed = None" using assms(2) by (metis domIff)
  from move_out_keeps [OF s(2) p' _ no_one [OF s(2) this]] s(4) p' show ?thesis using s(1) by metis
qed

text \<open>
  C26. A field in use by another thread. For a field of an object: the two readers
  \<^verbatim>\<open>get_object_field_atomic\<close> and \<^verbatim>\<open>get_move_object_field\<close> fail to return exactly if the object is
  locked or the field holds the marker 1; \<^verbatim>\<open>set_move_object_field\<close>, \<^verbatim>\<open>set_clone_object_field\<close> and
  \<^verbatim>\<open>get_clone_object_field\<close> do not return either in that case. \<^verbatim>\<open>set_object_field_atomic\<close> and
  \<^verbatim>\<open>set_move_object_field_uncheck\<close> wait for the lock only: once it is free they overwrite the field,
  and with it the marker.
\<close>

theorem blocked_accessors_wait:
  assumes "h p = Some ob" "i < length (slots ob)"
  shows "(get_object_field_atomic h p i = None \<longleftrightarrow> lock_flag ob \<or> slots ob ! i = borrowed) \<and>
    (get_move_object_field h p i = None \<longleftrightarrow> lock_flag ob \<or> slots ob ! i = borrowed) \<and>
    (lock_flag ob \<or> slots ob ! i = borrowed \<longrightarrow> set_move_object_field h p i f = None \<and>
       set_clone_object_field cc h p i f = None \<and> get_clone_object_field cc h p i = None) \<and>
    set_object_field_atomic h p i f = (if lock_flag ob then None else Some (h(p \<mapsto> ob\<lparr>slots := (slots ob)[i := f]\<rparr>))) \<and>
    set_move_object_field_uncheck h p i f = (if lock_flag ob then None else Some (h(p \<mapsto> ob\<lparr>slots := (slots ob)[i := f]\<rparr>)))"
proof -
  have b: "blocked h p i \<longleftrightarrow> lock_flag ob \<or> slots ob ! i = borrowed" using assms by (simp add: blocked_def)
  have "exchange_field h p i g = None" "get_clone_object_field cc h p i = None" "get_object_field_atomic h p i = None"
    "set_clone_object_field cc h p i g = None" if "blocked h p i" for g
    using that exchange_blocked get_clone_blocked get_atomic_blocked set_clone_blocked by (meson not_None_eq)+
  then show ?thesis
    using b store_without_check [of h p ob i] get_atomic_run [of h p ob i] exchange_field_run [of h p ob i nullptr] assms
    by (auto simp: set_move_object_field_def get_move_object_field_def)
qed

text \<open>
  The unchecked store agrees with the checked one on an empty field of an unlocked object,
  which is how a fresh object is filled.
\<close>

lemma uncheck_agrees_on_empty_field:
  assumes "h p = Some ob" "\<not> lock_flag ob" "i < length (slots ob)" "slots ob ! i = nullptr"
  shows "set_move_object_field_uncheck h p i f = set_move_object_field h p i f"
  using assms exchange_field_run [of h p ob i f]
  by (cases ob) (simp add: set_move_object_field_uncheck_def set_move_object_field_def heap_simps object_unlock_def)

section \<open>Witnesses\<close>

lemma fresh_machine: "machine_ok (CatVM_new 4096, \<lambda>_. 0)" "room (allocator (CatVM_new 4096)) (mem (CatVM_new 4096))"
proof -
  show "machine_ok (CatVM_new 4096, \<lambda>_. 0)" by (rule CatVM_new_ok) simp_all
  obtain al m where new: "HeapAllocator_new True 1024 1 (initial_memory 4096) = (al, m)" by fastforce
  have sz: "chunk_stride 1024 = 1900872" "chunk_bytes 1024 = 1900856"
    by (simp_all add: chunk_stride_def chunk_bytes_def sizeof_HeapChunk_def BLOCKS_SIZE_def sizeof_BlockInfo_def NUMBER_OF_BLOCKS_def)
  have b: "unat (brk (initial_memory 4096)) = 4096" by (simp add: initial_memory_def)
  have bound: "unat (brk (initial_memory 4096)) + 1 * (chunk_stride 1024 + chunk_bytes 1024) < 2 ^ 64" unfolding sz b by simp
  have "mem_ok (initial_memory 4096)" by (rule initial_memory_ok) simp
  note n = HeapAllocator_new_ok [OF this _ _ bound new, simplified]
  show "room (allocator (CatVM_new 4096)) (mem (CatVM_new 4096))"
    using n(5,6) new b by (simp add: CatVM_new_def room_def sz sizeof_HeapChunk_def)
qed

lemma one_allocation:
  obtains s a where "(machine_step (\<lambda>_. True) rev)\<^sup>*\<^sup>* (CatVM_new 4096, \<lambda>_. 0) (s, gain a (\<lambda>_. 0))" "a \<noteq> nullptr"
    "live_at (heap (mem s)) a"
proof -
  let ?s = "CatVM_new 4096"
  obtain al' m' a start' where r: "HeapAllocator_malloc (\<lambda>_. True) (PrimT type_void) 3 (allocator ?s) (search_start ?s) (mem ?s) = Some (al', m', a, start')"
    "malloc_result (\<lambda>_. True) (PrimT type_void) 3 (mem ?s) m' a"
    using HeapAllocator_malloc_total [of "mem ?s" "allocator ?s" "search_start ?s" 3 "\<lambda>_. True" "PrimT type_void"] fresh_machine
    by (auto simp: machine_ok_def)
  let ?t = "?s\<lparr>allocator := al', search_start := start', mem := m'\<rparr>"
  have "machine_step (\<lambda>_. True) rev (?s, \<lambda>_. 0) (?t, gain a (\<lambda>_. 0))"
    using fresh_machine(2) by (intro machine_step.New [OF r(1)]) simp_all
  then have "(machine_step (\<lambda>_. True) rev)\<^sup>*\<^sup>* (?s, \<lambda>_. 0) (?t, gain a (\<lambda>_. 0))" by simp
  moreover have "live_at (heap (mem ?t)) a"
    using malloc_result_heap(1) [OF r(2)] by (auto simp: live_at_def fresh_object_def)
  ultimately show thesis using that [of ?t a] r(2) by (simp add: malloc_result_def)
qed

theorem reachable_heap_safe_witness:
  "\<exists>s own x. (machine_step (\<lambda>_. True) rev)\<^sup>*\<^sup>* (CatVM_new 4096, \<lambda>_. 0) (s, own) \<and> 0 < own x \<and> live_at (heap (mem s)) x"
proof -
  obtain s a where s: "(machine_step (\<lambda>_. True) rev)\<^sup>*\<^sup>* (CatVM_new 4096, \<lambda>_. 0) (s, gain a (\<lambda>_. 0))" "a \<noteq> nullptr"
    by (rule one_allocation)
  have "0 < gain a (\<lambda>_. 0) a" using s(2) by (simp add: gain_def)
  moreover have "live_at (heap (mem s)) a"
    using reachable_heap_safe [of 4096 "\<lambda>_. True" rev s "gain a (\<lambda>_. 0)"] s(1) calculation by auto
  ultimately show ?thesis using s(1) by blast
qed

definition pair_heap :: heap where
  "pair_heap = [16 \<mapsto> zero_object\<lparr>count := 1, state := live, field_length := 1, slots := [0]\<rparr>,
     32 \<mapsto> zero_object\<lparr>count := 1, state := live\<rparr>]"

theorem field_store_load_witness:
  "\<exists>h1 h2. set_move_object_field pair_heap 16 0 32 = Some h1 \<and> get_move_object_field h1 16 0 = Some (32, h2)"
proof -
  let ?own = "(\<lambda>x. 0)(16 := 1, 32 := 1)"
  have "gc_ok {16, 32} {} pair_heap ?own CycleCollector_new"
    by (auto simp: gc_ok_def rc_ok_def obj_ok_def pair_heap_def zero_object_def refs_def zeros_def waiting_ok_def
        unlocked_def CycleCollector_new_def watched_at_def watched_def)
  moreover have "\<forall>p. in_use pair_heap p \<longleftrightarrow> p \<in> {16, 32} \<union> {}"
    by (auto simp: in_use_def pair_heap_def zero_object_def)
  ultimately have c: "consistent ?own CycleCollector_new pair_heap" unfolding consistent_def by blast
  show ?thesis
    by (rule field_store_load [OF c]) (simp_all add: pair_heap_def has_field_def)
qed

theorem blocked_accessors_wait_witness:
  "set_move_object_field [16 \<mapsto> zero_object\<lparr>slots := [1]\<rparr>] 16 0 32 = None \<and>
   get_move_object_field [16 \<mapsto> zero_object\<lparr>slots := [1]\<rparr>] 16 0 = None \<and>
   set_object_field_atomic [16 \<mapsto> zero_object\<lparr>slots := [1]\<rparr>] 16 0 32 = Some [16 \<mapsto> zero_object\<lparr>slots := [32]\<rparr>]"
  using blocked_accessors_wait [of "[16 \<mapsto> zero_object\<lparr>slots := [1]\<rparr>]" 16 "zero_object\<lparr>slots := [1]\<rparr>" 0 32]
  by (simp add: zero_object_def)

end
