(* ===== verification/Count_Bounds.thy ===== *)
theory Count_Bounds
  imports Mutator
begin

text \<open>
  Reference counts do not overflow. The fields of the live objects lie in different cells, so
  together they take no more than the memory handed out, and an object cannot be referred to
  more often than there are fields. This is what discharges the bounds on the counts that the
  single operations ask for.
\<close>

section \<open>Live objects lie in cells that hold their fields\<close>

definition placed_at :: "memory \<Rightarrow> addr \<Rightarrow> bool" where
  "placed_at m p \<longleftrightarrow> (\<exists>c ch j k. chunk_at m c = Some ch \<and> j < NUMBER_OF_BLOCKS \<and> k < cells_size ch \<and> p = cell ch j k \<and>
     sizeof_HeapObject + 8 * length (slots_at (heap m) p) \<le> BLOCK_SIZES ! j)"

definition placed :: "memory \<Rightarrow> bool" where
  "placed m \<longleftrightarrow> (\<forall>p. live_at (heap m) p \<longrightarrow> placed_at m p)"

lemma placed_at_kept:
  assumes "placed_at m p" "chunks_kept cells m m'" "length (slots_at (heap m') p) = length (slots_at (heap m) p)"
  shows "placed_at m' p"
proof -
  obtain c ch j k where c: "chunk_at m c = Some ch" "j < NUMBER_OF_BLOCKS" "k < cells_size ch" "p = cell ch j k"
    "sizeof_HeapObject + 8 * length (slots_at (heap m) p) \<le> BLOCK_SIZES ! j"
    using assms(1) by (auto simp: placed_at_def)
  obtain ch' where "chunk_at m' c = Some ch'" "chunk_base ch' = chunk_base ch" "cells_size ch' = cells_size ch"
    using chunks_kept_chunk [OF assms(2) c(1)] by metis
  moreover from this have "cell ch' j k = cell ch j k" by (simp add: cell_def)
  ultimately show ?thesis using c assms(3) unfolding placed_at_def by metis
qed

text \<open>The bytes an object takes: its header and its fields.\<close>

definition object_bytes :: "heap \<Rightarrow> addr \<Rightarrow> nat set" where
  "object_bytes h p = {unat p ..< unat p + (sizeof_HeapObject + 8 * length (slots_at h p))}"

lemma object_bytes_apart:
  assumes ok: "mem_ok m" and p: "placed_at m p" and q: "placed_at m q" and "p \<noteq> q"
  shows "object_bytes (heap m) p \<inter> object_bytes (heap m) q = {}"
proof -
  obtain c ch j k where 1: "chunk_at m c = Some ch" "j < NUMBER_OF_BLOCKS" "k < cells_size ch" "p = cell ch j k"
    "sizeof_HeapObject + 8 * length (slots_at (heap m) p) \<le> BLOCK_SIZES ! j" using p by (auto simp: placed_at_def)
  obtain c' ch' j' k' where 2: "chunk_at m c' = Some ch'" "j' < NUMBER_OF_BLOCKS" "k' < cells_size ch'" "q = cell ch' j' k'"
    "sizeof_HeapObject + 8 * length (slots_at (heap m) q) \<le> BLOCK_SIZES ! j'" using q by (auto simp: placed_at_def)
  from cells_apart [OF ok 1(1-4) 2(1-4) assms(4)] show ?thesis
    using 1(5) 2(5) by (auto simp: object_bytes_def disjoint_ranges_def)
qed

lemma object_bytes_below:
  assumes ok: "mem_ok m" and p: "placed_at m p"
  shows "object_bytes (heap m) p \<subseteq> {..<unat (brk m)}"
proof -
  obtain c ch j k where 1: "chunk_at m c = Some ch" "j < NUMBER_OF_BLOCKS" "k < cells_size ch" "p = cell ch j k"
    "sizeof_HeapObject + 8 * length (slots_at (heap m) p) \<le> BLOCK_SIZES ! j" using p by (auto simp: placed_at_def)
  note ch = mem_ok_chunk [OF ok 1(1)]
  then have "unat p + BLOCK_SIZES ! j \<le> chunk_end ch" using cell_range(2) [of ch j k] 1 by (simp add: NUMBER_OF_BLOCKS_def)
  then show ?thesis using 1(5) ch by (auto simp: object_bytes_def)
qed

text \<open>Everything lies at or above the address the machine started with.\<close>

definition above :: "nat \<Rightarrow> memory \<Rightarrow> bool" where
  "above start m \<longleftrightarrow> start \<le> unat (brk m) \<and> (\<forall>a \<in> dom (heap m). start \<le> unat a)"

lemma above_0: "above 0 m"
  by (simp add: above_def)

lemma above_kept: "above start m \<Longrightarrow> chunks_kept cells m m' \<Longrightarrow> above start m'"
  unfolding above_def chunks_kept_def by (meson le_trans)

lemma object_bytes_above: "above start m \<Longrightarrow> live_at (heap m) p \<Longrightarrow> object_bytes (heap m) p \<subseteq> {start..}"
proof -
  assume a: "above start m" and "live_at (heap m) p"
  then have "p \<in> dom (heap m)" by (auto simp: live_at_def)
  then have "start \<le> unat p" using a by (simp add: above_def)
  then show ?thesis by (auto simp: object_bytes_def)
qed

lemma live_bytes:
  assumes ok: "mem_ok m" "above start m" and L: "finite L" "\<forall>p\<in>L. placed_at m p \<and> live_at (heap m) p"
  shows "(\<Sum>p\<in>L. sizeof_HeapObject + 8 * length (slots_at (heap m) p)) \<le> unat (brk m) - start"
proof -
  have "(\<Sum>p\<in>L. card (object_bytes (heap m) p)) = card (\<Union>p\<in>L. object_bytes (heap m) p)"
    using L object_bytes_apart [OF ok(1)] by (intro card_UN_disjoint [symmetric]) (auto simp: object_bytes_def)
  also have "\<dots> \<le> card {start..<unat (brk m)}"
  proof (intro card_mono subsetI)
    fix x assume "x \<in> (\<Union>p\<in>L. object_bytes (heap m) p)"
    then obtain p where "p \<in> L" "x \<in> object_bytes (heap m) p" by blast
    then show "x \<in> {start..<unat (brk m)}"
      using L(2) object_bytes_below [OF ok(1)] object_bytes_above [OF ok(2)] by fastforce
  qed simp
  finally show ?thesis by (simp add: object_bytes_def)
qed

lemma count_list_length: "count_list xs x \<le> length xs"
  by (induction xs) auto

lemma refs_length: "refs h p x \<le> length (slots_at h p)"
  by (simp add: refs_def slots_at_def count_list_length split: option.split)

lemma count_bounded:
  assumes c: "consistent own cc (heap m)" and ok: "mem_ok m" "placed m" "above start m" and p: "live_at (heap m) p"
  shows "8 * cnt (heap m) p + sizeof_HeapObject + start \<le> 8 * own p + unat (brk m)"
proof -
  obtain L T where g: "gc_ok L T (heap m) own cc" and L: "L = {p. live_at (heap m) p}" using c by (rule consistent_live)
  have rc: "rc_ok L (heap m) own" using g by (simp add: gc_ok_def)
  have fin: "finite L" "p \<in> L" using rc p L by (auto simp: rc_ok_def)
  have "cnt (heap m) p = own p + (\<Sum>q\<in>L. refs (heap m) q p)" using rc_ok_cnt [OF rc fin(2)] .
  moreover have "(\<Sum>q\<in>L. refs (heap m) q p) \<le> (\<Sum>q\<in>L. length (slots_at (heap m) q))"
    by (intro sum_mono refs_length)
  moreover have "(\<Sum>q\<in>L. sizeof_HeapObject) + 8 * (\<Sum>q\<in>L. length (slots_at (heap m) q)) \<le> unat (brk m) - start"
    using live_bytes [OF ok(1,3) fin(1)] ok(2) L by (simp add: placed_def sum.distrib sum_distrib_left)
  moreover have "sizeof_HeapObject \<le> (\<Sum>q\<in>L. sizeof_HeapObject)"
    using sum_mono2 [of L "{p}" "\<lambda>_. sizeof_HeapObject"] fin by simp
  moreover have "start \<le> unat (brk m)" using ok(3) by (simp add: above_def)
  ultimately show ?thesis by linarith
qed

section \<open>Every step keeps the objects in their cells\<close>

lemma fields_after_length: "length (fields_after op h p) = length (slots_at h p)"
  by (cases op) auto

lemma placed_heap:
  assumes "placed m" "\<And>p. live_at h' p \<Longrightarrow> live_at (heap m) p \<and> length (slots_at h' p) = length (slots_at (heap m) p)"
  shows "placed (m\<lparr>heap := h'\<rparr>)"
  using assms by (simp add: placed_def placed_at_def)

lemma placed_alloc:
  assumes p: "placed m" and k: "malloc_result cyc ty fl m m' a" "chunks_kept cells m m'"
  shows "placed m'"
proof -
  have "placed_at m' p" if l: "live_at (heap m') p" for p
  proof (cases "p = a")
    case True
    have "slots_at (heap m') a = replicate (unat fl) nullptr"
      using malloc_result_heap(1) [OF k(1)] by (auto simp: fresh_object_def)
    then show ?thesis using k(1) True by (auto simp: placed_at_def malloc_result_def NUMBER_OF_BLOCKS_def)
  next
    case False
    then have same: "heap m' p = heap m p"
      using malloc_result_heap(2) [OF k(1) False] l by (auto simp: live_at_def zero_object_def)
    then have "placed_at m p" using assms(1) l by (simp add: placed_def live_at_def)
    then show ?thesis using same by (intro placed_at_kept [OF _ k(2)]) (simp_all add: slots_at_def)
  qed
  then show ?thesis by (simp add: placed_def)
qed

lemma machine_step_placed:
  assumes "machine_step cyc iter x y" "machine_ok x" "placed (mem (fst x))"
  shows "placed (mem (fst y))"
  using assms(1)
proof cases
  case (New ty fl s al' m' a start' own)
  then have k: "malloc_result cyc ty fl (mem s) m' a" "chunks_kept (chunks_cells_size (allocator s)) (mem s) m'"
    using assms(2) HeapAllocator_malloc_total [of "mem s" "allocator s" "search_start s" fl cyc ty] by (auto simp: machine_ok_def)
  then show ?thesis using placed_alloc [OF _ k] assms(3) New(1,2) by simp
next
  case (Op op s own cc' h')
  have m: "consistent own (collector s) (heap (mem s))" "mem_ok (mem s)" using Op(1) assms(2) by (simp_all add: machine_ok_def)
  from ref.run_consistent [OF m(1) mem_ok_one [OF m(2)] Op(3)] Op(4)
  have "live_at (heap (mem s)) p \<and> slots_at h' p = fields_after op (heap (mem s)) p" if "live_at h' p" for p
    using that by auto
  then show ?thesis using placed_heap [of "mem s" h'] assms(3) Op(1,2) fields_after_length by simp
qed

interpretation vm_placed: invariant_system "\<lambda>x. \<exists>start. x = (CatVM_new start, \<lambda>_. 0) \<and> 1 < unat start \<and> unat start < 2 ^ 63"
    "machine_step cyc iter" "\<lambda>x. machine_ok x \<and> placed (mem (fst x))"
  for cyc iter
proof unfold_locales
  fix x :: "machine \<times> (addr \<Rightarrow> nat)"
  assume "\<exists>start. x = (CatVM_new start, \<lambda>_. 0) \<and> 1 < unat start \<and> unat start < 2 ^ 63"
  then obtain start where x: "x = (CatVM_new start, \<lambda>_. 0)" "1 < unat start" "unat start < 2 ^ 63" by blast
  then show "machine_ok x \<and> placed (mem (fst x))"
    using CatVM_new_ok CatVM_new_nothing_live [of start] by (simp add: placed_def)
qed (auto intro: machine_step_ok machine_step_placed)

lemma machine_reachable_placed:
  assumes "1 < unat start" "unat start < 2 ^ 63" "(machine_step cyc iter)\<^sup>*\<^sup>* (CatVM_new start, \<lambda>_. 0) (s, own)"
  shows "machine_ok (s, own)" "placed (mem s)"
  using vm_placed.reachable_inv [OF assms(3)] assms(1,2) by auto

text \<open>A step keeps the chunks, the closed blocks among them closed.\<close>

lemma machine_step_kept:
  assumes "machine_step cyc iter x y" "machine_ok x"
  obtains cells where "chunks_kept cells (mem (fst x)) (mem (fst y))"
  using assms(1)
proof cases
  case (New ty fl s al' m' a start' own)
  then have "chunks_kept (chunks_cells_size (allocator s)) (mem s) m'"
    using assms(2) HeapAllocator_malloc_total [of "mem s" "allocator s" "search_start s" fl cyc ty] by (auto simp: machine_ok_def)
  then show thesis using that New(1,2) by simp
next
  case (Op op s own cc' h')
  have m: "consistent own (collector s) (heap (mem s))" "mem_ok (mem s)" using Op(1) assms(2) by (simp_all add: machine_ok_def)
  from ref.run_consistent [OF m(1) mem_ok_one [OF m(2)] Op(3)] Op(4) have "dom h' = dom (heap (mem s))" by auto
  then show thesis using that chunks_kept_frame [OF mem_frame_heap [OF m(2)]] Op(1,2) by simp
qed

lemma CatVM_new_above:
  assumes "1 < unat start" "unat start < 2 ^ 63"
  shows "above (unat start) (mem (CatVM_new start))"
proof -
  obtain al m where new: "HeapAllocator_new True 1024 1 (initial_memory start) = (al, m)" by fastforce
  have sz: "unat (brk (initial_memory start)) + 1 * (chunk_stride 1024 + chunk_bytes 1024) < 2 ^ 64"
    using assms(2) by (simp add: initial_memory_def chunk_stride_def chunk_bytes_def sizeof_HeapChunk_def BLOCKS_SIZE_def
        sizeof_BlockInfo_def NUMBER_OF_BLOCKS_def)
  note n = HeapAllocator_new_ok [OF initial_memory_ok [OF assms(1)] _ _ sz new, simplified]
  have "start \<le> a" if "a \<in> dom (heap m)" for a
    using n(8) that by (auto simp: initial_memory_def word_le_nat_alt)
  then show ?thesis using n(6) new by (auto simp: above_def CatVM_new_def initial_memory_def word_le_nat_alt)
qed

lemma machine_reachable_above:
  assumes "1 < unat start" "unat start < 2 ^ 63" "(machine_step cyc iter)\<^sup>*\<^sup>* (CatVM_new start, \<lambda>_. 0) y"
  shows "above (unat start) (mem (fst y))"
  using assms(3)
proof (induction rule: rtranclp_induct)
  case base
  then show ?case using CatVM_new_above [OF assms(1,2)] by simp
next
  case (step y z)
  have "machine_ok y" using machine_reachable_ok [OF assms(1,2) step.hyps(1)] .
  obtain cells where "chunks_kept cells (mem (fst y)) (mem (fst z))" using machine_step_kept [OF step.hyps(2) \<open>machine_ok y\<close>] .
  from above_kept [OF step.IH this] show ?case .
qed







lemma live_field_length:
  assumes "consistent own cc h" "h p = Some ob" "state ob = live"
  shows "length (slots ob) = unat (field_length ob)"
proof -
  obtain L T where ok: "gc_ok L T h own cc" and L: "L = {p. live_at h p}" using assms(1) by (rule consistent_live)
  then have "p \<in> L" using assms(2,3) by (auto simp: live_at_def)
  from gc_ok_live [OF ok this] show ?thesis using assms(2) by (auto simp: obj_ok_def)
qed

section \<open>What the program is entitled to\<close>

text \<open>
  The operations on the references the program holds, without any condition on the counts. It is
  enough that the program itself holds fewer than \<open>2 ^ 62\<close> references to an object.
\<close>

fun entitled :: "(addr list \<Rightarrow> addr list) \<Rightarrow> ref_op \<Rightarrow> heap \<Rightarrow> (addr \<Rightarrow> nat) \<Rightarrow> bool" where
  "entitled iter (Clone x) h own \<longleftrightarrow> 0 < own x"
| "entitled iter (Drop x) h own \<longleftrightarrow> 0 < own x"
| "entitled iter (Set_clone p i f) h own \<longleftrightarrow> 0 < own p \<and> has_field h p i \<and> 0 < own f"
| "entitled iter (Set_move p i f) h own \<longleftrightarrow> 0 < own p \<and> has_field h p i \<and> (f = nullptr \<or> 0 < own f)"
| "entitled iter (Get_clone p i) h own \<longleftrightarrow> 0 < own p \<and> has_field h p i"
| "entitled iter (Get_move p i) h own \<longleftrightarrow> 0 < own p \<and> has_field h p i"
| "entitled iter Collect h own \<longleftrightarrow> iterates iter"

lemma held_live: "consistent own cc h \<Longrightarrow> 0 < own x \<Longrightarrow> live_at h x \<and> x \<noteq> nullptr"
  by (elim consistent_live) (auto dest: gc_ok_held)

lemma field_live:
  assumes "consistent own cc h" "live_at h p" "f \<in> set (slots_at h p)" "f \<noteq> nullptr"
  shows "live_at h f"
proof -
  obtain L T where ok: "gc_ok L T h own cc" and L: "L = {p. live_at h p}" using assms(1) by (rule consistent_live)
  then have "p \<in> L" using assms(2) by simp
  from gc_ok_live [OF ok this] show ?thesis using L assms(3,4) by (auto simp: obj_ok_def)
qed

lemma field_at_in_slots: "has_field h p i \<Longrightarrow> field_at h p i \<in> set (slots_at h p)"
  by (auto simp: has_field_def field_at_def)

lemma entitled_may_do:
  assumes c: "consistent own cc (heap m)" "mem_ok m" "placed m" and own: "\<forall>x. own x < 2 ^ 62"
    and e: "entitled iter op (heap m) own"
  shows "may_do iter op (heap m) own"
proof -
  have small: "cnt (heap m) x < 2 ^ 63" if "live_at (heap m) x" for x
    using count_bounded [OF c above_0 that] own [rule_format, of x] unsigned_less [of "brk m", where ?'a = nat] by simp
  have live: "live_at (heap m) x" if "0 < own x" for x using held_live [OF c(1) that] by simp
  have "live_at (heap m) (field_at (heap m) p i)" if "0 < own p" "has_field (heap m) p i" "field_at (heap m) p i \<noteq> nullptr" for p i
    using field_live [OF c(1) live [OF that(1)] field_at_in_slots [OF that(2)] that(3)] .
  then show ?thesis using e small live by (cases op) auto
qed

section \<open>Properties\<close>

text \<open>
  C2. No operation gets stuck. In a reachable state in which the program holds fewer than
  \<open>2 ^ 62\<close> references to each object, every operation on references it holds, and every
  collection, terminates without touching an invalid address and without waiting for a lock; and
  so does an allocation of at most 59 fields while the address space has room for another chunk.
\<close>

theorem operations_never_stuck:
  assumes "1 < unat start" "unat start < 2 ^ 63"
    "(machine_step cyc iter)\<^sup>*\<^sup>* (CatVM_new start, \<lambda>_. 0) (s, own)" "\<forall>x. own x < 2 ^ 62"
  shows "(entitled iter op (heap (mem s)) own \<longrightarrow> exec_op iter op (collector s) (heap (mem s)) \<noteq> None) \<and>
     (unat fl \<le> 59 \<and> room (allocator s) (mem s) \<longrightarrow>
        HeapAllocator_malloc cyc ty fl (allocator s) (search_start s) (mem s) \<noteq> None)"
proof -
  note r = machine_reachable_placed [OF assms(1-3)]
  then have m: "consistent own (collector s) (heap (mem s))" "mem_ok (mem s)" "allocator_ok (allocator s) (mem s)"
    "search_start s < number_of_chunks (allocator s)" by (simp_all add: machine_ok_def)
  show ?thesis
    using ref.run_consistent [OF m(1) mem_ok_one [OF m(2)] entitled_may_do [OF m(1,2) r(2) assms(4), of iter op]]
      HeapAllocator_malloc_total [OF m(2-4), of fl cyc ty] by auto
qed

text \<open>
  C39. Reference counts never overflow. In every reachable state the count of a live object
  exceeds the number of references the program holds to it by less than an eighth of the bytes
  between the address the machine started with and the end of the memory handed out; so if the
  program holds fewer than \<open>2 ^ 62\<close> references to it, adding a reference does not wrap around.
\<close>

theorem counts_never_overflow:
  assumes "1 < unat start" "unat start < 2 ^ 63"
    "(machine_step cyc iter)\<^sup>*\<^sup>* (CatVM_new start, \<lambda>_. 0) (s, own)"
    "heap (mem s) p = Some ob" "state ob = live"
  shows "8 * unat (count ob) + sizeof_HeapObject \<le> 8 * own p + (unat (brk (mem s)) - unat start) \<and>
    (own p < 2 ^ 62 \<longrightarrow> unat (count ob + 1) = unat (count ob) + 1)"
proof -
  note r = machine_reachable_placed [OF assms(1-3)]
  then have "consistent own (collector s) (heap (mem s))" "mem_ok (mem s)" by (simp_all add: machine_ok_def)
  moreover have "live_at (heap (mem s)) p" using assms(4,5) by (simp add: live_at_def)
  ultimately have b: "8 * unat (count ob) + sizeof_HeapObject + unat start \<le> 8 * own p + unat (brk (mem s))"
    using count_bounded [of own "collector s" "mem s" "unat start" p] r(2) assms(4) machine_reachable_above [OF assms(1-3)]
    by (simp add: cnt_def)
  moreover have "unat (count ob + 1) = unat (count ob) + 1" if "own p < 2 ^ 62"
    using b that unsigned_less [of "brk (mem s)", where ?'a = nat] by (intro unat_inc) simp
  ultimately show ?thesis by simp
qed

text \<open>
  C14. Objects never overlap. In every reachable state a live object, header and fields, lies
  between the address the machine started with and the end of the memory handed out, and no two
  live objects share a byte.
\<close>

theorem objects_never_overlap:
  assumes "1 < unat start" "unat start < 2 ^ 63"
    "(machine_step cyc iter)\<^sup>*\<^sup>* (CatVM_new start, \<lambda>_. 0) (s, own)"
    "heap (mem s) p = Some ob" "state ob = live"
  shows "unat start \<le> unat p \<and> unat p + (sizeof_HeapObject + 8 * unat (field_length ob)) \<le> unat (brk (mem s)) \<and>
    (\<forall>q ob'. q \<noteq> p \<and> heap (mem s) q = Some ob' \<and> state ob' = live \<longrightarrow>
       unat p + (sizeof_HeapObject + 8 * unat (field_length ob)) \<le> unat q \<or>
       unat q + (sizeof_HeapObject + 8 * unat (field_length ob')) \<le> unat p)"
proof -
  note r = machine_reachable_placed [OF assms(1-3)]
  have m: "consistent own (collector s) (heap (mem s))" "mem_ok (mem s)" using r(1) by (simp_all add: machine_ok_def)
  have above: "above (unat start) (mem s)" using machine_reachable_above [OF assms(1-3)] by simp
  have bytes: "object_bytes (heap (mem s)) x = {unat x ..< unat x + (sizeof_HeapObject + 8 * unat (field_length obx))}"
    "placed_at (mem s) x" if "heap (mem s) x = Some obx" "state obx = live" for x obx
    using live_field_length [OF m(1) that] that r(2) by (simp_all add: object_bytes_def slots_at_def placed_def live_at_def)
  have "unat p + (sizeof_HeapObject + 8 * unat (field_length ob)) \<le> unat q \<or>
       unat q + (sizeof_HeapObject + 8 * unat (field_length ob')) \<le> unat p"
    if "q \<noteq> p" "heap (mem s) q = Some ob'" "state ob' = live" for q ob'
    using object_bytes_apart [OF m(2) bytes(2) [OF assms(4,5)] bytes(2) [OF that(2,3)]] that(1)
    unfolding bytes(1) [OF assms(4,5)] bytes(1) [OF that(2,3)] by (auto simp: sizeof_HeapObject_def max_def min_def split: if_splits)
  moreover have "unat p + (sizeof_HeapObject + 8 * unat (field_length ob)) \<le> unat (brk (mem s))"
    using object_bytes_below [OF m(2) bytes(2) [OF assms(4,5)]] unfolding bytes(1) [OF assms(4,5)]
    by (auto simp: sizeof_HeapObject_def subset_iff dest: spec [of _ "unat p + (39 + 8 * unat (field_length ob))"])
  moreover have "unat start \<le> unat p" using above assms(4) by (auto simp: above_def)
  ultimately show ?thesis by blast
qed


section \<open>Witnesses\<close>

theorem operations_never_stuck_witness:
  "exec_op rev Collect (collector (CatVM_new 4096)) (heap (mem (CatVM_new 4096))) \<noteq> None \<and>
   HeapAllocator_malloc (\<lambda>_. True) (PrimT type_void) 3 (allocator (CatVM_new 4096)) (search_start (CatVM_new 4096)) (mem (CatVM_new 4096)) \<noteq> None"
  using operations_never_stuck [of 4096 "\<lambda>_. True" rev "CatVM_new 4096" "\<lambda>_. 0" Collect 3 "PrimT type_void"] fresh_machine(2)
  by (simp add: iterates_def)

text \<open>One allocation from a fresh machine.\<close>

theorem counts_never_overflow_witness:
  "\<exists>s own p ob. (machine_step (\<lambda>_. True) rev)\<^sup>*\<^sup>* (CatVM_new 4096, \<lambda>_. 0) (s, own) \<and> heap (mem s) p = Some ob \<and>
     own p = 1 \<and> 8 * unat (count ob) + sizeof_HeapObject \<le> 8 * own p + (unat (brk (mem s)) - 4096)"
proof -
  obtain s a where s: "(machine_step (\<lambda>_. True) rev)\<^sup>*\<^sup>* (CatVM_new 4096, \<lambda>_. 0) (s, gain a (\<lambda>_. 0))" "a \<noteq> nullptr"
    "live_at (heap (mem s)) a" by (rule one_allocation)
  then obtain ob where ob: "heap (mem s) a = Some ob" "state ob = live" by (auto simp: live_at_def)
  have "gain a (\<lambda>_. 0) a = 1" using s(2) by (simp add: gain_def)
  moreover have "8 * unat (count ob) + sizeof_HeapObject \<le> 8 * gain a (\<lambda>_. 0) a + (unat (brk (mem s)) - 4096)"
    using counts_never_overflow [OF _ _ s(1) ob] by simp
  ultimately show ?thesis using s(1) ob(1) by blast
qed

text \<open>Two allocations from a fresh machine.\<close>

lemma room_after:
  assumes "chunks_kept 1024 (mem s) m'" "unat (brk (mem s)) \<le> 2 ^ 62" "chunks_cells_size al' = 1024"
  shows "room al' m'"
  using assms by (simp add: chunks_kept_def room_def chunk_bytes_def sizeof_HeapChunk_def BLOCKS_SIZE_def sizeof_BlockInfo_def
      NUMBER_OF_BLOCKS_def)

lemma fresh_machine_size:
  "unat (brk (mem (CatVM_new 4096))) \<le> 2 ^ 62" "chunks_cells_size (allocator (CatVM_new 4096)) = 1024"
proof -
  obtain al m where new: "HeapAllocator_new True 1024 1 (initial_memory 4096) = (al, m)" by fastforce
  have sz: "chunk_stride 1024 = 1900872" "chunk_bytes 1024 = 1900856"
    by (simp_all add: chunk_stride_def chunk_bytes_def sizeof_HeapChunk_def BLOCKS_SIZE_def sizeof_BlockInfo_def NUMBER_OF_BLOCKS_def)
  have b: "unat (brk (initial_memory 4096)) = 4096" by (simp add: initial_memory_def)
  have bound: "unat (brk (initial_memory 4096)) + 1 * (chunk_stride 1024 + chunk_bytes 1024) < 2 ^ 64" unfolding sz b by simp
  have "mem_ok (initial_memory 4096)" by (rule initial_memory_ok) simp
  note n = HeapAllocator_new_ok [OF this _ _ bound new, simplified]
  show "unat (brk (mem (CatVM_new 4096))) \<le> 2 ^ 62" using n(6) new b by (simp add: CatVM_new_def sz)
  show "chunks_cells_size (allocator (CatVM_new 4096)) = 1024" using n(5) new by (simp add: CatVM_new_def)
qed

theorem objects_never_overlap_witness:
  "\<exists>s own p q. (machine_step (\<lambda>_. True) rev)\<^sup>*\<^sup>* (CatVM_new 4096, \<lambda>_. 0) (s, own) \<and> p \<noteq> q \<and>
     live_at (heap (mem s)) p \<and> live_at (heap (mem s)) q \<and> (unat p + 64 \<le> unat q \<or> unat q + 64 \<le> unat p)"
proof -
  let ?s = "CatVM_new 4096"
  obtain al1 m1 a start1 where 1: "HeapAllocator_malloc (\<lambda>_. True) (PrimT type_void) 3 (allocator ?s) (search_start ?s) (mem ?s) = Some (al1, m1, a, start1)"
    "malloc_result (\<lambda>_. True) (PrimT type_void) 3 (mem ?s) m1 a" "mem_ok m1" "allocator_ok al1 m1" "start1 < number_of_chunks al1"
    "chunks_kept 1024 (mem ?s) m1" "chunks_cells_size al1 = 1024"
    using HeapAllocator_malloc_total [of "mem ?s" "allocator ?s" "search_start ?s" 3 "\<lambda>_. True" "PrimT type_void"] fresh_machine
      fresh_machine_size by (auto simp: machine_ok_def)
  have room: "room al1 m1" using room_after [OF 1(6) fresh_machine_size(1) 1(7)] .
  obtain al2 m2 b start2 where 2: "HeapAllocator_malloc (\<lambda>_. True) (PrimT type_void) 3 al1 start1 m1 = Some (al2, m2, b, start2)"
    "malloc_result (\<lambda>_. True) (PrimT type_void) 3 m1 m2 b"
    using HeapAllocator_malloc_total [OF 1(3-5) room, of 3 "\<lambda>_. True" "PrimT type_void"] by auto
  let ?t = "?s\<lparr>allocator := al1, search_start := start1, mem := m1\<rparr>"
  let ?u = "?t\<lparr>allocator := al2, search_start := start2, mem := m2\<rparr>"
  have "machine_step (\<lambda>_. True) rev (?s, \<lambda>_. 0) (?t, gain a (\<lambda>_. 0))"
    using fresh_machine(2) by (intro machine_step.New [OF 1(1)]) simp_all
  moreover have "HeapAllocator_malloc (\<lambda>_. True) (PrimT type_void) 3 (allocator ?t) (search_start ?t) (mem ?t) = Some (al2, m2, b, start2)"
    using 2(1) by simp
  then have "machine_step (\<lambda>_. True) rev (?t, gain a (\<lambda>_. 0)) (?u, gain b (gain a (\<lambda>_. 0)))"
    using room by (intro machine_step.New [where fl = 3]) simp_all
  ultimately have reach: "(machine_step (\<lambda>_. True) rev)\<^sup>*\<^sup>* (?s, \<lambda>_. 0) (?u, gain b (gain a (\<lambda>_. 0)))" by simp
  obtain oa where oa: "heap m1 a = Some oa" "state oa = live" "field_length oa = 3"
    using malloc_result_heap(1) [OF 1(2)] by (auto simp: fresh_object_def)
  obtain ob where ob: "heap m2 b = Some ob" "state ob = live" "field_length ob = 3"
    using malloc_result_heap(1) [OF 2(2)] by (auto simp: fresh_object_def)
  have ab: "a \<noteq> b" using malloc_result_heap(1) [OF 2(2)] oa by auto
  then have a2: "heap m2 a = Some oa" using malloc_result_heap(2) [OF 2(2) ab] oa by auto
  have "heap (mem ?u) a = Some oa" "heap (mem ?u) b = Some ob" using a2 ob(1) by simp_all
  note ha = this(1) and hb = this(2)
  have "unat a + (sizeof_HeapObject + 8 * unat (field_length oa)) \<le> unat b \<or>
      unat b + (sizeof_HeapObject + 8 * unat (field_length ob)) \<le> unat a"
    using objects_never_overlap [OF _ _ reach ha oa(2), THEN conjunct2, THEN conjunct2, rule_format, of b ob] hb ob(2) ab by simp
  then have "unat a + 64 \<le> unat b \<or> unat b + 64 \<le> unat a" using oa(3) ob(3) by (simp add: sizeof_HeapObject_def)
  moreover have "live_at (heap (mem ?u)) a" "live_at (heap (mem ?u)) b" using a2 oa(2) ob by (auto simp: live_at_def)
  ultimately show ?thesis using reach ab by blast
qed


end
