(* ===== verification/Reclaim.thy ===== *)
theory Reclaim
  imports Count_Bounds
begin

text \<open>
  The collector gets everything in the end. One collection need not reclaim all garbage: an object
  that two unconnected cycles refer to is kept by the first collection. But as long as something
  is live that the program cannot reach, a collection takes at least the objects of one cycle that
  nothing outside of it refers to, so repeating it empties the heap.
\<close>

section \<open>A cycle without references from outside\<close>

lemma edges_reach: "(p, q) \<in> edges h \<Longrightarrow> q \<in> reach h r \<or> p \<notin> reach h r"
  by (auto simp: reach_def intro: rtrancl_into_rtrancl)

lemma reach_trans: "y \<in> reach h x \<Longrightarrow> z \<in> reach h y \<Longrightarrow> z \<in> reach h x"
  by (auto simp: reach_def)

text \<open>In a finite set in which every object is referred to, some object reaches all that reach it.\<close>

lemma source_object:
  assumes "finite L" "L \<noteq> {}"
  obtains r where "r \<in> L" "\<forall>q\<in>L. r \<in> reach h q \<longrightarrow> q \<in> reach h r"
proof -
  let ?anc = "\<lambda>r. {q \<in> L. r \<in> reach h q}"
  define r where "r = arg_min_on (\<lambda>r. card (?anc r)) L"
  have r: "r \<in> L" "\<And>q. q \<in> L \<Longrightarrow> card (?anc r) \<le> card (?anc q)"
    using arg_min_if_finite(1) [OF assms, of "\<lambda>r. card (?anc r)"] arg_min_least [OF assms, of _ "\<lambda>r. card (?anc r)"]
    unfolding r_def by blast+
  have "q \<in> reach h r" if q: "q \<in> L" "r \<in> reach h q" for q
  proof -
    have "?anc q \<subseteq> ?anc r" using reach_trans [OF _ q(2)] by blast
    moreover have "finite (?anc r)" using assms(1) by simp
    ultimately have "?anc q = ?anc r" using r(2) [OF q(1)] by (meson card_seteq)
    moreover have "r \<in> ?anc r" using r(1) by simp
    ultimately show ?thesis using q(1) by blast
  qed
  then show thesis using that r(1) by blast
qed

lemma abandoned_cycle:
  assumes ok: "gc_ok L T h (\<lambda>_. 0) cc" and "L \<noteq> {}"
  obtains r x where "r \<in> L" "x \<in> reach h r" "r \<in> set (kept_at h x)" "kept_at h r \<noteq> []" "r \<notin> held (reach h r) h"
proof -
  have rc: "rc_ok L h (\<lambda>_. 0)" and zs: "zeros L h = {}" using ok by (simp_all add: gc_ok_def)
  have fin: "finite L" using rc by (simp add: rc_ok_def)
  obtain r where r: "r \<in> L" "\<forall>q\<in>L. r \<in> reach h q \<longrightarrow> q \<in> reach h r" using source_object [OF fin assms(2)] by blast
  have sum: "cnt h p = (\<Sum>q\<in>L. refs h q p)" if "p \<in> L" for p using rc_ok_cnt [OF rc that] by simp
  have nz: "p \<noteq> nullptr" if "p \<in> L" for p using rc that by (auto simp: rc_ok_def)
  have edge: "p \<in> set (kept_at h q)" if "0 < refs h q p" "p \<in> L" for p q
    using that refs_kept [OF nz [OF that(2)], of h q] by (metis count_list_0_iff gr_implies_not_zero)
  have RL: "reach h r \<subseteq> L" using graph_reach(1) [OF graph_live [OF rc] r(1)] .
  have "cnt h r \<noteq> 0" using zs r(1) gc_ok_live [OF ok r(1)] by (auto simp: zeros_def cnt_def unat_gt_0)
  then have "\<not> (\<forall>x\<in>L. refs h x r = 0)" using sum [OF r(1)] by auto
  then obtain x where x: "x \<in> L" "0 < refs h x r" by blast
  have xr: "r \<in> set (kept_at h x)" using edge x r(1) by blast
  then have "r \<in> reach h x" by (auto simp: reach_def edges_iff)
  then have xR: "x \<in> reach h r" using r(2) x(1) by blast
  have kept: "kept_at h r \<noteq> []"
  proof
    assume none: "kept_at h r = []"
    then have "reach h r = {r}" using reach_least [of r "{r}" h] by auto
    then show False using xR xr none by auto
  qed
  have "r \<notin> held (reach h r) h"
  proof
    assume "r \<in> held (reach h r) h"
    then obtain y where y: "y \<in> reach h r" "(\<Sum>q\<in>reach h r. refs h q y) < cnt h y" "r \<in> reach h y"
      by (auto simp: held_def reach_def)
    have yL: "y \<in> L" using y(1) RL by blast
    have "refs h q y = 0" if q: "q \<in> L - reach h r" for q
    proof (rule ccontr)
      assume "refs h q y \<noteq> 0"
      then have "y \<in> set (kept_at h q)" using edge yL by blast
      then have "y \<in> reach h q" by (auto simp: reach_def edges_iff)
      then have "q \<in> reach h r" using r(2) q y(3) reach_trans by blast
      then show False using q by simp
    qed
    then have "(\<Sum>q\<in>L. refs h q y) = (\<Sum>q\<in>reach h r. refs h q y)"
      using fin RL by (intro sum.mono_neutral_right) auto
    then show False using y(2) sum [OF yL] by simp
  qed
  then show thesis using that r(1) xR xr kept by blast
qed

section \<open>Progress\<close>

text \<open>The live objects that refer to something are watched.\<close>

definition parents_watched :: "addr set \<Rightarrow> heap \<Rightarrow> bool" where
  "parents_watched L h \<longleftrightarrow> (\<forall>p\<in>L. kept_at h p \<noteq> [] \<longrightarrow> watched_at h p)"

lemma collect_progress:
  assumes ok: "gc_ok L T h (\<lambda>_. 0) cc" and i: "iterates iter" and small: "\<forall>p\<in>L. cnt h p < 2 ^ 63"
    and w: "parents_watched L h"
  shows "\<exists>cc' h' L' T'. gc_collect iter cc h = Some (cc', h') \<and> gc_ok L' T' h' (\<lambda>_. 0) cc' \<and>
    retires_to (L \<union> T) h (L' \<union> T') h' \<and> T' \<subseteq> L - L' \<and> (L \<noteq> {} \<longrightarrow> L' \<subset> L) \<and> L' \<subseteq> L \<and>
    (\<forall>p\<in>L'. cnt h' p < 2 ^ 63) \<and> parents_watched L' h'"
proof -
  obtain cc' h' L' T' where g: "gc_collect iter cc h = Some (cc', h')" "gc_ok L' T' h' (\<lambda>_. 0) cc'" "L' \<subseteq> L" "T' \<subseteq> L - L'"
    "counts_only L' h h'" "retires_to (L \<union> T) h (L' \<union> T') h'"
    using collect_keeps [OF ok i small] by (auto simp: leaves_def)
  have "L' \<subset> L" if "L \<noteq> {}"
  proof -
    obtain r x where r: "r \<in> L" "x \<in> reach h r" "r \<in> set (kept_at h x)" "kept_at h r \<noteq> []" "r \<notin> held (reach h r) h"
      using abandoned_cycle [OF ok \<open>L \<noteq> {}\<close>] by blast
    then have "watched_at h r" using w by (simp add: parents_watched_def)
    moreover obtain W D W2 h1 cc1 where c: "gc_collect iter cc h = Some (cc1, killed (W \<union> T) h1)" "garbage L h (\<lambda>_. 0) W"
      "outcome (L - W) (mark W h) (\<lambda>_. 0) [] {} D W2 h1"
      "\<forall>r\<in>L. watched_at h r \<and> (\<exists>x \<in> reach h r. r \<in> set (kept_at h x)) \<longrightarrow> reach h r - held (reach h r) h \<subseteq> W"
      using gc_collect_run [OF ok small i] by blast
    ultimately have "r \<in> W" using r by fastforce
    moreover have "W \<subseteq> L" using c(2) by (simp add: garbage_def)
    ultimately have "\<exists>ob. h' r = Some ob \<and> state ob = dead" using dead_after [OF ok _ c(3), of r] g(1) c(1) by auto
    then have "r \<notin> L'" using gc_ok_live [OF g(2), of r] by (auto simp: obj_ok_def)
    then show ?thesis using r(1) g(3) by blast
  qed
  moreover have "\<forall>p\<in>L'. cnt h' p < 2 ^ 63"
    using survivors_cnt [OF ok g(2,5,3)] small g(3) by (meson le_refl le_less_trans subsetD)
  moreover have "parents_watched L' h'"
    using g(3,5) w by (fastforce simp: parents_watched_def counts_only_def kept_at_def kept_def watched_at_def watched_def)
  ultimately show ?thesis using g(1-4,6) by blast
qed

section \<open>Repeating the collection\<close>

fun collect_times :: "(addr list \<Rightarrow> addr list) \<Rightarrow> nat \<Rightarrow> CycleCollector \<Rightarrow> heap \<Rightarrow> (CycleCollector \<times> heap) option" where
  "collect_times iter 0 cc h = Some (cc, h)"
| "collect_times iter (Suc n) cc h = do { (cc, h) \<leftarrow> gc_collect iter cc h; collect_times iter n cc h }"

lemma collect_times_runs:
  assumes "gc_ok L T h (\<lambda>_. 0) cc" "iterates iter" "\<forall>p\<in>L. cnt h p < 2 ^ 63" "parents_watched L h"
  shows "\<exists>cc' h' L' T'. collect_times iter n cc h = Some (cc', h') \<and> gc_ok L' T' h' (\<lambda>_. 0) cc' \<and> retires_to (L \<union> T) h (L' \<union> T') h' \<and>
    L' \<subseteq> L \<and> (card L < n \<longrightarrow> L' \<union> T' = {})"
  using assms(1,3,4)
proof (induction n arbitrary: L T cc h)
  case 0
  then show ?case using retires_to_refl [of "L \<union> T" h] by (simp del: Un_empty) blast
next
  case (Suc n)
  obtain cc1 h1 L1 T1 where c: "gc_collect iter cc h = Some (cc1, h1)" "gc_ok L1 T1 h1 (\<lambda>_. 0) cc1"
    "retires_to (L \<union> T) h (L1 \<union> T1) h1" "T1 \<subseteq> L - L1" "L \<noteq> {} \<longrightarrow> L1 \<subset> L" "L1 \<subseteq> L"
    "\<forall>p\<in>L1. cnt h1 p < 2 ^ 63" "parents_watched L1 h1"
    using collect_progress [OF Suc.prems(1) assms(2) Suc.prems(2,3)] by blast
  have fin: "finite L" using Suc.prems(1) by (simp add: gc_ok_def rc_ok_def)
  obtain cc' h' L' T' where r: "collect_times iter n cc1 h1 = Some (cc', h')" "gc_ok L' T' h' (\<lambda>_. 0) cc'"
    "retires_to (L1 \<union> T1) h1 (L' \<union> T') h'" "L' \<subseteq> L1" "card L1 < n \<longrightarrow> L' \<union> T' = {}"
    using Suc.IH [OF c(2,7,8)] by blast
  have "L' \<union> T' = {}" if "card L < Suc n"
  proof (cases "n = 0")
    case True
    then have "L = {}" using that fin by simp
    then have "L1 \<union> T1 = {}" using c(4,6) by auto
    then show ?thesis using r(3) by (simp add: retires_to_def)
  next
    case False
    then have "card L1 < n"
      using that c(5,6) fin psubset_card_mono [of L L1] by (cases "L = {}") auto
    then show ?thesis using r(5) by blast
  qed
  then show ?case using c(1) r retires_to_trans [OF c(3) r(3)] c(6) by (simp del: Un_empty) blast
qed

section \<open>Properties\<close>

text \<open>
  C38. Repeated collection reclaims everything. When the program holds no reference any more, and
  every live object that refers to another is watched by the collector, then collecting once
  more often than there are live objects leaves no object in use, neither live nor waiting,
  whatever cycles the objects form and however the cycles refer to each other.
\<close>

theorem collections_reclaim_everything:
  assumes "consistent (\<lambda>_. 0) cc h" "iterates iter" "\<forall>p. live_at h p \<longrightarrow> cnt h p < 2 ^ 63"
    "\<forall>p ob. h p = Some ob \<and> state ob = live \<and> set (slots ob) \<noteq> {} \<and> set (slots ob) \<noteq> {nullptr} \<longrightarrow> watched ob"
  shows "\<exists>cc' h'. collect_times iter (card {p. live_at h p} + 1) cc h = Some (cc', h') \<and> (\<forall>p. \<not> in_use h' p)"
proof -
  obtain L T where ok: "gc_ok L T h (\<lambda>_. 0) cc" and u: "\<forall>p. in_use h p \<longleftrightarrow> p \<in> L \<union> T"
    using assms(1) by (auto simp: consistent_def)
  have L: "L = {p. live_at h p}" using live_iff [OF ok u] by auto
  have "watched ob" if ob: "h p = Some ob" "state ob = live" "kept ob \<noteq> []" for p ob
  proof -
    obtain f where "f \<in> set (slots ob)" "f \<noteq> nullptr" using ob(3) by (auto simp: kept_def filter_empty_conv)
    then have "set (slots ob) \<noteq> {}" "set (slots ob) \<noteq> {nullptr}" by auto
    then show ?thesis using assms(4) ob(1,2) by blast
  qed
  then have w: "parents_watched L h" using L by (auto simp: parents_watched_def kept_at_def watched_at_def live_at_def)
  have small: "\<forall>p\<in>L. cnt h p < 2 ^ 63" using assms(3) L by simp
  have "card L < card {p. live_at h p} + 1" using L by simp
  with collect_times_runs [OF ok assms(2) small w, of "card {p. live_at h p} + 1"] obtain cc' h' where
    r: "collect_times iter (card {p. live_at h p} + 1) cc h = Some (cc', h')" "retires_to (L \<union> T) h {} h'" by auto
  have "\<not> in_use h' p" for p
  proof (cases "p \<in> L \<union> T")
    case True
    then show ?thesis using r(2) by (auto simp: retires_to_def in_use_def dest!: bspec [of _ _ p])
  next
    case False
    then have "h' p = h p" "\<not> in_use h p" using r(2) u by (auto simp: retires_to_def)
    then show ?thesis by (simp add: in_use_def)
  qed
  then show ?thesis using r(1) by blast
qed

text \<open>Two cycles that both refer to a third, all of them abandoned.\<close>

definition loop_object :: "u64 \<Rightarrow> u64 list \<Rightarrow> HeapObject" where
  "loop_object c fs = zero_object\<lparr>count := c, state := live, is_cyclic_type := True, async_release := True,
     field_length := of_nat (length fs), slots := fs\<rparr>"

definition three_cycles :: heap where
  "three_cycles = [16 \<mapsto> loop_object 1 [16, 48], 32 \<mapsto> loop_object 1 [32, 48], 48 \<mapsto> loop_object 3 [48]]"

lemma three_cycles_consistent: "consistent (\<lambda>_. 0) \<lparr>suspected_object_list = [16, 32, 48]\<rparr> three_cycles"
proof -
  have "gc_ok {16, 32, 48} {} three_cycles (\<lambda>_. 0) \<lparr>suspected_object_list = [16, 32, 48]\<rparr>"
    by (auto simp: gc_ok_def rc_ok_def obj_ok_def three_cycles_def loop_object_def zero_object_def refs_def zeros_def
        waiting_ok_def unlocked_def watched_at_def watched_def)
  moreover have "\<forall>p. in_use three_cycles p \<longleftrightarrow> p \<in> {16, 32, 48} \<union> {}"
    by (auto simp: in_use_def three_cycles_def loop_object_def zero_object_def)
  ultimately show ?thesis unfolding consistent_def by blast
qed

theorem collections_reclaim_everything_witness:
  "\<exists>cc' h'. collect_times rev 4 \<lparr>suspected_object_list = [16, 32, 48]\<rparr> three_cycles = Some (cc', h') \<and> (\<forall>p. \<not> in_use h' p)"
proof -
  have "{p. live_at three_cycles p} = {16, 32, 48}"
    by (auto simp: live_at_def three_cycles_def loop_object_def zero_object_def)
  then have card: "card {p. live_at three_cycles p} + 1 = 4" by simp
  have "iterates rev" by (simp add: iterates_def)
  moreover have "\<forall>p. live_at three_cycles p \<longrightarrow> cnt three_cycles p < 2 ^ 63"
    by (auto simp: live_at_def cnt_def three_cycles_def loop_object_def zero_object_def)
  moreover have "\<forall>p ob. three_cycles p = Some ob \<and> state ob = live \<and> set (slots ob) \<noteq> {} \<and> set (slots ob) \<noteq> {nullptr} \<longrightarrow> watched ob"
    by (auto simp: three_cycles_def loop_object_def zero_object_def watched_def split: if_splits)
  ultimately show ?thesis
    using collections_reclaim_everything [OF three_cycles_consistent] unfolding card by blast
qed

text \<open>The first collection frees the two outer cycles only: the third is kept for the next one.\<close>

declare object_lock.simps [code] red_phase.simps [code] gray_phase.simps [code] white_phase.simps [code]
  ready_to_release.simps [code] release_loop.simps [code] waiting_tree.simps [code] waiting_roots.simps [code]

lemma one_collection_is_not_enough:
  "map_option (\<lambda>(cc, h). (suspected_object_list cc, map (\<lambda>p. map_option state (h p)) [16, 32, 48]))
     (gc_collect rev \<lparr>suspected_object_list = [16, 32, 48]\<rparr> three_cycles) = Some ([48], [Some dead, Some dead, Some live])"
  by code_simp

end
