(* ===== verification/Driver_Heap.thy ===== *)
theory Driver_Heap
  imports Driver Reclaim
begin

text \<open>
  What the calls of the stress program do to the heap, the allocators and the references the
  threads hold. The references a thread holds are those of the variables that its remaining
  calls still give away; \<open>disciplined\<close> is the static check that every variable is defined before
  it is used and given away exactly once.
\<close>

section \<open>The heap of the driver\<close>

definition sound :: "(addr \<Rightarrow> nat) \<Rightarrow> CycleCollector \<Rightarrow> memory \<Rightarrow> bool" where
  "sound own cc m \<longleftrightarrow> consistent own cc (heap m) \<and> mem_ok m \<and> placed m"

text \<open>
  What the driver keeps of its objects: the module object \<open>M\<close> has ten fields and no field refers
  to it; every other live object has at least two fields and a cyclic type, and the collector
  watches it as soon as it refers to something or is referred to twice.
\<close>

definition member_ok :: "HeapObject \<Rightarrow> bool" where
  "member_ok ob \<longleftrightarrow> 2 \<le> length (slots ob) \<and> is_cyclic_type ob \<and> calm ob \<and> (kept ob \<noteq> [] \<longrightarrow> watched ob)"

definition shape :: "addr \<Rightarrow> heap \<Rightarrow> bool" where
  "shape M h \<longleftrightarrow> M \<noteq> nullptr \<and> live_at h M \<and> length (slots_at h M) = 10 \<and>
     (\<forall>p ob. h p = Some ob \<and> state ob = live \<longrightarrow> M \<notin> set (slots ob) \<and> (p \<noteq> M \<longrightarrow> member_ok ob))"

text \<open>The first \<open>n\<close> fields of the module object are set.\<close>

definition filled :: "nat \<Rightarrow> addr \<Rightarrow> heap \<Rightarrow> bool" where
  "filled n M h \<longleftrightarrow> (\<forall>i<n. i < length (slots_at h M) \<longrightarrow> slots_at h M ! i \<noteq> nullptr)"

text \<open>The stores and loads the driver performs: fields of the module object and of watched objects.\<close>

fun driver_op :: "addr \<Rightarrow> heap \<Rightarrow> ref_op \<Rightarrow> bool" where
  "driver_op M h (Set_clone p i f) \<longleftrightarrow> f \<noteq> M \<and> f \<noteq> nullptr \<and> (p = M \<or> watched_at h p)"
| "driver_op M h (Set_move p i f) \<longleftrightarrow> f \<noteq> M \<and> f \<noteq> nullptr \<and> (p = M \<or> watched_at h p)"
| "driver_op M h (Get_move p i) \<longleftrightarrow> False"
| "driver_op M h op \<longleftrightarrow> True"

lemma fields_after_driver_op:
  assumes "driver_op M h op"
  shows "fields_after op h p = slots_at h p \<or> (\<exists>i f. fields_after op h p = (slots_at h p)[i := f] \<and>
    f \<noteq> M \<and> f \<noteq> nullptr \<and> (p = M \<or> watched_at h p))"
  using assms by (cases op) auto

lemma nth_list_update': "j < length xs \<Longrightarrow> xs[i := v] ! j = (if i = j then v else xs ! j)"
  by (cases "i < length xs") (simp_all add: nth_list_update)

lemma sound_op:
  assumes s: "sound own cc m" and own: "\<forall>x. own x < 2 ^ 62" and e: "entitled iter op (heap m) own"
  shows "\<exists>cc' h'. exec_op iter op cc (heap m) = Some (cc', h') \<and> dom h' = dom (heap m) \<and>
    sound (holds_after op (heap m) own) cc' (m\<lparr>heap := h'\<rparr>) \<and>
    (\<forall>p. live_at h' p \<longrightarrow> live_at (heap m) p \<and> slots_at h' p = fields_after op (heap m) p \<and>
      (\<exists>ob ob'. heap m p = Some ob \<and> h' p = Some ob' \<and> upkeep ob ob'))"
proof -
  have m: "consistent own cc (heap m)" "mem_ok m" "placed m" using s by (simp_all add: sound_def)
  from ref.run_consistent [OF m(1) mem_ok_one [OF m(2)] entitled_may_do [OF m own e]]
  obtain cc' h' where r: "exec_op iter op cc (heap m) = Some (cc', h')" "consistent (holds_after op (heap m) own) cc' h'"
    "dom h' = dom (heap m)" "\<forall>p. live_at h' p \<longrightarrow> live_at (heap m) p \<and> slots_at h' p = fields_after op (heap m) p \<and>
      (\<exists>ob ob'. heap m p = Some ob \<and> h' p = Some ob' \<and> upkeep ob ob')" by blast
  have "mem_ok (m\<lparr>heap := h'\<rparr>)" by (rule mem_ok_heap [OF m(2) r(3)])
  moreover have "placed (m\<lparr>heap := h'\<rparr>)" using r(4) by (intro placed_heap [OF m(3)]) (simp add: fields_after_length)
  ultimately show ?thesis using r by (auto simp: sound_def)
qed

lemma shape_op:
  assumes s: "sound own cc m" "shape M (heap m)" and own: "\<forall>x. own x < 2 ^ 62" and e: "entitled iter op (heap m) own"
    and d: "driver_op M (heap m) op" and M: "0 < holds_after op (heap m) own M"
  shows "\<exists>cc' h'. exec_op iter op cc (heap m) = Some (cc', h') \<and> dom h' = dom (heap m) \<and>
    sound (holds_after op (heap m) own) cc' (m\<lparr>heap := h'\<rparr>) \<and> shape M h' \<and>
    (\<forall>n. filled n M (heap m) \<longrightarrow> filled n M h') \<and>
    (\<forall>p. live_at h' p \<and> watched_at (heap m) p \<longrightarrow> watched_at h' p) \<and>
    slots_at h' M = fields_after op (heap m) M"
proof -
  obtain cc' h' where r: "exec_op iter op cc (heap m) = Some (cc', h')" "dom h' = dom (heap m)"
    "sound (holds_after op (heap m) own) cc' (m\<lparr>heap := h'\<rparr>)"
    "\<And>p. live_at h' p \<Longrightarrow> live_at (heap m) p \<and> slots_at h' p = fields_after op (heap m) p \<and>
      (\<exists>ob ob'. heap m p = Some ob \<and> h' p = Some ob' \<and> upkeep ob ob')"
    using sound_op [OF s(1) own e] by blast
  have liveM: "live_at h' M" using held_live [of "holds_after op (heap m) own" cc' h' M] M r(3) by (simp add: sound_def)
  have w: "watched_at h' p" if "live_at h' p" "watched_at (heap m) p" for p
    using r(4) [OF that(1)] that(2) by (auto simp: watched_at_def upkeep_def)
  note f = fields_after_driver_op [OF d]
  have slots: "M \<notin> set (slots ob') \<and> (p \<noteq> M \<longrightarrow> member_ok ob')" if p: "h' p = Some ob'" "state ob' = live" for p ob'
  proof -
    have l: "live_at h' p" using p by (simp add: live_at_def)
    then obtain ob where ob: "heap m p = Some ob" "state ob = live" "slots ob' = fields_after op (heap m) p" "upkeep ob ob'"
      using r(4) [OF l] p(1) by (auto simp: live_at_def)
    have old: "M \<notin> set (slots ob)" "p \<noteq> M \<Longrightarrow> member_ok ob" using s(2) ob(1,2) by (auto simp: shape_def)
    from f [of p] show ?thesis
    proof
      assume "fields_after op (heap m) p = slots_at (heap m) p"
      then have "slots ob' = slots ob" using ob by simp
      then show ?thesis using old ob(4) by (auto simp: member_ok_def upkeep_def kept_def)
    next
      assume "\<exists>i f. fields_after op (heap m) p = (slots_at (heap m) p)[i := f] \<and> f \<noteq> M \<and> f \<noteq> nullptr \<and> (p = M \<or> watched_at (heap m) p)"
      then obtain i f where i: "slots ob' = (slots ob)[i := f]" "f \<noteq> M" "p = M \<or> watched_at (heap m) p" using ob by auto
      then have "p \<noteq> M \<Longrightarrow> watched ob'" using w [OF l] p(1) by (auto simp: watched_at_def)
      moreover have "M \<notin> set (slots ob')" using i(1,2) old(1) set_update_subset_insert [of "slots ob" i f] by auto
      ultimately show ?thesis using old(2) ob(4) i(1) by (auto simp: member_ok_def upkeep_def)
    qed
  qed
  have sM: "slots_at h' M = fields_after op (heap m) M" using r(4) [OF liveM] by simp
  then have "length (slots_at h' M) = 10" using s(2) by (simp add: shape_def fields_after_length)
  then have "shape M h'" using s(2) liveM slots unfolding shape_def by blast
  moreover have "filled n M h'" if "filled n M (heap m)" for n
  proof -
    have "fields_after op (heap m) M ! j \<noteq> nullptr" if "j < n" "j < length (slots_at (heap m) M)" for j
      using f [of M] \<open>filled n M (heap m)\<close> that by (auto simp: filled_def nth_list_update' split: if_splits)
    then show ?thesis using sM by (simp add: filled_def fields_after_length)
  qed
  ultimately show ?thesis using r(1-3) w sM by blast
qed

text \<open>Cloning a field of the module object gives a watched object.\<close>

lemma clone_from_module:
  assumes s: "sound own cc m" "shape M (heap m)" "filled 10 M (heap m)" and own: "\<forall>x. own x < 2 ^ 62" "0 < own M" and i: "i < 10"
  shows "\<exists>x cc' h'. get_clone_object_field cc (heap m) M i = Some (x, cc', h') \<and> x \<noteq> nullptr \<and> x \<noteq> M \<and> dom h' = dom (heap m) \<and>
    sound (gain x own) cc' (m\<lparr>heap := h'\<rparr>) \<and> shape M h' \<and> filled 10 M h' \<and> watched_at h' x \<and>
    (\<forall>p. live_at h' p \<and> watched_at (heap m) p \<longrightarrow> watched_at h' p)"
proof -
  let ?x = "field_at (heap m) M i"
  have c: "consistent own cc (heap m)" "mem_ok m" "placed m" using s(1) by (simp_all add: sound_def)
  have M: "length (slots_at (heap m) M) = 10" "live_at (heap m) M" "M \<noteq> nullptr" using s(2) by (simp_all add: shape_def)
  then have hf: "has_field (heap m) M i" "?x = slots_at (heap m) M ! i" using i by (auto simp: has_field_def field_at_def live_at_def)
  then have x: "?x \<noteq> nullptr" using s(3) i M(1) by (simp add: filled_def)
  have "?x \<in> set (slots_at (heap m) M)" using field_at_in_slots [OF hf(1)] .
  then have xM: "?x \<noteq> M" using s(2) M(2) by (auto simp: shape_def live_at_def)
  have e: "entitled iter (Get_clone M i) (heap m) own" for iter using own hf(1) by simp
  have after: "holds_after (Get_clone M i) (heap m) own = gain ?x own" by simp
  have "0 < gain ?x own M" using own(2) xM by (simp add: gain_def)
  with shape_op [OF s(1,2) own(1) e [of id]] after obtain cc' h' where
    r: "exec_op id (Get_clone M i) cc (heap m) = Some (cc', h')" "dom h' = dom (heap m)" "sound (gain ?x own) cc' (m\<lparr>heap := h'\<rparr>)"
      "shape M h'" "filled 10 M h'" "\<forall>p. live_at h' p \<and> watched_at (heap m) p \<longrightarrow> watched_at h' p"
      "slots_at h' M = slots_at (heap m) M" using s(3) by auto
  obtain L T where ok: "gc_ok L T (heap m) own cc" using c(1) by (auto simp: consistent_def)
  have M_in: "M \<in> L" using gc_ok_held [OF ok own(2)] by simp
  have one: "borrowed \<notin> L" using gc_ok_in_use [OF ok, of borrowed] mem_ok_one [OF c(2)] by (auto simp: in_use_def)
  have "cnt (heap m) ?x < 2 ^ 63" using entitled_may_do [OF c own(1) e [of id]] x by simp
  from clone_out_keeps [OF ok M_in hf(1) one this] obtain cc1 h1 where "get_clone_object_field cc (heap m) M i = Some (?x, cc1, h1)" by blast
  then have run: "get_clone_object_field cc (heap m) M i = Some (?x, cc', h')" using r(1) by simp
  have w: "watched_at h' ?x"
  proof -
    have "0 < gain ?x own ?x" using x by (simp add: gain_def)
    moreover have c': "consistent (gain ?x own) cc' h'" using r(3) by (simp add: sound_def)
    ultimately have lx: "live_at h' ?x" using held_live [of "gain ?x own" cc' h' ?x] by blast
    then obtain ob where ob: "h' ?x = Some ob" "state ob = live" by (auto simp: live_at_def)
    obtain L' T' where ok': "gc_ok L' T' h' (gain ?x own) cc'" and L': "L' = {p. live_at h' p}" using c' by (rule consistent_live)
    have rc: "rc_ok L' h' (gain ?x own)" using ok' by (simp add: gc_ok_def)
    then have fin: "finite L'" by (simp add: rc_ok_def)
    have "M \<in> L'" using r(4) L' by (simp add: shape_def)
    moreover have "0 < refs h' M ?x"
      using r(7) \<open>?x \<in> set (slots_at (heap m) M)\<close> count_list_0_iff [of "slots_at h' M" ?x] by (cases "h' M") (auto simp: refs_def slots_at_def)
    ultimately have "0 < (\<Sum>q\<in>L'. refs h' q ?x)" using fin by (metis member_le_sum le_zero_eq not_gr_zero zero_le)
    moreover have "cnt h' ?x = gain ?x own ?x + (\<Sum>q\<in>L'. refs h' q ?x)" using rc_ok_cnt [OF rc] lx L' by simp
    ultimately have "2 \<le> unat (count ob)" using x ob(1) by (simp add: cnt_def gain_def)
    moreover have "member_ok ob" using r(4) ob xM by (simp add: shape_def)
    ultimately show ?thesis using ob(1) by (auto simp: member_ok_def calm_def watched_at_def)
  qed
  show ?thesis using run x xM r(2-6) w by blast
qed

section \<open>Allocation\<close>

definition alloc_fine :: "HeapAllocator \<Rightarrow> nat \<Rightarrow> memory \<Rightarrow> bool" where
  "alloc_fine al start m \<longleftrightarrow> allocator_ok al m \<and> start < number_of_chunks al \<and> chunks_cells_size al = 1024"

lemma allocator_ok_kept: "allocator_ok al m \<Longrightarrow> chunks_kept cells m m' \<Longrightarrow> allocator_ok al m'"
  by (fastforce simp: allocator_ok_def chunks_kept_def)

lemma alloc_fine_kept: "alloc_fine al start m \<Longrightarrow> chunks_kept cells m m' \<Longrightarrow> alloc_fine al start m'"
  using allocator_ok_kept by (auto simp: alloc_fine_def)

lemma alloc_fine_heap [simp]: "alloc_fine al start (m\<lparr>heap := h\<rparr>) = alloc_fine al start m"
  by (simp add: alloc_fine_def allocator_ok_def)

text \<open>A new object among the others.\<close>

lemma driver_malloc:
  assumes s: "sound own cc m" and al: "alloc_fine al start m" and room: "unat (brk m) + chunk_stride 1024 < 2 ^ 64"
    and fl: "unat fl \<le> 59"
  shows "\<exists>al' m' a start'. HeapAllocator_malloc main_cycling ty fl al start m = Some (al', m', a, start') \<and>
    sound (gain a own) cc m' \<and> alloc_fine al' start' m' \<and> a \<noteq> nullptr \<and> own a = 0 \<and> \<not> live_at (heap m) a \<and>
    chunks_kept 1024 m m' \<and> a \<in> dom (heap m') \<and> dom (heap m) \<subseteq> dom (heap m') \<and>
    (\<exists>ob. heap m' a = Some (fresh_object main_cycling ty fl ob)) \<and>
    (\<forall>p. p \<noteq> a \<and> live_at (heap m') p \<longrightarrow> heap m' p = heap m p) \<and>
    (\<forall>p. live_at (heap m) p \<longrightarrow> heap m' p = heap m p) \<and>
    unat (brk m') \<le> unat (brk m) + chunk_stride 1024"
proof -
  have c: "consistent own cc (heap m)" "mem_ok m" "placed m" using s by (simp_all add: sound_def)
  have a: "allocator_ok al m" "start < number_of_chunks al" "chunks_cells_size al = 1024" using al by (simp_all add: alloc_fine_def)
  have "room al m" using room a(3) by (simp add: room_def chunk_stride_def)
  from HeapAllocator_malloc_total [OF c(2) a(1,2) this fl, of main_cycling ty] a(3) obtain al' m' x start' where
    r: "HeapAllocator_malloc main_cycling ty fl al start m = Some (al', m', x, start')" "mem_ok m'" "allocator_ok al' m'"
      "start' < number_of_chunks al'" "malloc_result main_cycling ty fl m m' x" "chunks_kept 1024 m m'" "chunks_cells_size al' = 1024"
    by auto
  note h = malloc_result_heap [OF r(5)]
  have dead: "\<not> live_at (heap m) x" using h(1) by (auto simp: live_at_def zero_object_def)
  have "own x = 0" using held_live [OF c(1), of x] dead by blast
  moreover have "heap m' p = heap m p" if "p \<noteq> x" "live_at (heap m') p" for p
    using h(2) [OF that(1)] that(2) by (auto simp: live_at_def zero_object_def)
  moreover have "heap m' p = heap m p" if "live_at (heap m) p" for p
    using h(2) [of p] that dead by (cases "p = x") (auto simp: live_at_def)
  moreover have "p \<in> dom (heap m')" if "p \<in> dom (heap m)" for p
    using h(1) h(2) [of p] that by (cases "p = x") auto
  moreover have "sound (gain x own) cc m'"
    using consistent_alloc [OF c(1) r(5)] r(2) placed_alloc [OF c(3) r(5,6)] by (simp add: sound_def)
  moreover have "x \<noteq> nullptr" using r(5) by (simp add: malloc_result_def)
  moreover have "unat (brk m') \<le> unat (brk m) + chunk_stride 1024" using r(6) by (simp add: chunks_kept_def chunk_stride_def)
  ultimately show ?thesis using r(1,3,4,6,7) dead h(1) by (fastforce simp: alloc_fine_def)
qed

lemma main_cycling_simps [simp]: "main_cycling object_type2" "\<not> main_cycling module_type"
  by code_simp+

lemma shape_alloc:
  assumes h: "shape M (heap m)" "filled n M (heap m)" and a: "\<not> live_at (heap m) a" "a \<noteq> nullptr"
    and new: "\<exists>ob. heap m' a = Some (fresh_object main_cycling object_type2 fl ob)" "2 \<le> unat fl"
    and same: "\<forall>p. p \<noteq> a \<and> live_at (heap m') p \<longrightarrow> heap m' p = heap m p" "\<forall>p. live_at (heap m) p \<longrightarrow> heap m' p = heap m p"
  shows "shape M (heap m')" "filled n M (heap m')" "a \<noteq> M"
    "live_at (heap m) p \<Longrightarrow> watched_at (heap m) p \<Longrightarrow> watched_at (heap m') p"
proof -
  have M: "live_at (heap m) M" "M \<noteq> nullptr" using h(1) by (simp_all add: shape_def)
  then show "a \<noteq> M" using a(1) by auto
  have hM: "heap m' M = heap m M" using same(2) M(1) by blast
  then have sM: "slots_at (heap m') M = slots_at (heap m) M" by (simp add: slots_at_def)
  then show "filled n M (heap m')" using h(2) by (simp add: filled_def)
  have "M \<notin> set (slots ob) \<and> (p \<noteq> M \<longrightarrow> member_ok ob)" if p: "heap m' p = Some ob" "state ob = live" for p ob
  proof (cases "p = a")
    case True
    then obtain o' where "ob = fresh_object main_cycling object_type2 fl o'" using p new(1) by auto
    then show ?thesis
      using new(2) M(2) by (auto simp: fresh_object_def member_ok_def calm_def kept_def filter_empty_conv)
  next
    case False
    then have "heap m p = Some ob" using same(1) p by (auto simp: live_at_def)
    then show ?thesis using h(1) p(2) by (auto simp: shape_def)
  qed
  then show "shape M (heap m')" using h(1) hM sM by (auto simp: shape_def live_at_def)
  show "watched_at (heap m') p" if "live_at (heap m) p" "watched_at (heap m) p"
    using same(2) that by (simp add: watched_at_def)
qed

text \<open>More cells, all of them free.\<close>

lemma consistent_grows:
  assumes c: "consistent own cc h" and g: "grows h g"
  shows "consistent own cc g"
proof -
  obtain L T where ok: "gc_ok L T h own cc" and u: "\<forall>p. in_use h p \<longleftrightarrow> p \<in> L \<union> T" using c by (auto simp: consistent_def)
  have gr: "g p = h p \<or> h p = None \<and> g p = Some zero_object" for p using g by (auto simp: grows_def)
  have same: "g p = h p" if "p \<in> L \<union> T" for p using gr [of p] gc_ok_in_use [OF ok that] by (auto simp: in_use_def)
  have rc: "rc_ok L h own" and T: "waiting_ok T h" and ul: "unlocked UNIV h" and zs: "zeros L h = {}"
    and S: "distinct (suspected_object_list cc)" "set (suspected_object_list cc) = {p \<in> L \<union> T. watched_at h p}"
    using ok by (simp_all add: gc_ok_def)
  have "refs g q x = refs h q x" if "q \<in> L" for q x using same [of q] that by (simp add: refs_def)
  then have sum: "(\<Sum>q\<in>L. refs g q x) = (\<Sum>q\<in>L. refs h q x)" for x by simp
  have "\<exists>ob. g p = Some ob \<and> obj_ok L g own p ob" if p: "p \<in> L" for p
  proof -
    obtain ob where "h p = Some ob" "obj_ok L h own p ob" using rc_okD [OF rc p] by blast
    then show ?thesis using same [of p] p sum by (simp add: obj_ok_def)
  qed
  then have 1: "rc_ok L g own" using rc by (auto simp: rc_ok_def)
  have 2: "waiting_ok T g" using T by (rule waiting_ok_frame) (use same in blast)
  have 3: "zeros L g = {}" using zs zeros_frame [of L g h] same by simp
  have "\<not> lock_flag o'" if "g p = Some o'" for p o'
    using gr [of p] that ul by (auto simp: unlocked_def zero_object_def)
  then have 4: "unlocked UNIV g" by (auto simp: unlocked_def)
  have "watched_at g p = watched_at h p" if "p \<in> L \<union> T" for p using same [OF that] by (simp add: watched_at_def)
  then have "{p \<in> L \<union> T. watched_at g p} = {p \<in> L \<union> T. watched_at h p}" by auto
  then have "gc_ok L T g own cc" using 1 2 3 4 S by (simp add: gc_ok_def)
  moreover have "in_use g p \<longleftrightarrow> p \<in> L \<union> T" for p
    using gr [of p] u [rule_format, of p] by (auto simp: in_use_def zero_object_def)
  ultimately show ?thesis by (auto simp: consistent_def)
qed

lemma new_allocator:
  assumes s: "sound own cc m" and room: "unat (brk m) + 2 * chunk_stride 1024 < 2 ^ 64"
    and new: "HeapAllocator_new ts 1024 1 m = (al, m')"
  shows "sound own cc m'" "alloc_fine al 0 m'" "alloc_fine al1 st m \<Longrightarrow> alloc_fine al1 st m'"
    "dom (heap m) \<subseteq> dom (heap m')" "\<And>p. live_at (heap m') p \<Longrightarrow> heap m' p = heap m p"
    "\<And>p. live_at (heap m) p \<Longrightarrow> heap m' p = heap m p"
    "unat (brk m') \<le> unat (brk m) + 2 * chunk_stride 1024"
proof -
  have c: "consistent own cc (heap m)" "mem_ok m" "placed m" using s by (simp_all add: sound_def)
  have bound: "unat (brk m) + 1 * (chunk_stride 1024 + chunk_bytes 1024) < 2 ^ 64" using room by (simp add: chunk_stride_def)
  note n = HeapAllocator_new_ok [OF c(2) _ _ bound new, simplified]
  have gr: "heap m' p = heap m p \<or> heap m p = None \<and> heap m' p = Some zero_object" for p using n(3) by (auto simp: grows_def)
  show l1: "heap m' p = heap m p" if "live_at (heap m') p" for p using gr [of p] that by (auto simp: live_at_def zero_object_def)
  show l2: "heap m' p = heap m p" if "live_at (heap m) p" for p using gr [of p] that by (auto simp: live_at_def)
  show "dom (heap m) \<subseteq> dom (heap m')" using gr by (metis domIff subsetI)
  have "placed_at m' p" if "live_at (heap m') p" for p
  proof -
    have "heap m' p = heap m p" using l1 that by simp
    then have "placed_at m p" "slots_at (heap m') p = slots_at (heap m) p" using c(3) that by (simp_all add: placed_def live_at_def slots_at_def)
    then obtain d ch j k where "chunk_at m d = Some ch" "j < NUMBER_OF_BLOCKS" "k < cells_size ch" "p = cell ch j k"
      "sizeof_HeapObject + 8 * length (slots_at (heap m') p) \<le> BLOCK_SIZES ! j" by (auto simp: placed_at_def)
    moreover from this have "chunk_at m' d = Some ch" using n(7) [of d] by simp
    ultimately show ?thesis unfolding placed_at_def by blast
  qed
  then show "sound own cc m'" using consistent_grows [OF c(1) n(3)] n(1) by (simp add: sound_def placed_def)
  show "alloc_fine al 0 m'" using n(2,4,5) by (simp add: alloc_fine_def)
  show "alloc_fine al1 st m'" if "alloc_fine al1 st m"
  proof -
    have "dom (chunk_at m) \<subseteq> dom (chunk_at m')"
    proof
      fix d assume "d \<in> dom (chunk_at m)"
      then show "d \<in> dom (chunk_at m')" using n(7) [of d] by auto
    qed
    moreover have "set (chunks al1) \<subseteq> dom (chunk_at m)" using that by (simp add: alloc_fine_def allocator_ok_def)
    ultimately have "set (chunks al1) \<subseteq> dom (chunk_at m')" by simp
    then show ?thesis using that unfolding alloc_fine_def allocator_ok_def by blast
  qed
  show "unat (brk m') \<le> unat (brk m) + 2 * chunk_stride 1024" using n(6) by (simp add: chunk_stride_def)
qed

lemma shape_grows:
  assumes h: "shape M h" "filled n M h" and l: "\<And>p. live_at h' p \<Longrightarrow> h' p = h p" "\<And>p. live_at h p \<Longrightarrow> h' p = h p"
  shows "shape M h'" "filled n M h'"
proof -
  have "live_at h M" using h(1) by (simp add: shape_def)
  then have hM: "h' M = h M" using l(2) by simp
  have "h p = Some ob" if "h' p = Some ob" "state ob = live" for p ob
  proof -
    have "live_at h' p" using that by (simp add: live_at_def)
    then show ?thesis using l(1) that(1) by simp
  qed
  then have "\<forall>p ob. h' p = Some ob \<and> state ob = live \<longrightarrow> M \<notin> set (slots ob) \<and> (p \<noteq> M \<longrightarrow> member_ok ob)"
    using h(1) unfolding shape_def by blast
  moreover have "live_at h' M" "slots_at h' M = slots_at h M" using \<open>live_at h M\<close> hM by (simp_all add: live_at_def slots_at_def)
  ultimately show "shape M h'" using h(1) by (simp add: shape_def)
  show "filled n M h'" using h(2) hM by (simp add: filled_def slots_at_def)
qed

section \<open>Who holds what\<close>

text \<open>The variables a call defines, gives away, reads and stores into.\<close>

fun acquires :: "call \<Rightarrow> nat option" where
  "acquires (Malloc k) = Some k"
| "acquires (Clone_from_module k i) = Some k"
| "acquires _ = None"

fun releases :: "call \<Rightarrow> nat option" where
  "releases (Into_module i k) = Some k"
| "releases (Store_move k i l) = Some l"
| "releases (Release k) = Some k"
| "releases _ = None"

fun parent_var :: "call \<Rightarrow> nat option" where
  "parent_var (Store_clone k i l) = Some k"
| "parent_var (Store_move k i l) = Some k"
| "parent_var _ = None"

fun reads :: "call \<Rightarrow> nat list" where
  "reads Insert_created = [1, 2, 3]"
| "reads (Store_clone k i l) = [k, l]"
| "reads (Store_move k i l) = [k]"
| "reads _ = []"

fun in_bounds :: "call \<Rightarrow> bool" where
  "in_bounds (Into_module i k) = (i < 10 \<and> k \<in> {1, 2, 3})"
| "in_bounds (Clone_from_module k i) = (i < 10)"
| "in_bounds (Store_clone k i l) = (i < 2)"
| "in_bounds (Store_move k i l) = (i < 2 \<and> l \<in> {1, 2, 3})"
| "in_bounds (Release k) = (k \<in> {1, 2, 3})"
| "in_bounds _ = True"

text \<open>The variables whose reference the remaining calls still give away, and those still stored into.\<close>

fun keeps :: "call list \<Rightarrow> nat \<Rightarrow> bool" where
  "keeps [] k = False"
| "keeps (c # cs) k = (acquires c \<noteq> Some k \<and> (releases c = Some k \<or> keeps cs k))"

fun is_parent :: "call list \<Rightarrow> nat \<Rightarrow> bool" where
  "is_parent [] k = False"
| "is_parent (c # cs) k = (acquires c \<noteq> Some k \<and> (parent_var c = Some k \<or> is_parent cs k))"

text \<open>
  Every variable is defined before it is used, holds exactly one reference until it is given
  away once, and only objects read from the module object are stored into.
\<close>

fun disciplined :: "call list \<Rightarrow> bool" where
  "disciplined [] = True"
| "disciplined (c # cs) = (in_bounds c \<and> (\<forall>k \<in> set (reads c). keeps (c # cs) k) \<and>
     (\<forall>k. acquires c = Some k \<longrightarrow> keeps cs k) \<and> (\<forall>k. releases c = Some k \<longrightarrow> \<not> keeps cs k) \<and>
     (\<forall>k. c = Malloc k \<longrightarrow> \<not> is_parent cs k) \<and> disciplined cs)"

lemma func1_round_disciplined: "disciplined (func1_round clock)" "length (func1_round clock) \<le> 9"
  "\<not> keeps (func1_round clock) k" "\<not> is_parent (func1_round clock) k"
  by (auto simp: func1_round_def get_10_def)

lemma keeps_bounds: "disciplined cs \<Longrightarrow> keeps cs k \<Longrightarrow> k \<in> {1, 2, 3}"
proof (induction cs)
  case (Cons c cs)
  then show ?case by (cases c) (auto split: if_splits)
qed simp

definition borrows :: "driver \<Rightarrow> addr \<Rightarrow> (nat \<times> nat) set" where
  "borrows d x = {(i, k). i < length (workers d) \<and> keeps (todo (workers d ! i)) k \<and> locals (workers d ! i) k = Some x}"

definition owns :: "driver \<Rightarrow> addr \<Rightarrow> nat" where
  "owns d x = (if x = module_object d then 1 else 0) + card (borrows d x)"

text \<open>How one call of worker \<open>i\<close> changes the holdings.\<close>

definition moved_on :: "nat \<Rightarrow> worker \<Rightarrow> driver \<Rightarrow> driver \<Rightarrow> bool" where
  "moved_on i w d d' \<longleftrightarrow> i < length (workers d) \<and> module_object d' = module_object d \<and> workers d' = (workers d)[i := w]"

lemma borrows_moved:
  assumes "moved_on i w d d'"
  shows "(j, k) \<in> borrows d' x \<longleftrightarrow> (if j = i then keeps (todo w) k \<and> locals w k = Some x else (j, k) \<in> borrows d x)"
  using assms by (auto simp: moved_on_def borrows_def nth_list_update')

lemma borrows_finite:
  assumes "\<forall>w \<in> set (workers d). disciplined (todo w)"
  shows "finite (borrows d x)" "card (borrows d x) \<le> length (workers d) * 3"
proof -
  have sub: "borrows d x \<subseteq> {..<length (workers d)} \<times> {1, 2, 3}"
    using assms keeps_bounds by (fastforce simp: borrows_def)
  then show "finite (borrows d x)" by (rule finite_subset) simp
  show "card (borrows d x) \<le> length (workers d) * 3" using card_mono [OF _ sub] by simp
qed

lemma owns_acquire:
  assumes m: "moved_on i w d d'" and w0: "workers d ! i = w0" "todo w0 = c # cs" "acquires c = Some k" "releases c = None" "keeps cs k"
    and w: "todo w = cs" "locals w = (locals w0)(k \<mapsto> a)" and a: "a \<noteq> nullptr" and fin: "\<And>x. finite (borrows d x)"
  shows "owns d' = gain a (owns d)"
proof
  fix x
  have i: "i < length (workers d)" using m by (simp add: moved_on_def)
  have "borrows d' x = (if x = a then insert (i, k) (borrows d x) else borrows d x)"
  proof (rule set_eqI, clarify)
    fix j l
    show "(j, l) \<in> borrows d' x \<longleftrightarrow> (j, l) \<in> (if x = a then insert (i, k) (borrows d x) else borrows d x)"
      unfolding borrows_moved [OF m] using i w0 w by (auto simp: borrows_def)
  qed
  moreover have "(i, k) \<notin> borrows d x" using w0 by (auto simp: borrows_def)
  ultimately show "owns d' x = gain a (owns d) x"
    using a fin m by (auto simp: owns_def gain_def moved_on_def)
qed

lemma owns_release:
  assumes m: "moved_on i w d d'" and w0: "workers d ! i = w0" "todo w0 = c # cs" "releases c = Some k" "acquires c = None" "\<not> keeps cs k"
    "locals w0 k = Some a" and w: "todo w = cs" "locals w = locals w0" and a: "a \<noteq> nullptr" and fin: "\<And>x. finite (borrows d x)"
  shows "owns d' = lose a (owns d)"
proof
  fix x
  have i: "i < length (workers d)" using m by (simp add: moved_on_def)
  have "borrows d' x = (if x = a then borrows d x - {(i, k)} else borrows d x)"
  proof (rule set_eqI, clarify)
    fix j l
    show "(j, l) \<in> borrows d' x \<longleftrightarrow> (j, l) \<in> (if x = a then borrows d x - {(i, k)} else borrows d x)"
      unfolding borrows_moved [OF m] using i w0 w by (auto simp: borrows_def)
  qed
  moreover have "(i, k) \<in> borrows d a" using w0 i by (auto simp: borrows_def)
  moreover from this have "0 < card (borrows d a)" using fin by (auto simp: card_gt_0_iff)
  ultimately show "owns d' x = lose a (owns d) x"
    using a fin m by (auto simp: owns_def lose_def moved_on_def)
qed

lemma owns_same:
  assumes m: "moved_on i w d d'" and w0: "workers d ! i = w0" and k: "\<And>k. keeps (todo w) k = keeps (todo w0) k" "locals w = locals w0"
  shows "owns d' = owns d"
proof
  fix x
  have "borrows d' x = borrows d x"
  proof (rule set_eqI, clarify)
    fix j l
    show "(j, l) \<in> borrows d' x \<longleftrightarrow> (j, l) \<in> borrows d x"
      unfolding borrows_moved [OF m] using m w0 k by (auto simp: borrows_def moved_on_def)
  qed
  then show "owns d' x = owns d x" using m by (simp add: owns_def moved_on_def)
qed

end
