(* ===== verification/Driver_Steps.thy ===== *)
theory Driver_Steps
  imports Driver_Heap
begin

text \<open>
  The invariant \<open>driver_ok\<close> of the stress program - counts are exact, the module object keeps its
  ten fields, the variables of each thread hold references of their own, the memory suffices for
  the steps that are left - and that every step of every thread keeps it.
\<close>

section \<open>The invariant\<close>

definition steps_left :: "worker \<Rightarrow> nat" where
  "steps_left w = (if thread w = None then 1 else 0) + length (todo w) + 10 * rounds_left w"

definition total_left :: "driver \<Rightarrow> nat" where
  "total_left d = (\<Sum>w\<leftarrow>workers d. steps_left w)"

definition worker_ok :: "driver \<Rightarrow> worker \<Rightarrow> bool" where
  "worker_ok d w \<longleftrightarrow> disciplined (todo w) \<and> (thread w = None \<longrightarrow> todo w = []) \<and>
     (\<forall>t. thread w = Some t \<longrightarrow> t < length (threads (virtual_machine d))) \<and>
     (\<forall>k. keeps (todo w) k \<longrightarrow> (\<exists>x. locals w k = Some x \<and> x \<noteq> nullptr \<and> x \<noteq> module_object d \<and>
        (is_parent (todo w) k \<longrightarrow> watched_at (driver_heap d) x)))"

definition driver_ok :: "driver \<Rightarrow> bool" where
  "driver_ok d \<longleftrightarrow> sound (owns d) (cycle_collector d) (vm_memory (virtual_machine d)) \<and>
     shape (module_object d) (driver_heap d) \<and> filled 10 (module_object d) (driver_heap d) \<and>
     alloc_fine (vm_heap_allocator (virtual_machine d)) (main_search_start d) (vm_memory (virtual_machine d)) \<and>
     (\<forall>th \<in> set (threads (virtual_machine d)). alloc_fine (thread_allocator th) (allocator_search_start_index th) (vm_memory (virtual_machine d))) \<and>
     length (workers d) \<le> 3 \<and> (\<forall>w \<in> set (workers d). worker_ok d w) \<and>
     set (created_objects d) \<subseteq> dom (driver_heap d) \<and>
     unat (brk (vm_memory (virtual_machine d))) + total_left d * (2 * chunk_stride 1024) < 2 ^ 64"

lemma driver_okD:
  assumes "driver_ok d"
  shows "sound (owns d) (cycle_collector d) (vm_memory (virtual_machine d))" "shape (module_object d) (driver_heap d)"
    "filled 10 (module_object d) (driver_heap d)" "length (workers d) \<le> 3" "w \<in> set (workers d) \<Longrightarrow> worker_ok d w"
    "set (created_objects d) \<subseteq> dom (driver_heap d)"
    "consistent (owns d) (cycle_collector d) (driver_heap d)"
    "finite (borrows d x)" "owns d x < 2 ^ 62" "0 < owns d (module_object d)"
proof -
  show "sound (owns d) (cycle_collector d) (vm_memory (virtual_machine d))" "shape (module_object d) (driver_heap d)"
    "filled 10 (module_object d) (driver_heap d)" "length (workers d) \<le> 3" "w \<in> set (workers d) \<Longrightarrow> worker_ok d w"
    "set (created_objects d) \<subseteq> dom (driver_heap d)"
    using assms by (auto simp: driver_ok_def)
  then show "consistent (owns d) (cycle_collector d) (driver_heap d)" by (simp add: sound_def driver_heap_def)
  have "\<forall>w \<in> set (workers d). disciplined (todo w)" using assms by (auto simp: driver_ok_def worker_ok_def)
  note b = borrows_finite [OF this, of x]
  show "finite (borrows d x)" by (rule b(1))
  have "card (borrows d x) \<le> 9" using b(2) \<open>length (workers d) \<le> 3\<close> by linarith
  then show "owns d x < 2 ^ 62" by (auto simp: owns_def)
  show "0 < owns d (module_object d)" by (simp add: owns_def)
qed

lemma owns_pos: "finite (borrows d x) \<Longrightarrow> w \<in> set (workers d) \<Longrightarrow> keeps (todo w) k \<Longrightarrow> locals w k = Some x \<Longrightarrow> 0 < owns d x"
proof -
  assume fin: "finite (borrows d x)" and "w \<in> set (workers d)" and k: "keeps (todo w) k" "locals w k = Some x"
  then obtain i where "i < length (workers d)" "workers d ! i = w" by (auto simp: in_set_conv_nth)
  then have "(i, k) \<in> borrows d x" using k by (simp add: borrows_def)
  then have "0 < card (borrows d x)" using fin by (auto simp: card_gt_0_iff)
  then show ?thesis by (simp add: owns_def)
qed

lemma total_left_update:
  assumes "i < length (workers d)" "workers d' = (workers d)[i := w]"
  shows "total_left d' + steps_left (workers d ! i) = total_left d + steps_left w"
  using assms sum_list_update [of i "map steps_left (workers d)" "steps_left w"] member_le_sum_list [of "steps_left (workers d ! i)" "map steps_left (workers d)"]
  by (simp add: total_left_def map_update)

text \<open>What is kept of the other workers and what the running worker has to show for its variables.\<close>

definition carries_on :: "call \<Rightarrow> call list \<Rightarrow> worker \<Rightarrow> worker \<Rightarrow> addr \<Rightarrow> heap \<Rightarrow> bool" where
  "carries_on c cs w0 w M h \<longleftrightarrow> (\<forall>k. keeps cs k \<longrightarrow> (acquires c \<noteq> Some k \<and> locals w k = locals w0 k) \<or>
     (\<exists>x. locals w k = Some x \<and> x \<noteq> nullptr \<and> x \<noteq> M \<and> (is_parent cs k \<longrightarrow> watched_at h x)))"

lemma worker_ok_after:
  assumes w0: "worker_ok d w0" "todo w0 = c # cs" and w: "todo w = cs" "thread w = thread w0"
    and same: "module_object d' = module_object d" "length (threads (virtual_machine d)) \<le> length (threads (virtual_machine d'))"
    and keep: "carries_on c cs w0 w (module_object d) (driver_heap d')"
    and held: "\<And>k x. keeps cs k \<Longrightarrow> locals w k = Some x \<Longrightarrow> live_at (driver_heap d') x"
    and old: "\<And>k x. keeps (todo w0) k \<Longrightarrow> locals w0 k = Some x \<Longrightarrow> live_at (driver_heap d) x"
    and watch: "\<And>x. live_at (driver_heap d) x \<Longrightarrow> live_at (driver_heap d') x \<Longrightarrow> watched_at (driver_heap d) x \<Longrightarrow> watched_at (driver_heap d') x"
  shows "worker_ok d' w"
proof -
  have "\<exists>x. locals w k = Some x \<and> x \<noteq> nullptr \<and> x \<noteq> module_object d \<and> (is_parent cs k \<longrightarrow> watched_at (driver_heap d') x)"
    if k: "keeps cs k" for k
  proof (cases "acquires c \<noteq> Some k \<and> locals w k = locals w0 k")
    case True
    then have "keeps (todo w0) k" "is_parent cs k \<Longrightarrow> is_parent (todo w0) k" using k w0(2) by simp_all
    then obtain x where "locals w k = Some x" "x \<noteq> nullptr" "x \<noteq> module_object d" "is_parent cs k \<Longrightarrow> watched_at (driver_heap d) x"
      using w0(1) True unfolding worker_ok_def by metis
    then show ?thesis using held [OF k] old [OF \<open>keeps (todo w0) k\<close>] True watch by metis
  next
    case False
    then show ?thesis using keep k unfolding carries_on_def by blast
  qed
  moreover have "disciplined cs" using w0 by (simp add: worker_ok_def)
  moreover have "thread w \<noteq> None" using w0 w(2) by (auto simp: worker_ok_def)
  ultimately show ?thesis using w0(1) w same by (auto simp: worker_ok_def)
qed

lemma worker_ok_other:
  assumes w: "worker_ok d w"
    and same: "module_object d' = module_object d" "length (threads (virtual_machine d)) \<le> length (threads (virtual_machine d'))"
    and held: "\<And>k x. keeps (todo w) k \<Longrightarrow> locals w k = Some x \<Longrightarrow> live_at (driver_heap d') x"
    and old: "\<And>k x. keeps (todo w) k \<Longrightarrow> locals w k = Some x \<Longrightarrow> live_at (driver_heap d) x"
    and watch: "\<And>x. live_at (driver_heap d) x \<Longrightarrow> live_at (driver_heap d') x \<Longrightarrow> watched_at (driver_heap d) x \<Longrightarrow> watched_at (driver_heap d') x"
  shows "worker_ok d' w"
proof -
  have "\<exists>x. locals w k = Some x \<and> x \<noteq> nullptr \<and> x \<noteq> module_object d \<and> (is_parent (todo w) k \<longrightarrow> watched_at (driver_heap d') x)"
    if k: "keeps (todo w) k" for k
  proof -
    obtain x where "locals w k = Some x" "x \<noteq> nullptr" "x \<noteq> module_object d" "is_parent (todo w) k \<Longrightarrow> watched_at (driver_heap d) x"
      using w k unfolding worker_ok_def by metis
    then show ?thesis using held [OF k] old [OF k] watch by blast
  qed
  then show ?thesis using w same by (auto simp: worker_ok_def)
qed

lemma held_var:
  assumes "driver_ok d" "u \<in> set (workers d)" "keeps (todo u) k" "locals u k = Some x"
  shows "live_at (driver_heap d) x"
  using owns_pos [OF driver_okD(8) [OF assms(1)] assms(2-4)] driver_okD(7) [OF assms(1)]
    held_live [of "owns d" "cycle_collector d" "driver_heap d" x] by blast

text \<open>The invariant after a step that leaves worker \<open>i\<close> as \<open>w\<close>.\<close>

lemma driver_ok_moved:
  assumes ok: "driver_ok d" and m: "moved_on i w d d'" and sound': "sound (owns d') (cycle_collector d') (vm_memory (virtual_machine d'))"
    and sh: "shape (module_object d) (driver_heap d')" "filled 10 (module_object d) (driver_heap d')"
    and al: "alloc_fine (vm_heap_allocator (virtual_machine d')) (main_search_start d') (vm_memory (virtual_machine d'))"
      "\<forall>th \<in> set (threads (virtual_machine d')). alloc_fine (thread_allocator th) (allocator_search_start_index th) (vm_memory (virtual_machine d'))"
    and len: "length (threads (virtual_machine d)) \<le> length (threads (virtual_machine d'))"
    and w: "\<lbrakk>\<And>k x. keeps (todo w) k \<Longrightarrow> locals w k = Some x \<Longrightarrow> live_at (driver_heap d') x\<rbrakk> \<Longrightarrow> worker_ok d' w" "disciplined (todo w)"
    and watch: "\<And>x. live_at (driver_heap d) x \<Longrightarrow> live_at (driver_heap d') x \<Longrightarrow> watched_at (driver_heap d) x \<Longrightarrow> watched_at (driver_heap d') x"
    and cr: "set (created_objects d') \<subseteq> dom (driver_heap d')"
    and room: "unat (brk (vm_memory (virtual_machine d'))) \<le> unat (brk (vm_memory (virtual_machine d))) + 2 * chunk_stride 1024"
      "steps_left w < steps_left (workers d ! i)"
  shows "driver_ok d' \<and> total_left d' < total_left d"
proof -
  have i: "i < length (workers d)" "module_object d' = module_object d" "workers d' = (workers d)[i := w]" using m by (simp_all add: moved_on_def)
  have sub: "set (workers d') \<subseteq> insert w (set (workers d))" unfolding i(3) by (rule set_update_subset_insert)
  have "\<forall>u \<in> set (workers d'). disciplined (todo u)" using sub w(2) driver_okD(5) [OF ok] by (auto simp: worker_ok_def)
  note fin = borrows_finite(1) [OF this]
  have held: "live_at (driver_heap d') x" if "u \<in> set (workers d')" "keeps (todo u) k" "locals u k = Some x" for u k x
    using owns_pos [OF fin that] sound' held_live [of "owns d'" "cycle_collector d'" "driver_heap d'" x] by (simp add: sound_def driver_heap_def)
  have win: "w \<in> set (workers d')" using i by (simp add: set_update_memI)
  have "worker_ok d' u" if u: "u \<in> set (workers d')" for u
  proof (cases "u = w")
    case True
    then show ?thesis using w(1) held [OF win] by blast
  next
    case False
    then have old: "worker_ok d u" using u sub driver_okD(5) [OF ok] by blast
    have "live_at (driver_heap d) x" if "keeps (todo u) k" "locals u k = Some x" for k x
      using held_var [OF ok _ that] u sub False by blast
    then show ?thesis by (intro worker_ok_other [OF old i(2) len]) (use held [OF u] watch in blast)+
  qed
  moreover have less: "total_left d' + 1 \<le> total_left d" using total_left_update [OF i(1,3)] room(2) by linarith
  then have "total_left d' * (2 * chunk_stride 1024) + 2 * chunk_stride 1024 \<le> total_left d * (2 * chunk_stride 1024)"
    using mult_le_mono1 [OF less, of "2 * chunk_stride 1024"] by (simp add: algebra_simps)
  then have "unat (brk (vm_memory (virtual_machine d'))) + total_left d' * (2 * chunk_stride 1024) < 2 ^ 64"
    using room(1) ok unfolding driver_ok_def by linarith
  ultimately show ?thesis
    using sound' sh al cr i ok less by (simp add: driver_ok_def)
qed

section \<open>The calls\<close>

text \<open>A call that runs one reference operation on the heap.\<close>

lemma reference_call:
  assumes ok: "driver_ok d" and i: "i < length (workers d)" and w0: "workers d ! i = w0" "todo w0 = c # cs" "thread w0 \<noteq> None"
    and m: "m = vm_memory (virtual_machine d)"
    and sound': "sound (owns d') cc' (m\<lparr>heap := h'\<rparr>)" and d': "d' = (with_heap h' (d\<lparr>cycle_collector := cc', created_objects := cr\<rparr>))\<lparr>workers := (workers d)[i := w]\<rparr>"
    and sh: "shape (module_object d) h'" "filled 10 (module_object d) h'"
    and watch: "\<And>x. live_at h' x \<Longrightarrow> watched_at (driver_heap d) x \<Longrightarrow> watched_at h' x"
    and w: "todo w = cs" "thread w = thread w0" "rounds_left w = rounds_left w0" "carries_on c cs w0 w (module_object d) h'"
    and cr: "set cr \<subseteq> dom h'"
  shows "driver_ok d' \<and> total_left d' < total_left d"
proof (rule driver_ok_moved [OF ok])
  have hd: "driver_heap d' = h'" by (simp add: d' driver_heap_def with_heap_def)
  have w0in: "w0 \<in> set (workers d)" using i w0(1) by auto
  have w0ok: "worker_ok d w0" using driver_okD(5) [OF ok w0in] .
  show "moved_on i w d d'" using i by (simp add: moved_on_def d' with_heap_def)
  show "sound (owns d') (cycle_collector d') (vm_memory (virtual_machine d'))" using sound' m by (simp add: d' with_heap_def)
  show "shape (module_object d) (driver_heap d')" "filled 10 (module_object d) (driver_heap d')" using sh hd by simp_all
  show "alloc_fine (vm_heap_allocator (virtual_machine d')) (main_search_start d') (vm_memory (virtual_machine d'))"
    "\<forall>th \<in> set (threads (virtual_machine d')). alloc_fine (thread_allocator th) (allocator_search_start_index th) (vm_memory (virtual_machine d'))"
    using ok by (simp_all add: driver_ok_def d' with_heap_def)
  show "length (threads (virtual_machine d)) \<le> length (threads (virtual_machine d'))" by (simp add: d' with_heap_def)
  show "disciplined (todo w)" using w0ok w0(2) w(1) by (simp add: worker_ok_def)
  show "worker_ok d' w" if "\<And>k x. keeps (todo w) k \<Longrightarrow> locals w k = Some x \<Longrightarrow> live_at (driver_heap d') x"
    by (rule worker_ok_after [OF w0ok w0(2) w(1,2)]) (use that w(1,4) watch hd held_var [OF ok w0in] in \<open>simp_all add: d' with_heap_def\<close>)
  show "\<And>x. live_at (driver_heap d) x \<Longrightarrow> live_at (driver_heap d') x \<Longrightarrow> watched_at (driver_heap d) x \<Longrightarrow> watched_at (driver_heap d') x" using watch hd by simp
  show "set (created_objects d') \<subseteq> dom (driver_heap d')" using cr hd by (simp add: d' with_heap_def)
  show "unat (brk (vm_memory (virtual_machine d'))) \<le> unat (brk (vm_memory (virtual_machine d))) + 2 * chunk_stride 1024"
    by (simp add: d' with_heap_def)
  show "steps_left w < steps_left (workers d ! i)" using w w0 by (simp add: steps_left_def)
qed

text \<open>What the running worker knows of a variable it still has to give away.\<close>

lemma kept_var:
  assumes ok: "driver_ok d" and i: "i < length (workers d)" "workers d ! i = w0" and k: "keeps (todo w0) k"
  obtains x where "locals w0 k = Some x" "x \<noteq> nullptr" "x \<noteq> module_object d" "0 < owns d x" "live_at (driver_heap d) x"
    "is_parent (todo w0) k \<Longrightarrow> watched_at (driver_heap d) x" "\<And>j. j < 2 \<Longrightarrow> has_field (driver_heap d) x j"
proof -
  have w: "w0 \<in> set (workers d)" using i by auto
  then have "worker_ok d w0" using driver_okD(5) [OF ok] by blast
  then obtain x where x: "locals w0 k = Some x" "x \<noteq> nullptr" "x \<noteq> module_object d" "is_parent (todo w0) k \<Longrightarrow> watched_at (driver_heap d) x"
    using k unfolding worker_ok_def by metis
  have pos: "0 < owns d x" using owns_pos [OF driver_okD(8) [OF ok] w k x(1)] .
  then have l: "live_at (driver_heap d) x" using held_live [of "owns d" "cycle_collector d" "driver_heap d" x] driver_okD(7) [OF ok] by blast
  have "has_field (driver_heap d) x j" if "j < 2" for j
    using l driver_okD(2) [OF ok] x(3) that by (fastforce simp: live_at_def shape_def member_ok_def has_field_def)
  then show thesis using that x pos l by blast
qed

lemma module_field:
  assumes "driver_ok d" "i < 10"
  shows "has_field (driver_heap d) (module_object d) i"
  using driver_okD(2) [OF assms(1)] assms(2) by (auto simp: shape_def live_at_def has_field_def)

text \<open>One reference operation in the driver.\<close>

lemma driver_reference_op:
  assumes ok: "driver_ok d" and e: "entitled iter op (driver_heap d) (owns d)" "driver_op (module_object d) (driver_heap d) op"
    and M: "0 < holds_after op (driver_heap d) (owns d) (module_object d)"
  obtains cc' h' where "exec_op iter op (cycle_collector d) (driver_heap d) = Some (cc', h')" "dom h' = dom (driver_heap d)"
    "sound (holds_after op (driver_heap d) (owns d)) cc' ((vm_memory (virtual_machine d))\<lparr>heap := h'\<rparr>)"
    "shape (module_object d) h'" "filled 10 (module_object d) h'"
    "\<And>x. live_at h' x \<Longrightarrow> watched_at (driver_heap d) x \<Longrightarrow> watched_at h' x"
proof -
  have own: "\<forall>x. owns d x < 2 ^ 62" using driver_okD(9) [OF ok] by blast
  from shape_op [OF driver_okD(1) [OF ok] driver_okD(2) [OF ok, unfolded driver_heap_def] own
      e(1) [unfolded driver_heap_def] e(2) [unfolded driver_heap_def] M [unfolded driver_heap_def]]
  show thesis using driver_okD(3) [OF ok] that unfolding driver_heap_def by blast
qed

text \<open>A call without a result that gives its argument \<open>x\<close> away.\<close>

lemma giving_call:
  assumes ok: "driver_ok d" and i: "i < length (workers d)" and w0: "workers d ! i = w0" "todo w0 = c # cs" "thread w0 \<noteq> None"
    and k: "releases c = Some k" "acquires c = None" and x: "locals w0 k = Some x" "x \<noteq> nullptr" "x \<noteq> module_object d"
    and op: "entitled id op (driver_heap d) (owns d)" "driver_op (module_object d) (driver_heap d) op"
      "holds_after op (driver_heap d) (owns d) = lose x (owns d)"
    and run: "\<And>cc' h'. exec_op id op (cycle_collector d) (driver_heap d) = Some (cc', h') \<Longrightarrow> cc' = cycle_collector d \<and>
      exec_call c (w0\<lparr>todo := cs\<rparr>) d = Some (w0\<lparr>todo := cs\<rparr>, with_heap h' d)"
  shows "\<exists>w d'. exec_call c (w0\<lparr>todo := cs\<rparr>) d = Some (w, d') \<and>
    driver_ok (d'\<lparr>workers := (workers d)[i := w]\<rparr>) \<and> total_left (d'\<lparr>workers := (workers d)[i := w]\<rparr>) < total_left d \<and> workers d' = workers d"
proof -
  have "0 < lose x (owns d) (module_object d)" using driver_okD(10) [OF ok] x(3) by (simp add: lose_def)
  then obtain cc' h' where r: "exec_op id op (cycle_collector d) (driver_heap d) = Some (cc', h')" "dom h' = dom (driver_heap d)"
    "sound (lose x (owns d)) cc' ((vm_memory (virtual_machine d))\<lparr>heap := h'\<rparr>)"
    "shape (module_object d) h'" "filled 10 (module_object d) h'"
    "\<And>x. live_at h' x \<Longrightarrow> watched_at (driver_heap d) x \<Longrightarrow> watched_at h' x"
    by (rule driver_reference_op [OF ok op(1,2), unfolded op(3)]) blast
  note q = run [OF r(1)]
  let ?w = "w0\<lparr>todo := cs\<rparr>" and ?d = "with_heap h' d"
  let ?d' = "?d\<lparr>workers := (workers d)[i := ?w]\<rparr>"
  have m: "moved_on i ?w d ?d'" using i by (simp add: moved_on_def with_heap_def)
  have wok: "worker_ok d w0" using driver_okD(5) [OF ok] i w0(1) by (metis nth_mem)
  then have "\<not> keeps cs k" using w0(2) k by (simp add: worker_ok_def)
  then have own: "owns ?d' = lose x (owns d)"
    using owns_release [OF m w0(1,2) k _ x(1) _ _ x(2) driver_okD(8) [OF ok]] by simp
  have "carries_on c cs w0 ?w (module_object d) h'" using k(2) by (simp add: carries_on_def)
  moreover have "set (created_objects d) \<subseteq> dom h'" using driver_okD(6) [OF ok] r(2) by simp
  ultimately have "driver_ok ?d' \<and> total_left ?d' < total_left d"
    using r(3) own q by (intro reference_call [OF ok i w0 refl _ _ r(4,5,6), where cr = "created_objects d"]) (auto simp: with_heap_def)
  then show ?thesis using q by (intro exI [of _ ?w] exI [of _ ?d]) (simp add: with_heap_def)
qed

text \<open>One call of worker \<open>i\<close> keeps the invariant.\<close>

definition call_ok :: "driver \<Rightarrow> nat \<Rightarrow> (worker \<times> driver) option \<Rightarrow> bool" where
  "call_ok d i r \<longleftrightarrow> (\<exists>w d'. r = Some (w, d') \<and> driver_ok (d'\<lparr>workers := (workers d)[i := w]\<rparr>) \<and>
     total_left (d'\<lparr>workers := (workers d)[i := w]\<rparr>) < total_left d \<and> workers d' = workers d)"

lemma worker_okD:
  assumes "driver_ok d" "i < length (workers d)" "workers d ! i = w0" "todo w0 = c # cs"
  shows "in_bounds c" "k \<in> set (reads c) \<Longrightarrow> keeps (todo w0) k" "acquires c = Some k \<Longrightarrow> keeps cs k"
    "releases c = Some k \<Longrightarrow> \<not> keeps cs k" "c = Malloc k \<Longrightarrow> \<not> is_parent cs k"
    "thread w0 = Some t \<Longrightarrow> t < length (threads (virtual_machine d))"
proof -
  have "worker_ok d w0" using driver_okD(5) [OF assms(1)] assms(2,3) by (metis nth_mem)
  then show "in_bounds c" "k \<in> set (reads c) \<Longrightarrow> keeps (todo w0) k" "acquires c = Some k \<Longrightarrow> keeps cs k"
    "releases c = Some k \<Longrightarrow> \<not> keeps cs k" "c = Malloc k \<Longrightarrow> \<not> is_parent cs k"
    "thread w0 = Some t \<Longrightarrow> t < length (threads (virtual_machine d))"
    using assms(4) by (auto simp: worker_ok_def)
qed

lemma giving_calls_ok:
  assumes ok: "driver_ok d" and i: "i < length (workers d)" and w0: "workers d ! i = w0" "todo w0 = c # cs" "thread w0 \<noteq> None"
    and k: "releases c = Some k"
  shows "call_ok d i (exec_call c (w0\<lparr>todo := cs\<rparr>) d)"
proof -
  note wd = worker_okD [OF ok i w0(1,2)]
  have a: "acquires c = None" using k by (cases c) auto
  then have "keeps (todo w0) k" using k w0(2) by simp
  then obtain x where x: "locals w0 k = Some x" "x \<noteq> nullptr" "x \<noteq> module_object d" "0 < owns d x"
    by (rule kept_var [OF ok i w0(1)]) blast
  note give = giving_call [OF ok i w0 k a x(1-3)]
  show ?thesis unfolding call_ok_def
  proof (cases c)
    case (Into_module j l)
    then have "entitled id (Set_move (module_object d) j x) (driver_heap d) (owns d)"
      using x(4) driver_okD(10) [OF ok] module_field [OF ok] wd(1) by simp
    with give [of "Set_move (module_object d) j x"] show "\<exists>w d'. exec_call c (w0\<lparr>todo := cs\<rparr>) d = Some (w, d') \<and>
      driver_ok (d'\<lparr>workers := (workers d)[i := w]\<rparr>) \<and> total_left (d'\<lparr>workers := (workers d)[i := w]\<rparr>) < total_left d \<and> workers d' = workers d"
      using Into_module k x by auto
  next
    case (Store_move p j l)
    have "keeps (todo w0) p" using wd(2) Store_move by simp
    moreover have "is_parent (todo w0) p" using w0(2) Store_move by simp
    ultimately obtain y where y: "locals w0 p = Some y" "0 < owns d y" "watched_at (driver_heap d) y" "\<And>j. j < 2 \<Longrightarrow> has_field (driver_heap d) y j"
      by (elim kept_var [OF ok i w0(1)]) blast
    then have "entitled id (Set_move y j x) (driver_heap d) (owns d)" using x(4) wd(1) Store_move by simp
    with give [of "Set_move y j x"] show "\<exists>w d'. exec_call c (w0\<lparr>todo := cs\<rparr>) d = Some (w, d') \<and>
      driver_ok (d'\<lparr>workers := (workers d)[i := w]\<rparr>) \<and> total_left (d'\<lparr>workers := (workers d)[i := w]\<rparr>) < total_left d \<and> workers d' = workers d"
      using Store_move k x y by auto
  next
    case (Release l)
    then have "entitled id (Drop x) (driver_heap d) (owns d)" using x(4) by simp
    with give [of "Drop x"] show "\<exists>w d'. exec_call c (w0\<lparr>todo := cs\<rparr>) d = Some (w, d') \<and>
      driver_ok (d'\<lparr>workers := (workers d)[i := w]\<rparr>) \<and> total_left (d'\<lparr>workers := (workers d)[i := w]\<rparr>) < total_left d \<and> workers d' = workers d"
      using Release k x by auto
  qed (use k in auto)
qed

lemma call_okI:
  assumes "exec_call c (w0\<lparr>todo := cs\<rparr>) d = Some (w, d1)" "workers d1 = workers d"
    "driver_ok (d1\<lparr>workers := (workers d)[i := w]\<rparr>) \<and> total_left (d1\<lparr>workers := (workers d)[i := w]\<rparr>) < total_left d"
  shows "call_ok d i (exec_call c (w0\<lparr>todo := cs\<rparr>) d)"
  using assms unfolding call_ok_def by blast

lemma store_clone_ok:
  assumes ok: "driver_ok d" and i: "i < length (workers d)" and w0: "workers d ! i = w0" "todo w0 = Store_clone k j l # cs" "thread w0 \<noteq> None"
  shows "call_ok d i (exec_call (Store_clone k j l) (w0\<lparr>todo := cs\<rparr>) d)"
proof -
  note wd = worker_okD [OF ok i w0(1,2)]
  have "keeps (todo w0) k" "is_parent (todo w0) k" "keeps (todo w0) l" using wd(2) w0(2) by simp_all
  then obtain x y where x: "locals w0 l = Some x" "x \<noteq> nullptr" "x \<noteq> module_object d" "0 < owns d x"
    and y: "locals w0 k = Some y" "0 < owns d y" "watched_at (driver_heap d) y" "\<And>j. j < 2 \<Longrightarrow> has_field (driver_heap d) y j"
    by (elim kept_var [OF ok i w0(1)]) blast
  have e: "entitled id (Set_clone y j x) (driver_heap d) (owns d)" using x(4) y wd(1) by simp
  have dop: "driver_op (module_object d) (driver_heap d) (Set_clone y j x)" using x y by simp
  have "0 < owns d (module_object d)" using driver_okD(10) [OF ok] .
  then obtain cc' h' where r: "set_clone_object_field (cycle_collector d) (driver_heap d) y j x = Some (cc', h')" "dom h' = dom (driver_heap d)"
    "sound (owns d) cc' ((vm_memory (virtual_machine d))\<lparr>heap := h'\<rparr>)" "shape (module_object d) h'" "filled 10 (module_object d) h'"
    "\<And>x. live_at h' x \<Longrightarrow> watched_at (driver_heap d) x \<Longrightarrow> watched_at h' x"
    using driver_reference_op [OF ok e dop] by auto
  let ?w = "w0\<lparr>todo := cs\<rparr>" and ?d = "with_heap h' (d\<lparr>cycle_collector := cc'\<rparr>)"
  let ?d' = "?d\<lparr>workers := (workers d)[i := ?w]\<rparr>"
  have "moved_on i ?w d ?d'" using i by (simp add: moved_on_def with_heap_def)
  then have own: "owns ?d' = owns d" by (rule owns_same [OF _ w0(1)]) (simp_all add: w0(2))
  have "carries_on (Store_clone k j l) cs w0 ?w (module_object d) h'" by (simp add: carries_on_def)
  moreover have "set (created_objects d) \<subseteq> dom h'" using driver_okD(6) [OF ok] r(2) by simp
  ultimately have "driver_ok ?d' \<and> total_left ?d' < total_left d"
    using r(3) own by (intro reference_call [OF ok i w0 refl _ _ r(4,5,6), where cr = "created_objects d"]) (auto simp: with_heap_def)
  then show ?thesis using x y r(1) by (intro call_okI [where w = ?w and ?d1.0 = ?d]) (simp_all add: with_heap_def)
qed

lemma unlock_lock: "h p = Some ob \<Longrightarrow> \<not> lock_flag ob \<Longrightarrow> object_lock h p = Some h1 \<Longrightarrow> object_unlock h1 p = Some h"
  by (cases ob) (auto simp: heap_simps object_unlock_def fun_upd_idem)

lemma insert_created_ok:
  assumes ok: "driver_ok d" and i: "i < length (workers d)" and w0: "workers d ! i = w0" "todo w0 = Insert_created # cs" "thread w0 \<noteq> None"
  shows "call_ok d i (exec_call Insert_created (w0\<lparr>todo := cs\<rparr>) d)"
proof -
  note wd = worker_okD [OF ok i w0(1,2)]
  let ?M = "module_object d" and ?h = "driver_heap d"
  have var: "\<exists>x. locals w0 k = Some x \<and> live_at ?h x" if "k \<in> {1, 2, 3}" for k
    using kept_var [OF ok i w0(1) wd(2), of k] that by auto
  obtain x y z where x: "locals w0 1 = Some x" "live_at ?h x" and y: "locals w0 2 = Some y" "live_at ?h y" and z: "locals w0 3 = Some z" "live_at ?h z"
    using var [of 1] var [of 2] var [of 3] by auto
  obtain ob where ob: "?h ?M = Some ob" using driver_okD(2) [OF ok] by (auto simp: shape_def live_at_def)
  have "\<not> lock_flag ob" using driver_okD(7) [OF ok] ob by (auto simp: consistent_def gc_ok_def unlocked_def)
  note lock = object_lock_free [of ?h ?M ob, OF ob this] and unlock = unlock_lock [of ?h ?M ob, OF ob this object_lock_free [of ?h ?M ob, OF ob this]]
  let ?cr = "set_insert z (set_insert y (set_insert x (created_objects d)))"
  let ?w = "w0\<lparr>todo := cs\<rparr>" and ?d = "with_heap ?h (d\<lparr>created_objects := ?cr\<rparr>)"
  let ?d' = "?d\<lparr>workers := (workers d)[i := ?w]\<rparr>"
  have "moved_on i ?w d ?d'" using i by (simp add: moved_on_def with_heap_def)
  then have own: "owns ?d' = owns d" by (rule owns_same [OF _ w0(1)]) (simp_all add: w0(2))
  have "carries_on Insert_created cs w0 ?w ?M ?h" by (simp add: carries_on_def)
  moreover have "set ?cr \<subseteq> dom ?h" using driver_okD(6) [OF ok] x y z by (auto simp: set_insert_def live_at_def)
  ultimately have "driver_ok ?d' \<and> total_left ?d' < total_left d"
    using driver_okD(1) [OF ok] own
    by (intro reference_call [OF ok i w0 refl _ _ driver_okD(2,3) [OF ok], where cr = ?cr and cc' = "cycle_collector d"]) (auto simp: with_heap_def driver_heap_def)
  then show ?thesis using x y z lock unlock
    by (intro call_okI [where w = ?w and ?d1.0 = ?d]) (simp_all add: with_heap_def)
qed

lemma clone_from_module_ok:
  assumes ok: "driver_ok d" and i: "i < length (workers d)" and w0: "workers d ! i = w0" "todo w0 = Clone_from_module k j # cs" "thread w0 \<noteq> None"
  shows "call_ok d i (exec_call (Clone_from_module k j) (w0\<lparr>todo := cs\<rparr>) d)"
proof -
  note wd = worker_okD [OF ok i w0(1,2)]
  have own: "\<forall>x. owns d x < 2 ^ 62" using driver_okD(9) [OF ok] by blast
  obtain x cc' h' where r: "get_clone_object_field (cycle_collector d) (driver_heap d) (module_object d) j = Some (x, cc', h')" "x \<noteq> nullptr"
    "x \<noteq> module_object d" "dom h' = dom (driver_heap d)" "sound (gain x (owns d)) cc' ((vm_memory (virtual_machine d))\<lparr>heap := h'\<rparr>)"
    "shape (module_object d) h'" "filled 10 (module_object d) h'" "watched_at h' x"
    "\<And>x. live_at h' x \<Longrightarrow> watched_at (driver_heap d) x \<Longrightarrow> watched_at h' x"
    using clone_from_module [OF driver_okD(1) [OF ok] driver_okD(2,3) [OF ok, unfolded driver_heap_def] own driver_okD(10) [OF ok], of j] wd(1)
    unfolding driver_heap_def by auto
  let ?w = "w0\<lparr>todo := cs, locals := (locals w0)(k \<mapsto> x)\<rparr>" and ?d = "with_heap h' (d\<lparr>cycle_collector := cc'\<rparr>)"
  let ?d' = "?d\<lparr>workers := (workers d)[i := ?w]\<rparr>"
  have "moved_on i ?w d ?d'" using i by (simp add: moved_on_def with_heap_def)
  from owns_acquire [OF this w0(1,2) _ _ wd(3) _ _ r(2) driver_okD(8) [OF ok]]
  have own': "owns ?d' = gain x (owns d)" by simp
  have "carries_on (Clone_from_module k j) cs w0 ?w (module_object d) h'" using r(2,3,8) by (auto simp: carries_on_def)
  moreover have "set (created_objects d) \<subseteq> dom h'" using driver_okD(6) [OF ok] r(4) by simp
  ultimately have "driver_ok ?d' \<and> total_left ?d' < total_left d"
    using r(5) own' by (intro reference_call [OF ok i w0 refl _ _ r(6,7,9), where cr = "created_objects d"]) (auto simp: with_heap_def)
  then show ?thesis using r(1) by (intro call_okI [where w = ?w and ?d1.0 = ?d]) (simp_all add: with_heap_def)
qed

lemma total_left_pos: "i < length (workers d) \<Longrightarrow> steps_left (workers d ! i) \<le> total_left d"
  using member_le_sum_list [of "steps_left (workers d ! i)" "map steps_left (workers d)"] by (simp add: total_left_def)

lemma step_room:
  assumes ok: "driver_ok d" and i: "i < length (workers d)" "0 < steps_left (workers d ! i)"
  shows "unat (brk (vm_memory (virtual_machine d))) + 2 * chunk_stride 1024 < 2 ^ 64"
proof -
  have "1 \<le> total_left d" using total_left_pos [OF i(1)] i(2) by simp
  then have "2 * chunk_stride 1024 \<le> total_left d * (2 * chunk_stride 1024)" using mult_le_mono1 by fastforce
  then show ?thesis using ok unfolding driver_ok_def by linarith
qed

lemma malloc_call_ok:
  assumes ok: "driver_ok d" and i: "i < length (workers d)" and w0: "workers d ! i = w0" "todo w0 = Malloc k # cs" "thread w0 \<noteq> None"
  shows "call_ok d i (exec_call (Malloc k) (w0\<lparr>todo := cs\<rparr>) d)"
proof -
  note wd = worker_okD [OF ok i w0(1,2)]
  let ?m = "vm_memory (virtual_machine d)" and ?ths = "threads (virtual_machine d)" and ?M = "module_object d"
  obtain t where t: "thread w0 = Some t" "t < length ?ths" using w0(3) wd(6) by auto
  let ?th = "?ths ! t"
  have fine: "\<forall>th \<in> set ?ths. alloc_fine (thread_allocator th) (allocator_search_start_index th) ?m"
    "alloc_fine (vm_heap_allocator (virtual_machine d)) (main_search_start d) ?m" using ok by (simp_all add: driver_ok_def)
  have al: "alloc_fine (thread_allocator ?th) (allocator_search_start_index ?th) ?m" using fine(1) t(2) by simp
  have room: "unat (brk ?m) + chunk_stride 1024 < 2 ^ 64" using step_room [OF ok i] w0 by (simp add: steps_left_def)
  have three: "unat (3 :: u64) \<le> 59" by simp
  obtain al' m' a start' where r: "HeapAllocator_malloc main_cycling object_type2 3 (thread_allocator ?th) (allocator_search_start_index ?th) ?m = Some (al', m', a, start')"
    "sound (gain a (owns d)) (cycle_collector d) m'" "alloc_fine al' start' m'" "a \<noteq> nullptr" "\<not> live_at (heap ?m) a"
    "chunks_kept 1024 ?m m'" "dom (heap ?m) \<subseteq> dom (heap m')" "\<exists>ob. heap m' a = Some (fresh_object main_cycling object_type2 3 ob)"
    "\<forall>p. p \<noteq> a \<and> live_at (heap m') p \<longrightarrow> heap m' p = heap ?m p" "\<forall>p. live_at (heap ?m) p \<longrightarrow> heap m' p = heap ?m p"
    "unat (brk m') \<le> unat (brk ?m) + chunk_stride 1024"
    using driver_malloc [OF driver_okD(1) [OF ok] al room three, of object_type2] by blast
  note sh = shape_alloc [OF driver_okD(2,3) [OF ok, unfolded driver_heap_def] r(5,4,8) _ r(9,10)]
  let ?th' = "?th\<lparr>thread_allocator := al', allocator_search_start_index := start'\<rparr>"
  let ?d = "d\<lparr>virtual_machine := (virtual_machine d)\<lparr>threads := ?ths[t := ?th'], vm_memory := m'\<rparr>\<rparr>"
  let ?w = "w0\<lparr>todo := cs, locals := (locals w0)(k \<mapsto> a)\<rparr>"
  let ?d' = "?d\<lparr>workers := (workers d)[i := ?w]\<rparr>"
  have run: "exec_call (Malloc k) (w0\<lparr>todo := cs\<rparr>) d = Some (?w, ?d)"
    using t r(1) by (simp add: thread_malloc_def at_def put_def Let_def)
  have m: "moved_on i ?w d ?d'" using i by (simp add: moved_on_def)
  from owns_acquire [OF m w0(1,2) _ _ wd(3) _ _ r(4) driver_okD(8) [OF ok]]
  have own': "owns ?d' = gain a (owns d)" by simp
  have hd: "driver_heap ?d' = heap m'" by (simp add: driver_heap_def)
  have w0in: "w0 \<in> set (workers d)" using i w0(1) by auto
  have w0ok: "worker_ok d w0" using driver_okD(5) [OF ok w0in] .
  have watch: "watched_at (heap m') x" if "live_at (heap ?m) x" "watched_at (heap ?m) x" for x using sh(4) that by simp
  have "driver_ok ?d' \<and> total_left ?d' < total_left d"
  proof (rule driver_ok_moved [OF ok m])
    show "sound (owns ?d') (cycle_collector ?d') (vm_memory (virtual_machine ?d'))" using r(2) own' by simp
    show "shape ?M (driver_heap ?d')" "filled 10 ?M (driver_heap ?d')" using sh hd by simp_all
    show "alloc_fine (vm_heap_allocator (virtual_machine ?d')) (main_search_start ?d') (vm_memory (virtual_machine ?d'))"
      using alloc_fine_kept [OF fine(2) r(6)] by simp
    show "\<forall>th \<in> set (threads (virtual_machine ?d')). alloc_fine (thread_allocator th) (allocator_search_start_index th) (vm_memory (virtual_machine ?d'))"
      using alloc_fine_kept [OF _ r(6)] fine(1) r(3) set_update_subset_insert [of ?ths t ?th'] by auto
    show "length ?ths \<le> length (threads (virtual_machine ?d'))" by simp
    show "disciplined (todo ?w)" using w0ok w0(2) by (simp add: worker_ok_def)
    show "worker_ok ?d' ?w" if "\<And>k x. keeps (todo ?w) k \<Longrightarrow> locals ?w k = Some x \<Longrightarrow> live_at (driver_heap ?d') x"
    proof (rule worker_ok_after [OF w0ok w0(2)])
      show "carries_on (Malloc k) cs w0 ?w ?M (driver_heap ?d')" using wd(5) r(4) sh(3) by (auto simp: carries_on_def)
    qed (use that held_var [OF ok w0in] watch hd in \<open>simp_all add: driver_heap_def\<close>)
    show "\<And>x. live_at (driver_heap d) x \<Longrightarrow> live_at (driver_heap ?d') x \<Longrightarrow> watched_at (driver_heap d) x \<Longrightarrow> watched_at (driver_heap ?d') x"
      using watch hd by (simp add: driver_heap_def)
    show "set (created_objects ?d') \<subseteq> dom (driver_heap ?d')"
      using driver_okD(6) [OF ok] r(7) hd by (auto simp: driver_heap_def)
    show "unat (brk (vm_memory (virtual_machine ?d'))) \<le> unat (brk ?m) + 2 * chunk_stride 1024" using r(11) by simp
    show "steps_left ?w < steps_left (workers d ! i)" using w0 by (simp add: steps_left_def)
  qed
  then show ?thesis using run by (intro call_okI [where w = ?w and ?d1.0 = ?d]) simp_all
qed

lemma exec_call_ok:
  assumes "driver_ok d" "i < length (workers d)" "workers d ! i = w0" "todo w0 = c # cs" "thread w0 \<noteq> None"
  shows "call_ok d i (exec_call c (w0\<lparr>todo := cs\<rparr>) d)"
  using giving_calls_ok [OF assms] malloc_call_ok [OF assms(1-3) _ assms(5)] insert_created_ok [OF assms(1-3) _ assms(5)]
    clone_from_module_ok [OF assms(1-3) _ assms(5)] store_clone_ok [OF assms(1-3) _ assms(5)] assms(4)
  by (cases c) simp_all

section \<open>The steps of the threads\<close>

lemma start_ok:
  assumes ok: "driver_ok d" and i: "i < length (workers d)" and w0: "workers d ! i = w0" "thread w0 = None"
    and r: "func1_start here w0 d = (w, d1)"
  shows "workers d1 = workers d \<and> driver_ok (d1\<lparr>workers := (workers d)[i := w]\<rparr>) \<and> total_left (d1\<lparr>workers := (workers d)[i := w]\<rparr>) < total_left d"
proof -
  let ?m = "vm_memory (virtual_machine d)" and ?ths = "threads (virtual_machine d)"
  obtain al m' where new: "HeapAllocator_new False 1024 1 ?m = (al, m')" by fastforce
  have fine: "\<forall>th \<in> set ?ths. alloc_fine (thread_allocator th) (allocator_search_start_index th) ?m"
    "alloc_fine (vm_heap_allocator (virtual_machine d)) (main_search_start d) ?m" using ok by (simp_all add: driver_ok_def)
  have room: "unat (brk ?m) + 2 * chunk_stride 1024 < 2 ^ 64" using step_room [OF ok i] w0 by (simp add: steps_left_def)
  note n = new_allocator [OF driver_okD(1) [OF ok] room new]
  note sh = shape_grows [OF driver_okD(2,3) [OF ok, unfolded driver_heap_def] n(5,6)]
  have w: "w = w0\<lparr>thread := Some (length ?ths)\<rparr>" and d1: "workers d1 = workers d" "module_object d1 = module_object d"
    "cycle_collector d1 = cycle_collector d" "main_search_start d1 = main_search_start d" "created_objects d1 = created_objects d"
    "vm_memory (virtual_machine d1) = m'" "vm_heap_allocator (virtual_machine d1) = vm_heap_allocator (virtual_machine d)"
    and ths: "\<exists>th. threads (virtual_machine d1) = ?ths @ [th] \<and> thread_allocator th = al \<and> allocator_search_start_index th = 0"
    using r new by (auto simp: func1_start_def create_thread_def Let_def)
  let ?d' = "d1\<lparr>workers := (workers d)[i := w]\<rparr>"
  have m: "moved_on i w d ?d'" using i d1 by (simp add: moved_on_def)
  have own: "owns ?d' = owns d" by (rule owns_same [OF m w0(1)]) (simp_all add: w)
  have hd: "driver_heap ?d' = heap m'" by (simp add: driver_heap_def d1)
  have w0in: "w0 \<in> set (workers d)" using i w0(1) by auto
  have w0ok: "worker_ok d w0" using driver_okD(5) [OF ok w0in] .
  have t0: "todo w0 = []" using w0ok w0(2) by (simp add: worker_ok_def)
  have "driver_ok ?d' \<and> total_left ?d' < total_left d"
  proof (rule driver_ok_moved [OF ok m])
    show "sound (owns ?d') (cycle_collector ?d') (vm_memory (virtual_machine ?d'))" using n(1) own d1 by simp
    show "shape (module_object d) (driver_heap ?d')" "filled 10 (module_object d) (driver_heap ?d')" using sh hd by simp_all
    show "alloc_fine (vm_heap_allocator (virtual_machine ?d')) (main_search_start ?d') (vm_memory (virtual_machine ?d'))"
      using n(3) [OF fine(2)] d1 by simp
    show "\<forall>th \<in> set (threads (virtual_machine ?d')). alloc_fine (thread_allocator th) (allocator_search_start_index th) (vm_memory (virtual_machine ?d'))"
      using n(2,3) fine(1) d1 ths by auto
    show "length ?ths \<le> length (threads (virtual_machine ?d'))" using ths by auto
    show "disciplined (todo w)" using t0 w by simp
    show "worker_ok ?d' w" using t0 w ths by (auto simp: worker_ok_def)
    show "\<And>x. live_at (driver_heap d) x \<Longrightarrow> live_at (driver_heap ?d') x \<Longrightarrow> watched_at (driver_heap d) x \<Longrightarrow> watched_at (driver_heap ?d') x"
      using n(6) hd by (simp add: driver_heap_def watched_at_def)
    show "set (created_objects ?d') \<subseteq> dom (driver_heap ?d')"
      using driver_okD(6) [OF ok] n(4) hd d1 by (simp add: driver_heap_def)
    show "unat (brk (vm_memory (virtual_machine ?d'))) \<le> unat (brk ?m) + 2 * chunk_stride 1024" using n(7) d1 by simp
    show "steps_left w < steps_left (workers d ! i)" using w0 w by (simp add: steps_left_def)
  qed
  then show ?thesis using d1 by simp
qed

lemma round_ok:
  assumes ok: "driver_ok d" and i: "i < length (workers d)" and w0: "workers d ! i = w0" "thread w0 \<noteq> None" "todo w0 = []" "rounds_left w0 \<noteq> 0"
    and w: "w = w0\<lparr>todo := func1_round clock, rounds_left := rounds_left w0 - 1\<rparr>"
  shows "driver_ok (d\<lparr>workers := (workers d)[i := w]\<rparr>) \<and> total_left (d\<lparr>workers := (workers d)[i := w]\<rparr>) < total_left d"
proof (rule driver_ok_moved [OF ok])
  let ?d' = "d\<lparr>workers := (workers d)[i := w]\<rparr>"
  show m: "moved_on i w d ?d'" using i by (simp add: moved_on_def)
  have own: "owns ?d' = owns d" by (rule owns_same [OF m w0(1)]) (simp_all add: w w0(3) func1_round_disciplined)
  have w0in: "w0 \<in> set (workers d)" using i w0(1) by auto
  have w0ok: "worker_ok d w0" using driver_okD(5) [OF ok w0in] .
  show "sound (owns ?d') (cycle_collector ?d') (vm_memory (virtual_machine ?d'))" using driver_okD(1) [OF ok] own by simp
  show "shape (module_object d) (driver_heap ?d')" "filled 10 (module_object d) (driver_heap ?d')"
    using driver_okD(2,3) [OF ok] by (simp_all add: driver_heap_def)
  show "alloc_fine (vm_heap_allocator (virtual_machine ?d')) (main_search_start ?d') (vm_memory (virtual_machine ?d'))"
    "\<forall>th \<in> set (threads (virtual_machine ?d')). alloc_fine (thread_allocator th) (allocator_search_start_index th) (vm_memory (virtual_machine ?d'))"
    using ok by (simp_all add: driver_ok_def)
  show "disciplined (todo w)" by (simp add: w func1_round_disciplined)
  show "worker_ok ?d' w" using w0ok w0(2) by (auto simp: worker_ok_def w func1_round_disciplined)
  show "set (created_objects ?d') \<subseteq> dom (driver_heap ?d')" using driver_okD(6) [OF ok] by (simp add: driver_heap_def)
  show "steps_left w < steps_left (workers d ! i)"
    using w0 func1_round_disciplined(2) [of clock] by (cases "rounds_left w0") (simp_all add: steps_left_def w)
qed (simp_all add: driver_heap_def)

lemma worker_step_ok:
  assumes ok: "driver_ok d" and i: "i < length (workers d)" and f: "\<not> finished (workers d ! i)"
  shows "\<exists>d'. worker_step here clock i d = Some d' \<and> driver_ok d' \<and> total_left d' < total_left d"
proof -
  let ?w = "workers d ! i"
  consider "thread ?w = None" | c cs where "thread ?w \<noteq> None" "todo ?w = c # cs"
    | "thread ?w \<noteq> None" "todo ?w = []" "rounds_left ?w \<noteq> 0"
    using f by (cases "todo ?w") (auto simp: finished_def)
  then show ?thesis
  proof cases
    case 1
    obtain w d1 where r: "func1_start here ?w d = (w, d1)" by fastforce
    show ?thesis using start_ok [OF ok i refl 1 r] r 1 i by (simp add: worker_step_def at_def put_def)
  next
    case 2
    then show ?thesis using exec_call_ok [OF ok i refl 2(2,1)] i by (auto simp: call_ok_def worker_step_def at_def put_def)
  next
    case 3
    moreover obtain t where "thread ?w = Some t" using 3(1) by blast
    ultimately show ?thesis using round_ok [OF ok i refl 3 refl] i by (simp add: worker_step_def at_def put_def)
  qed
qed

lemma collect_step_ok:
  assumes ok: "driver_ok d" and iter: "iterates iter"
  shows "\<exists>d'. collect_step iter d = Some d' \<and> driver_ok d' \<and> total_left d' = total_left d \<and> workers d' = workers d"
proof -
  have M: "0 < owns d (module_object d)" using driver_okD(10) [OF ok] .
  have e: "entitled iter Collect (driver_heap d) (owns d)" "driver_op (module_object d) (driver_heap d) Collect" using iter by simp_all
  obtain cc' h' where r: "gc_collect iter (cycle_collector d) (driver_heap d) = Some (cc', h')" "dom h' = dom (driver_heap d)"
    "sound (owns d) cc' ((vm_memory (virtual_machine d))\<lparr>heap := h'\<rparr>)"
    "shape (module_object d) h'" "filled 10 (module_object d) h'"
    "\<And>x. live_at h' x \<Longrightarrow> watched_at (driver_heap d) x \<Longrightarrow> watched_at h' x"
    using driver_reference_op [OF ok e] M by auto
  let ?d' = "with_heap h' (d\<lparr>cycle_collector := cc'\<rparr>)"
  have hd: "driver_heap ?d' = h'" by (simp add: driver_heap_def with_heap_def)
  have own: "owns ?d' = owns d" by (simp add: owns_def borrows_def with_heap_def fun_eq_iff)
  have held: "live_at h' x" if "u \<in> set (workers d)" "keeps (todo u) k" "locals u k = Some x" for u k x
    using owns_pos [OF driver_okD(8) [OF ok] that] r(3) held_live [of "owns d" cc' h' x] by (simp add: sound_def)
  have "worker_ok ?d' u" if u: "u \<in> set (workers d)" for u
    by (rule worker_ok_other [OF driver_okD(5) [OF ok u]])
      (use held [OF u] held_var [OF ok u] r(6) hd in \<open>auto simp: with_heap_def\<close>)
  moreover have "total_left ?d' = total_left d" by (simp add: total_left_def with_heap_def)
  ultimately have "driver_ok ?d'"
    using ok r(2-5) own hd unfolding driver_ok_def by (simp add: with_heap_def)
  then show ?thesis using r(1) \<open>total_left ?d' = total_left d\<close>
    by (intro exI [of _ ?d']) (simp add: collect_step_def with_heap_def)
qed

end
