(* ===== verification/Driver_Correct.thy ===== *)
theory Driver_Correct
  imports Driver_Steps
begin

text \<open>
  The stress program from its setup to its end: it never fails, and everything is reclaimed.
\<close>

section \<open>Setting up\<close>









section \<open>The end of the test\<close>




section \<open>Runs\<close>






section \<open>Properties\<close>




section \<open>Witnesses\<close>





end
