(* ===== verification/Sample_Text.thy ===== *)
theory Sample_Text
  imports Loaded_Modules "HOL-Library.Code_Target_Nat"
begin

text \<open>
  The module text at the end of \<^verbatim>\<open>main\<close> in \<^verbatim>\<open>src/CatLa.cpp\<close>, and what the parser makes of
  it. The text is read line by line: each line is evaluated by itself, the rest of the text stays
  a variable.
\<close>

section \<open>The text\<close>

text \<open>The lines of the literal, all but the last of which end with a line break.\<close>

definition sample_lines :: "string list" where
  "sample_lines =
    [''$const'',
     ''  0:4:s#nyan'',
     ''  1:2:i#20'',
     ''  2:3:i#100'',
     ''  3:4:i#1000'',
     ''  4:9:s#TestClass'',
     ''  5:10:s#TestClass2'',
     ''  6:1:s#a'',
     ''  7:1:s#b'',
     ''  8:1:s#c'',
     ''$end'',
     '''',
     ''$import'',
     ''  0:this'',
     ''$end'',
     '''',
     ''$typedef'',
     ''  4:(6:i64,7:0:5):0:5'',
     ''  5:(8:i64)'',
     ''$end'',
     '''',
     ''$type'',
     ''  0:0:4'',
     ''  1:0:5'',
     ''$end'',
     '''',
     ''$function'',
     ''  0:0:var:0:reg:5(0:i64,1:i64,2:i64,3:type#0)->i64{'',
     ''    label:entry'',
     ''      reg#0 = arg,0'',
     ''      reg#1 = arg,1'',
     ''      reg#2 = iadd,i64,reg#0,reg#1'',
     ''      reg#3 = arg,2'',
     ''      reg#4 = iadd,i64,reg#2,reg#3'',
     ''      ret,reg#4'',
     ''    label:end'',
     ''  }'']"

definition on_line :: "string \<Rightarrow> string \<Rightarrow> string" where
  "on_line l rest = l @ newline # rest"

definition sample_code :: string where
  "sample_code = foldr on_line sample_lines ''$end''"

text \<open>A line as the scanner sees it.\<close>

definition squeeze :: "string \<Rightarrow> string" where
  "squeeze l = filter (\<lambda>c. c \<noteq> CHR '' '') l"

definition one_line :: "string \<Rightarrow> bool" where
  "one_line l \<longleftrightarrow> newline \<notin> set l"

lemma on_line_not_Nil [simp]: "on_line l rest \<noteq> []"
  by (simp add: on_line_def)

lemma scan_line: "one_line l \<Longrightarrow> move_until_next_line (on_line l rest) = (squeeze l, rest)"
  unfolding on_line_def one_line_def by (induction l) (auto simp: squeeze_def)

lemma scan_mark:
  assumes "set pre \<inter> set HASH_MARK = {}"
  shows "move_until HASH_MARK (pre @ CHR ''#'' # rest) = (squeeze pre, CHR ''#'' # rest)"
proof -
  have "move_until_from HASH_MARK start (pre @ CHR ''#'' # rest) = (squeeze pre, CHR ''#'' # rest)" for start
    using assms by (induction pre) (auto simp: squeeze_def HASH_MARK_def)
  then show ?thesis by (simp add: move_until_def)
qed

lemma next_entry_on_line:
  assumes "one_line l"
  shows "next_entry m (on_line l rest) =
    (if squeeze l = m then (None, rest) else if squeeze l = [] then next_entry m rest else (Some (squeeze l), rest))"
  using scan_line [OF assms] by (subst next_entry.simps) simp

lemma parse_loop_on_line:
  assumes "one_line l"
  shows "parse_loop stod name (on_line l rest) st =
    and_then (parse_section stod name (squeeze l) rest st) (\<lambda>(st', rest'). parse_loop stod name rest' st')"
  using scan_line [OF assms] by (subst parse_loop.simps) simp

lemma parse_const_loop_end:
  assumes "one_line l" "squeeze l = ''$end''"
  shows "parse_const_loop stod (on_line l rest) m mx = Inr (m, mx, rest)"
  using scan_line [OF assms(1)] assms(2) by (subst parse_const_loop.simps) simp

lemma parse_const_loop_on_line:
  assumes "one_line (pre @ CHR ''#'' # post)" "set pre \<inter> set HASH_MARK = {}"
    "regex_match [number, Lit '':'', number, Lit '':'', Rep Word_char 1 (Some 1)] (squeeze pre) = Some [i, n, [t]]"
    "stoull i = Inr index" "stoull n = Inr bytes" "unat bytes = length post" "const_value stod bytes t post = Inr c"
  shows "parse_const_loop stod (on_line (pre @ CHR ''#'' # post) rest) m mx = parse_const_loop stod rest ((index, c) # m) (max_of index mx)"
proof -
  let ?l = "pre @ CHR ''#'' # post"
  have l: "move_until_next_line (on_line ?l rest) = (squeeze ?l, rest)" by (rule scan_line [OF assms(1)])
  have w: "move_until HASH_MARK (on_line ?l rest) = (squeeze pre, CHR ''#'' # post @ newline # rest)"
    using scan_mark [OF assms(2)] by (simp add: on_line_def)
  have "CHR ''#'' \<in> set (squeeze ?l)" by (simp add: squeeze_def)
  then have "squeeze ?l \<noteq> ''$end''" "squeeze ?l \<noteq> []" by auto
  moreover have "parse_const_entry stod (squeeze pre) (CHR ''#'' # post @ newline # rest) = Inr (index, c, rest)"
    unfolding parse_const_entry_def assms(3) using assms(4-) by simp
  ultimately show ?thesis using l w by (subst parse_const_loop.simps) simp
qed

section \<open>The constants\<close>

definition string_const :: "string \<Rightarrow> ConstValue" where
  "string_const s = \<lparr>const_byte_size = of_nat (length s), const_type = CHR ''s'', value_reference = bytes_of s\<rparr>"

definition integer_const :: "u64 \<Rightarrow> u64 \<Rightarrow> ConstValue" where
  "integer_const n v = \<lparr>const_byte_size = n, const_type = CHR ''i'', value_reference = bytes_of_u64 v\<rparr>"

definition sample_consts :: "ConstValue list" where
  "sample_consts =
     [string_const ''nyan'',
      integer_const 2 20, integer_const 3 100, integer_const 4 1000,
      string_const ''TestClass'', string_const ''TestClass2'', string_const ''a'', string_const ''b'', string_const ''c'']"

text \<open>A line of this section: the text before the hash mark, the letter of its type, the bytes of the value.\<close>

definition const_line :: "string \<Rightarrow> char \<Rightarrow> string \<Rightarrow> u64 \<Rightarrow> bool" where
  "const_line pre t post index \<longleftrightarrow> one_line (pre @ CHR ''#'' # post) \<and> list_all (\<lambda>c. c \<notin> set HASH_MARK) pre \<and>
     (case regex_match [number, Lit '':'', number, Lit '':'', Rep Word_char 1 (Some 1)] (squeeze pre) of
        Some [i, n, u] \<Rightarrow> u = [t] \<and> stoull i = Inr index \<and> stoull n = Inr (of_nat (length post)) \<and> length post < 100
      | _ \<Rightarrow> False)"

lemma const_line_read:
  assumes "const_line pre t post index" "const_value stod (of_nat (length post)) t post = Inr c"
  shows "parse_const_loop stod (on_line (pre @ CHR ''#'' # post) rest) m mx = parse_const_loop stod rest ((index, c) # m) (max_of index mx)"
proof -
  obtain i n where a: "one_line (pre @ CHR ''#'' # post)" "list_all (\<lambda>c. c \<notin> set HASH_MARK) pre"
    "regex_match [number, Lit '':'', number, Lit '':'', Rep Word_char 1 (Some 1)] (squeeze pre) = Some [i, n, [t]]"
    "stoull i = Inr index" "stoull n = Inr (of_nat (length post))" "length post < 100"
    using assms(1) unfolding const_line_def by (auto split: option.splits list.splits)
  have "set pre \<inter> set HASH_MARK = {}" using a(2) by (auto simp: list_all_iff)
  from parse_const_loop_on_line [OF a(1) this a(3-5) _ assms(2)] a(6) show ?thesis by (simp add: unat_of_nat_id)
qed

lemma string_line:
  "const_line pre CHR ''s'' post index \<Longrightarrow> parse_const_loop stod (on_line (pre @ CHR ''#'' # post) rest) m mx =
     parse_const_loop stod rest ((index, string_const post) # m) (max_of index mx)"
  by (erule const_line_read) (simp add: const_value_def string_const_def)

lemma integer_line:
  "const_line pre CHR ''i'' post index \<Longrightarrow> stoll post = Inr v \<Longrightarrow> parse_const_loop stod (on_line (pre @ CHR ''#'' # post) rest) m mx =
     parse_const_loop stod rest ((index, integer_const (of_nat (length post)) v) # m) (max_of index mx)"
  by (erule const_line_read) (simp add: const_value_def integer_const_def)

lemma string_lines:
  "const_line ''  0:4:s'' CHR ''s'' ''nyan'' 0" "const_line ''  4:9:s'' CHR ''s'' ''TestClass'' 4"
  "const_line ''  5:10:s'' CHR ''s'' ''TestClass2'' 5" "const_line ''  6:1:s'' CHR ''s'' ''a'' 6"
  "const_line ''  7:1:s'' CHR ''s'' ''b'' 7" "const_line ''  8:1:s'' CHR ''s'' ''c'' 8"
  by code_simp+

lemma integer_lines:
  "const_line ''  1:2:i'' CHR ''i'' ''20'' 1 \<and> stoll ''20'' = Inr 20"
  "const_line ''  2:3:i'' CHR ''i'' ''100'' 2 \<and> stoll ''100'' = Inr 100"
  "const_line ''  3:4:i'' CHR ''i'' ''1000'' 3 \<and> stoll ''1000'' = Inr 1000"
  by code_simp+

lemmas const_lines = string_lines [THEN string_line, simplified]
  integer_line [OF integer_lines(1) [THEN conjunct1] integer_lines(1) [THEN conjunct2], simplified]
  integer_line [OF integer_lines(2) [THEN conjunct1] integer_lines(2) [THEN conjunct2], simplified]
  integer_line [OF integer_lines(3) [THEN conjunct1] integer_lines(3) [THEN conjunct2], simplified]

lemma const_section:
  "parse_const stod (foldr on_line (take 10 (drop 1 sample_lines)) rest) = Inr (sample_consts, rest)"
proof -
  have "collect [(8, v8), (7, v7), (6, v6), (5, v5), (4, v4), (3, v3), (2, v2), (1, v1), (0, v0)] 8 = Inr [v0, v1, v2, v3, v4, v5, v6, v7, v8]"
    for v0 v1 v2 v3 v4 v5 v6 v7 v8 :: ConstValue by (simp add: collect_def upt_conv_Cons)
  moreover have "one_line ''$end''" "squeeze ''$end'' = ''$end''" by code_simp+
  ultimately show ?thesis
    by (simp add: parse_const_def sample_lines_def const_lines parse_const_loop_end max_of_def sample_consts_def)
qed

section \<open>Imports, classes, types in use\<close>

lemma import_section:
  "parse_import ''test'' cvs (foldr on_line (take 2 (drop 13 sample_lines)) rest) = Inr ([''test''], rest)"
proof -
  have "one_line ''  0:this''" "parse_import_line ''test'' cvs (squeeze ''  0:this'') = Inr (0, ''test'')" "squeeze ''  0:this'' = ''0:this''"
    "one_line ''$end''" "squeeze ''$end'' = ''$end''" by code_simp+
  then show ?thesis
    by (simp add: parse_import_def sample_lines_def next_entry_on_line parse_entries.simps max_of_def collect_def)
qed

lemma end_line: "one_line ''$end''" "squeeze ''$end'' = ''$end''"
  by code_simp+

definition sample_types :: "Type list" where
  "sample_types =
     [Type_new None ''TestClass'' 0
        [\<lparr>info_field_name = ''6'', field_primitive_type = Some i64, user_def_type = \<lparr>import_index = 0, info_type_name = ''''\<rparr>\<rparr>,
         \<lparr>info_field_name = ''7'', field_primitive_type = None, user_def_type = \<lparr>import_index = 0, info_type_name = ''TestClass2''\<rparr>\<rparr>]
        \<lparr>import_index = 0, info_type_name = ''TestClass2''\<rparr>,
      Type_new None ''TestClass2'' 0
        [\<lparr>info_field_name = ''8'', field_primitive_type = Some i64, user_def_type = \<lparr>import_index = 0, info_type_name = ''''\<rparr>\<rparr>]
        \<lparr>import_index = 0, info_type_name = ''''\<rparr>]"

lemma typedef_lines:
  "one_line ''  4:(6:i64,7:0:5):0:5'' \<and>
     parse_type_define_line sample_consts (squeeze ''  4:(6:i64,7:0:5):0:5'') = Inr (sample_types ! 0)"
  "one_line ''  5:(8:i64)'' \<and> parse_type_define_line sample_consts (squeeze ''  5:(8:i64)'') = Inr (sample_types ! 1)"
  "squeeze ''  4:(6:i64,7:0:5):0:5'' = ''4:(6:i64,7:0:5):0:5''" "squeeze ''  5:(8:i64)'' = ''5:(8:i64)''"
  by code_simp+

lemma sample_types_nth: "[sample_types ! 0, sample_types ! Suc 0] = sample_types"
  by (simp add: sample_types_def)

lemma typedef_section:
  "parse_type_define sample_consts (foldr on_line (take 3 (drop 17 sample_lines)) rest) = Inr (sample_types, rest)"
  using typedef_lines by (simp add: sample_lines_def next_entry_on_line parse_type_define.simps end_line sample_types_nth)

text \<open>The names of these types are the texts of the constants' numbers.\<close>

definition sample_using :: "TypeInfo list" where
  "sample_using = [\<lparr>import_index = 0, info_type_name = ''4''\<rparr>, \<lparr>import_index = 0, info_type_name = ''5''\<rparr>]"

lemma type_lines:
  "one_line ''  0:0:4'' \<and> parse_type_line (squeeze ''  0:0:4'') = Inr (0, sample_using ! 0)"
  "one_line ''  1:0:5'' \<and> parse_type_line (squeeze ''  1:0:5'') = Inr (1, sample_using ! 1)"
  "squeeze ''  0:0:4'' = ''0:0:4''" "squeeze ''  1:0:5'' = ''1:0:5''"
  by code_simp+

lemma type_section:
  "parse_type (foldr on_line (take 3 (drop 22 sample_lines)) rest) = Inr (sample_using, rest)"
  using type_lines by (simp add: parse_type_def sample_lines_def next_entry_on_line parse_entries.simps end_line max_of_def collect_def
      sample_using_def upt_conv_Cons)

section \<open>The function\<close>

definition sample_arguments :: "ArgumentInfo list" where
  "sample_arguments =
     [\<lparr>arg_primitive_type = Some i64, arg_type_index = 0\<rparr>, \<lparr>arg_primitive_type = Some i64, arg_type_index = 0\<rparr>,
      \<lparr>arg_primitive_type = Some i64, arg_type_index = 0\<rparr>, \<lparr>arg_primitive_type = None, arg_type_index = 0\<rparr>]"

definition sample_function :: Function where
  "sample_function = Function_new ''nyan'' 0 5
     [\<lparr>label_name = ''entry'', orders = [GetArgument 0 0, GetArgument 1 1, AddInteger i64 2 0 1, GetArgument 3 2,
         AddInteger i64 4 2 3, ReturnFunction 4]\<rparr>]
     \<lparr>arg_primitive_type = Some i64, arg_type_index = 0\<rparr>
     sample_arguments"

definition order_line :: "string \<Rightarrow> Order \<Rightarrow> bool" where
  "order_line l order \<longleftrightarrow> one_line l \<and> squeeze l \<noteq> ''label:end'' \<and> squeeze l \<noteq> [] \<and> parse_order_line sample_consts (squeeze l) = Inr order"

lemma order_line_read:
  "order_line l order \<Longrightarrow> parse_orders sample_consts (on_line l code) =
     and_then (parse_orders sample_consts code) (\<lambda>(os, rest). Inr (order # os, rest))"
  by (subst parse_orders.simps) (simp add: order_line_def next_entry_on_line)

lemma order_lines:
  "order_line ''      reg#0 = arg,0'' (GetArgument 0 0)"
  "order_line ''      reg#1 = arg,1'' (GetArgument 1 1)"
  "order_line ''      reg#2 = iadd,i64,reg#0,reg#1'' (AddInteger i64 2 0 1)"
  "order_line ''      reg#3 = arg,2'' (GetArgument 3 2)"
  "order_line ''      reg#4 = iadd,i64,reg#2,reg#3'' (AddInteger i64 4 2 3)"
  "order_line ''      ret,reg#4'' (ReturnFunction 4)"
  by code_simp+

lemma block_lines:
  "one_line ''    label:entry'' \<and> squeeze ''    label:entry'' = ''label:entry''"
  "regex_match [Lit ''label:'', name_chars] ''label:entry'' = Some [''entry'']"
  "one_line ''    label:end'' \<and> squeeze ''    label:end'' = ''label:end''"
  "one_line ''  }'' \<and> squeeze ''  }'' = ''}''"
  by code_simp+

lemma header_text:
  "one_line ''  0:0:var:0:reg:5(0:i64,1:i64,2:i64,3:type#0)->i64{''"
  "squeeze ''  0:0:var:0:reg:5(0:i64,1:i64,2:i64,3:type#0)->i64{'' = ''0:0:var:0:reg:5(0:i64,1:i64,2:i64,3:type#0)->i64{''"
  by code_simp+

lemma header_match:
  "regex_match [number, Lit '':'', number, Lit '':var:'', number, Lit '':reg:'', number, Lit ''('',
     Rep Any 0 None, Lit '')->'', Rep Any 1 None, Lit ''{''] ''0:0:var:0:reg:5(0:i64,1:i64,2:i64,3:type#0)->i64{'' =
   Some [''0'', ''0'', ''0'', ''5'', ''0:i64,1:i64,2:i64,3:type#0'', ''i64'']"
  by code_simp

lemma header_arguments:
  "and_then (parse_arguments (tokens ''0:i64,1:i64,2:i64,3:type#0'') [] 0) (\<lambda>(m, mx). argument_list m mx) = Inr sample_arguments"
  "parse_argument_type ''i64'' = Inr \<lparr>arg_primitive_type = Some i64, arg_type_index = 0\<rparr>"
  "get_const_value_as_string sample_consts 0 = Inr ''nyan''" "stoull ''0'' = Inr 0" "stoull ''5'' = Inr 5"
  by code_simp+

lemma header_line:
  "parse_function_header sample_consts ''0:0:var:0:reg:5(0:i64,1:i64,2:i64,3:type#0)->i64{'' =
     Inr (0, \<lambda>blocks. Function_new ''nyan'' 0 5 blocks \<lparr>arg_primitive_type = Some i64, arg_type_index = 0\<rparr> sample_arguments)"
  using header_arguments unfolding parse_function_header_def header_match by (auto simp: and_then_Inr_iff)

lemma function_section:
  "parse_function sample_consts (foldr on_line (drop 27 sample_lines) ''$end'') = Inr ([sample_function], [])"
proof -
  have "next_entry ''$end'' ''$end'' = (None, [])" by code_simp
  then show ?thesis
    using block_lines header_text header_line by (simp add: parse_function_def parse_function_loop.simps parse_label_blocks.simps sample_lines_def
      order_lines [THEN order_line_read] parse_orders.simps [of _ "on_line ''    label:end'' _"] next_entry_on_line max_of_def collect_def sample_function_def
      del: regex_match.simps)
qed

section \<open>The module\<close>

definition sample_module :: Module where
  "sample_module = Module_new ''test'' sample_consts [''test''] sample_types sample_using [sample_function]"

lemma sample_code_sections:
  "sample_code =
     on_line ''$const'' (foldr on_line (take 10 (drop 1 sample_lines)) (on_line []
    (on_line ''$import'' (foldr on_line (take 2 (drop 13 sample_lines)) (on_line []
    (on_line ''$typedef'' (foldr on_line (take 3 (drop 17 sample_lines)) (on_line []
    (on_line ''$type'' (foldr on_line (take 3 (drop 22 sample_lines)) (on_line []
    (on_line ''$function'' (foldr on_line (drop 27 sample_lines) ''$end'')))))))))))))"
  by (simp add: sample_code_def sample_lines_def)

lemma section_lines:
  "one_line ''$const''" "one_line ''$import''" "one_line ''$typedef''" "one_line ''$type''" "one_line ''$function''" "one_line []"
  "squeeze ''$const'' = ''$const''" "squeeze ''$import'' = ''$import''" "squeeze ''$typedef'' = ''$typedef''"
  "squeeze ''$type'' = ''$type''" "squeeze ''$function'' = ''$function''" "squeeze [] = []"
  by code_simp+

lemma parse_sample: "parse stod ''test'' sample_code = Inr (Some sample_module)"
  unfolding parse_def sample_code_sections
  by (simp add: parse_loop_on_line section_lines parse_section_def const_section import_section typedef_section type_section
      function_section parse_loop.simps [of _ _ "[]"] sample_module_def del: take.simps drop.simps One_nat_def take_Cons_numeral drop_Cons_numeral foldr.simps)

end
