(* ===== verification/Sample_Program.thy ===== *)
theory Sample_Program
  imports Sample_Text Driver Allocator_Correct
begin

text \<open>
  The end of \<^verbatim>\<open>main\<close> in \<^verbatim>\<open>src/CatLa.cpp\<close>: the sample module is registered and loaded, and its
  function is called with the arguments 20, 30 and 40. The phases of the loader are followed one
  by one, with the module as each of them leaves it.
\<close>

section \<open>Loading\<close>

definition sample_fields :: "Field list" where
  "sample_fields = [\<lparr>field_name = ''6'', field_type = Some (PrimT i64)\<rparr>, \<lparr>field_name = ''7'', field_type = Some (DefT ''test'' 1)\<rparr>]"

definition sample_fields2 :: "Field list" where
  "sample_fields2 = [\<lparr>field_name = ''8'', field_type = Some (PrimT i64)\<rparr>]"

definition resolved_types :: "Type list" where
  "resolved_types =
     [(sample_types ! 0)\<lparr>parent := Some (DefT ''test'' 1), add_fields := sample_fields\<rparr>,
      (sample_types ! 1)\<lparr>add_fields := sample_fields2\<rparr>]"

definition laid_out_types :: "Type list" where
  "laid_out_types =
     [(resolved_types ! 0)\<lparr>all_fields := sample_fields2 @ sample_fields, reference_fields := Some [4]\<rparr>,
      (resolved_types ! 1)\<lparr>all_fields := sample_fields2, reference_fields := Some [0]\<rparr>]"

abbreviation with_imports :: "Type list \<Rightarrow> Module" where
  "with_imports types \<equiv> sample_module\<lparr>import_modules := [''test''], type_defines := types\<rparr>"

lemma phase1: "for_each resolve_imports [''test''] (ms(''test'' \<mapsto> sample_module)) = Inr (Next (ms(''test'' \<mapsto> with_imports sample_types)))"
  by (simp add: resolve_imports_def resolve_import_def defined_def sample_module_def Module_new_def)

lemma phase2: "for_each (for_types resolve_type) [''test''] (ms(''test'' \<mapsto> with_imports sample_types)) = Inr (Next (ms(''test'' \<mapsto> with_imports resolved_types)))"
  by (simp add: for_types_def resolve_type_def defined_def sample_module_def Module_new_def sample_types_def Type_new_def
     upt_conv_Cons nth_or_def resolve_field_def imported_type_def lookup_type_def get_from_primitive_type_def update_type_def resolved_types_def sample_fields_def sample_fields2_def
    )


lemma chain_simps:
  "parent_chain ms None seen = Some (Some seen)"
  "t \<notin> set seen \<Longrightarrow> type_at ms t = Some type \<Longrightarrow> parent_chain ms (Some t) seen = parent_chain ms (parent type) (seen @ [t])"
  by (simp_all add: parent_chain.simps [of ms None] parent_chain.simps [of ms "Some t"])

lemma sample_bits:
  "set_flag (create_bitset 3) 2 True = Some [4]" "create_bitset (Suc 0) = [0]"
  by code_simp+

definition half_types :: "Type list" where
  "half_types = [laid_out_types ! 0, resolved_types ! 1]"

lemma type_at_sample: 
  "type_at (ms(''test'' \<mapsto> with_imports types)) (DefT ''test'' i) = at types i"
  "type_at ms' (PrimT p) = Some (primitive_Type p)"
  by (simp_all add: type_at_def sample_module_def Module_new_def)

lemma layout0: "layout_type ''test'' 0 (ms(''test'' \<mapsto> with_imports resolved_types)) = Inr (Next (ms(''test'' \<mapsto> with_imports half_types)))"
proof -
  let ?ms = "ms(''test'' \<mapsto> with_imports resolved_types)"
  have chain: "parent_chain ?ms (Some (DefT ''test'' 0)) [] = Some (Some [DefT ''test'' 0, DefT ''test'' 1])"
    by (simp add: chain_simps type_at_sample resolved_types_def at_def sample_types_def Type_new_def)
  have fields: "append_fields (concat (map (fields_of ?ms) (rev [DefT ''test'' 0, DefT ''test'' 1]))) [] (all_fields (resolved_types ! 0)) =
    (True, sample_fields2 @ sample_fields)"
    by (simp add: fields_of_def type_at_sample resolved_types_def at_def sample_types_def Type_new_def sample_fields_def sample_fields2_def)
  have types: "field_Type ?ms \<lparr>field_name = n, field_type = Some (PrimT p)\<rparr> = Some (primitive_Type p)"
    "field_Type ?ms \<lparr>field_name = n, field_type = Some (DefT ''test'' (Suc 0))\<rparr> = Some (resolved_types ! 1)" for n p
    by (simp_all add: field_Type_def type_at_sample at_def resolved_types_def)
  have kinds: "primitive_type (primitive_Type p) \<noteq> None" "primitive_type (resolved_types ! Suc 0) = None" for p
    by (simp_all add: primitive_Type_def Type_new_def resolved_types_def sample_types_def)
  have bits: "reference_bits ?ms (sample_fields2 @ sample_fields) = Inr [4]"
    unfolding reference_bits_def sample_fields_def sample_fields2_def
    by (simp add: defined_def is_reference_def upt_conv_Cons types kinds sample_bits [unfolded numeral_2_eq_2 numeral_3_eq_3])
  have "update_type 0 (\<lambda>t. t\<lparr>all_fields := sample_fields2 @ sample_fields, reference_fields := Some [4]\<rparr>) (with_imports resolved_types) =
    with_imports half_types" "resolved_types \<noteq> []"
    by (simp_all add: update_type_def half_types_def laid_out_types_def resolved_types_def)
  then show ?thesis using chain fields bits by (simp add: layout_type_def defined_def nth_or_def)
qed

lemma layout1: "layout_type ''test'' (Suc 0) (ms(''test'' \<mapsto> with_imports half_types)) = Inr (Next (ms(''test'' \<mapsto> with_imports laid_out_types)))"
proof -
  let ?ms = "ms(''test'' \<mapsto> with_imports half_types)"
  have chain: "parent_chain ?ms (Some (DefT ''test'' (Suc 0))) [] = Some (Some [DefT ''test'' (Suc 0)])"
    by (simp add: chain_simps type_at_sample half_types_def resolved_types_def at_def sample_types_def Type_new_def)
  have fields: "append_fields (fields_of ?ms (DefT ''test'' (Suc 0))) [] (all_fields (half_types ! Suc 0)) = (True, sample_fields2)"
    by (simp add: fields_of_def type_at_sample half_types_def resolved_types_def at_def sample_types_def Type_new_def sample_fields2_def)
  have kinds: "primitive_type (primitive_Type p) \<noteq> None" for p by (simp add: primitive_Type_def Type_new_def)
  have bits: "reference_bits ?ms sample_fields2 = Inr [0]"
    unfolding reference_bits_def sample_fields2_def
    by (simp add: defined_def is_reference_def field_Type_def type_at_sample upt_conv_Cons kinds sample_bits)
  have "update_type (Suc 0) (\<lambda>t. t\<lparr>all_fields := sample_fields2, reference_fields := Some [0]\<rparr>) (with_imports half_types) =
    with_imports laid_out_types" "Suc 0 < length half_types"
    by (simp_all add: update_type_def half_types_def laid_out_types_def)
  then show ?thesis using chain fields bits by (simp add: layout_type_def defined_def nth_or_def)
qed

lemma phase3: "for_each (for_types layout_type) [''test''] (ms(''test'' \<mapsto> with_imports resolved_types)) =
  Inr (Next (ms(''test'' \<mapsto> with_imports laid_out_types)))"
proof -
  have "length resolved_types = 2" by (simp add: resolved_types_def)
  then show ?thesis by (simp add: for_types_def defined_def upt_conv_Cons layout0 layout1)
qed

abbreviation with_types :: "Function \<Rightarrow> Module" where
  "with_types function \<equiv> (with_imports laid_out_types)\<lparr>using_types := [None, None], mod_functions := [function]\<rparr>"

lemma phase4: "for_each resolve_using_types [''test''] (ms(''test'' \<mapsto> with_imports laid_out_types)) =
  Inr (Next (ms(''test'' \<mapsto> with_types sample_function)))"
  by (simp add: resolve_using_types_def defined_def imported_type_def nth_or_def sample_module_def Module_new_def sample_using_def
      lookup_type_def sample_types_def Type_new_def)

definition linked_function :: Function where
  "linked_function = sample_function\<lparr>return_type := Some (PrimT i64),
     argument_types := [Some (PrimT i64), Some (PrimT i64), Some (PrimT i64), None]\<rparr>"

lemma phase5: "for_each resolve_functions [''test''] (ms(''test'' \<mapsto> with_types sample_function)) =
  Inr (Next (ms(''test'' \<mapsto> with_types linked_function)))"
  by (simp add: resolve_functions_def defined_def resolve_function_def argument_type_def linked_function_def sample_function_def
      Function_new_def sample_arguments_def get_from_primitive_type_def nth_or_def)

lemma phase6: "for_each allocate_module_fields [''test''] (vm\<lparr>loaded_module_map := ms(''test'' \<mapsto> with_types linked_function)\<rparr>) =
  Inr (Next (vm\<lparr>loaded_module_map := ms(''test'' \<mapsto> with_types linked_function)\<rparr>))"
  by (simp add: allocate_module_fields_def defined_def lookup_type_def sample_module_def Module_new_def sample_types_def Type_new_def)

lemma phase7: "for_each link_module [''test''] (ms(''test'' \<mapsto> with_types linked_function)) =
  Inr (Next (ms(''test'' \<mapsto> with_types linked_function)))"
  by (simp add: link_module_def defined_def link_function_def linked_function_def sample_function_def Function_new_def link_block_def)


section \<open>The end of \<open>main\<close>\<close>

text \<open>
  The array of arguments has one entry per declared argument; the last one is never written. A
  null module, which \<^verbatim>\<open>main\<close> only reports before it uses it, is \<open>None\<close>.
\<close>

definition main_sample :: "(string \<Rightarrow> u64 result) \<Rightarrow> (string list \<Rightarrow> nat) \<Rightarrow> (string list \<Rightarrow> string list) \<Rightarrow>
    (type_ptr \<Rightarrow> bool) \<Rightarrow> u32 \<Rightarrow> (nat \<Rightarrow> u64) \<Rightarrow> u64 \<Rightarrow> CatVM \<Rightarrow> (u64 \<times> CatVM) option" where
  "main_sample stod pick iter cyc junk uninit here vm =
     (case load_module stod pick iter ''test'' (pre_load_module ''test'' sample_code vm) of
        Inr (Some name, vm) \<Rightarrow>
          do { let (thread, vm) = create_thread 1024 here vm;
               md \<leftarrow> loaded_module_map vm name;
               function \<leftarrow> at (mod_functions md) 0;
               let arguments = map uninit [0..<length (argument_types function)];
               arguments \<leftarrow> put arguments 0 20;
               arguments \<leftarrow> put arguments 1 30;
               arguments \<leftarrow> put arguments 2 40;
               (result, thread, m) \<leftarrow> run_function cyc junk uninit thread md function arguments (vm_memory vm);
               ts \<leftarrow> put (threads vm) (length (threads vm) - 1) thread;
               Some (result, vm\<lparr>threads := ts, vm_memory := m\<rparr>) }
      | _ \<Rightarrow> None)"

definition loaded_sample :: Module where
  "loaded_sample = with_types linked_function"

lemma load_sample:
  assumes "loaded_module_map vm ''test'' = None" "iter [''test''] = [''test'']"
  shows "load_module stod pick iter ''test'' (pre_load_module ''test'' sample_code vm) =
    Inr (Some ''test'', (pre_load_module ''test'' sample_code vm)\<lparr>loaded_module_map := (loaded_module_map vm)(''test'' \<mapsto> loaded_sample)\<rparr>)"
proof -
  let ?vm = "pre_load_module ''test'' sample_code vm"
  have pre: "map_of (pre_loaded_module_map ?vm) ''test'' = Some sample_code" "loaded_module_map ?vm = loaded_module_map vm"
    by (simp_all add: pre_load_module_def update_conv')
  have code: "sample_code \<noteq> []" by (simp add: sample_code_sections)
  have imps: "import_module_names sample_module = [''test'']" by (simp add: sample_module_def Module_new_def)
  have read: "read_modules stod pick (pre_loaded_module_map ?vm) [''test''] [] (loaded_module_map vm) =
    Inr (Next ([''test''], (loaded_module_map vm)(''test'' \<mapsto> sample_module)))"
    using assms(1) pre(1) code imps parse_sample
    by (simp add: read_modules.simps [of _ _ _ "[''test'']"] read_modules.simps [of _ _ _ "[]"] current_of_def insert_name_def Let_def)
  show ?thesis using read assms(2) pre(2)
    by (simp add: load_module_def link_phases_def on_modules_def phase1 phase2 phase3 phase4 phase5 phase6 phase7 loaded_sample_def del: for_each.simps)
qed


lemma linked_function_simps:
  "label_blocks linked_function = [\<lparr>label_name = ''entry'', orders = [GetArgument 0 0, GetArgument 1 1, AddInteger i64 2 0 1,
     GetArgument 3 2, AddInteger i64 4 2 3, ReturnFunction 4]\<rparr>]"
  "registers_size linked_function = 5" "argument_types linked_function \<noteq> []"
  "map uninit [0..<length (argument_types linked_function)] = [uninit 0, uninit 1, uninit 2, uninit 3]"
  by (simp_all add: linked_function_def sample_function_def Function_new_def upt_conv_Cons eval_nat_numeral)

lemma run_sample:
  assumes "\<not> return_function t"
  shows "\<exists>t'. run_function cyc junk uninit t md linked_function [20, 30, 40, x] m = Some (90, t', m)"
proof -
  let ?f = linked_function and ?args = "[20, 30, 40, x :: u64]" and ?u = uninit
  let ?regs = "map uninit [0..<unat (registers_size ?f + 1)]"
  have regs: "?regs = [?u 0, ?u 1, ?u 2, ?u 3, ?u 4, ?u 5]" 
  proof -
    have "[0..<6] = [0, 1, 2, 3, 4, 5 :: nat]" by (simp add: upt_conv_Cons eval_nat_numeral)
    then show ?thesis by (simp add: linked_function_simps)
  qed
  note data = block_exec.Data [rotated]
  have "block_exec junk md ?args ?f [ReturnFunction 4] [20, 30, 50, 40, 90, ?u 5] [20, 30, 50, 40, 90, 90]"
    by (rule block_exec.Return [of _ _ 90]) (simp_all add: at_def put_def linked_function_simps)
  then have "block_exec junk md ?args ?f [AddInteger i64 4 2 3, ReturnFunction 4] [20, 30, 50, 40, ?u 4, ?u 5] [20, 30, 50, 40, 90, 90]"
    by (rule data) (simp add: at_def put_def)
  then have "block_exec junk md ?args ?f [GetArgument 3 2, AddInteger i64 4 2 3, ReturnFunction 4]
      [20, 30, 50, ?u 3, ?u 4, ?u 5] [20, 30, 50, 40, 90, 90]"
    by (rule data) (simp add: at_def put_def)
  then have "block_exec junk md ?args ?f [AddInteger i64 2 0 1, GetArgument 3 2, AddInteger i64 4 2 3, ReturnFunction 4]
      [20, 30, ?u 2, ?u 3, ?u 4, ?u 5] [20, 30, 50, 40, 90, 90]"
    by (rule data) (simp add: at_def put_def)
  then have "block_exec junk md ?args ?f [GetArgument 1 1, AddInteger i64 2 0 1, GetArgument 3 2, AddInteger i64 4 2 3, ReturnFunction 4]
      [20, ?u 1, ?u 2, ?u 3, ?u 4, ?u 5] [20, 30, 50, 40, 90, 90]"
    by (rule data) (simp add: at_def put_def)
  then have "block_exec junk md ?args ?f (orders (label_blocks ?f ! 0)) [?u 0, ?u 1, ?u 2, ?u 3, ?u 4, ?u 5] [20, 30, 50, 40, 90, 90]"
    unfolding linked_function_simps by simp (erule data, simp add: at_def put_def)
  then have run: "block_exec junk md ?args ?f (orders (label_blocks ?f ! 0)) ?regs [20, 30, 50, 40, 90, 90]"
    unfolding regs .
  have "pure_function ?f" by (simp add: pure_function_def linked_function_simps)
  from run_function_spec [OF this assms, of "label_blocks ?f ! 0" "[]" cyc junk uninit md ?args m 90 m] run show ?thesis
    by (auto simp: linked_function_simps at_def)
qed

text \<open>
  C40. The sample program. From any machine that has not loaded a module of that name, the sample
  text is parsed, its parent, field and argument types are resolved, it is laid out and linked,
  and the call of its function returns 20 + 30 + 40 = 90, whatever the uninitialised registers, the
  fourth argument and the stack contain; no other module is touched.
\<close>

theorem sample_program_result:
  assumes "loaded_module_map vm ''test'' = None" "iter [''test''] = [''test'']"
  shows "\<exists>vm'. main_sample stod pick iter cyc junk uninit here vm = Some (90, vm') \<and>
     loaded_module_map vm' = (loaded_module_map vm)(''test'' \<mapsto> loaded_sample)"
proof -
  have "mod_functions loaded_sample = [linked_function]" by (simp add: loaded_sample_def)
  moreover obtain al m where new: "HeapAllocator_new False 1024 1 (vm_memory vm) = (al, m)" by fastforce
  moreover obtain t vm1 where "create_thread 1024 here ((pre_load_module ''test'' sample_code vm)\<lparr>loaded_module_map := (loaded_module_map vm)(''test'' \<mapsto> loaded_sample)\<rparr>) = (t, vm1)"
    "\<not> return_function t" "vm_memory vm1 = m" "loaded_module_map vm1 = (loaded_module_map vm)(''test'' \<mapsto> loaded_sample)" "threads vm1 \<noteq> []"
    using new by (auto simp: create_thread_def pre_load_module_def Let_def)
  moreover obtain t' where "run_function cyc junk uninit t loaded_sample linked_function [20, 30, 40, uninit 3] m = Some (90, t', m)"
    using run_sample [OF \<open>\<not> return_function t\<close>] by blast
  ultimately show ?thesis
    by (simp add: main_sample_def load_sample [of vm iter, OF assms] at_def put_def linked_function_simps)
qed

theorem sample_program_result_witness:
  "\<exists>vm. main_sample (\<lambda>_. Inl invalid_argument) (\<lambda>_. 0) id (\<lambda>_. False) 7 (\<lambda>_. 99) 65536
     (setup_virtual_machine (initial_memory 4096)) = Some (90, vm)"
proof -
  have "loaded_module_map (setup_virtual_machine (initial_memory 4096)) ''test'' = None"
    by (simp add: setup_virtual_machine_def split: prod.split)
  from sample_program_result [OF this, of id "\<lambda>_. Inl invalid_argument" "\<lambda>_. 0" "\<lambda>_. False" 7 "\<lambda>_. 99" 65536]
  show ?thesis by auto
qed

end
