(* ===== verification/Object_Lists.thy ===== *)
theory Object_Lists
  imports Mutator Driver
begin

text \<open>
  The rest of \<^verbatim>\<open>src/CatLa.cpp\<close> that works on objects: the two lists of a million objects that
  \<^verbatim>\<open>main\<close> fills and exchanges after the stress test, and the helpers \<^verbatim>\<open>create\<close> (a binary tree
  of objects), \<^verbatim>\<open>test\<close> and \<^verbatim>\<open>create_random_map\<close>.
\<close>

section \<open>The list test\<close>

text \<open>\<^verbatim>\<open>calloc\<close> of a header and \<open>n\<close> fields.\<close>

definition new_list :: "nat \<Rightarrow> driver \<Rightarrow> addr \<times> driver" where
  "new_list n d =
     (let vm = virtual_machine d;
          (p, m) = calloc (sizeof_HeapObject + n * 8) (vm_memory vm);
          m = m\<lparr>heap := (heap m)(p \<mapsto> zero_object\<lparr>slots := replicate n nullptr\<rparr>)\<rparr>
      in (p, d\<lparr>virtual_machine := vm\<lparr>vm_memory := m\<rparr>\<rparr>))"

definition list_malloc :: "nat \<Rightarrow> driver \<Rightarrow> (addr \<times> nat \<times> driver) option" where
  "list_malloc start d =
     do { let vm = virtual_machine d;
          (al, m, object, start) \<leftarrow> HeapAllocator_malloc main_cycling object_type1 0 (vm_heap_allocator vm) start (vm_memory vm);
          Some (object, start, d\<lparr>virtual_machine := vm\<lparr>vm_heap_allocator := al, vm_memory := m\<rparr>\<rparr>) }"

fun fill_lists :: "nat list \<Rightarrow> addr \<Rightarrow> addr \<Rightarrow> nat \<Rightarrow> driver \<Rightarrow> driver option" where
  "fill_lists [] list1 list2 start d = Some d"
| "fill_lists (v # vs) list1 list2 start d =
     do { (object1, start, d) \<leftarrow> list_malloc start d;
          (object2, start, d) \<leftarrow> list_malloc start d;
          h \<leftarrow> set_object_field_atomic (driver_heap d) list1 v object1;
          h \<leftarrow> set_object_field_atomic h list2 v object2;
          fill_lists vs list1 list2 start (with_heap h d) }"

fun swap_lists :: "nat list \<Rightarrow> addr \<Rightarrow> addr \<Rightarrow> heap \<Rightarrow> heap option" where
  "swap_lists [] list1 list2 h = Some h"
| "swap_lists (v # vs) list1 list2 h =
     do { (object1, h) \<leftarrow> get_object_field_atomic h list1 v;
          (object2, h) \<leftarrow> get_object_field_atomic h list2 v;
          h \<leftarrow> set_object_field_atomic h list1 v object2;
          h \<leftarrow> set_object_field_atomic h list2 v object1;
          swap_lists vs list1 list2 h }"

definition list_test :: "driver \<Rightarrow> driver option" where
  "list_test d =
     do { let (list1, d) = new_list 1000000 d;
          let (list2, d) = new_list 1000000 d;
          d \<leftarrow> fill_lists [0..<1000000] list1 list2 0 d;
          h \<leftarrow> swap_lists [0..<1000000] list1 list2 (driver_heap d);
          Some (with_heap h d) }"

lemma set_atomic_run:
  "h p = Some ob \<Longrightarrow> \<not> lock_flag ob \<Longrightarrow> i < length (slots ob) \<Longrightarrow>
     set_object_field_atomic h p i x = Some (h(p \<mapsto> ob\<lparr>slots := (slots ob)[i := x]\<rparr>))"
  by (cases ob) (simp add: set_object_field_atomic_def heap_simps object_unlock_def get_object_field_def set_object_field_def at_def put_def)

text \<open>The second loop exchanges the contents of the lists and changes nothing else.\<close>

lemma swap_lists_from:
  assumes "h p = Some a" "h q = Some b" "p \<noteq> q" "\<not> lock_flag a" "\<not> lock_flag b" "length xs = length ys"
    and "slots a = take k ys @ drop k xs" "slots b = take k xs @ drop k ys" "k \<le> length xs"
    and "borrowed \<notin> set xs" "borrowed \<notin> set ys"
  shows "swap_lists [k..<length xs] p q h = Some (h(p \<mapsto> a\<lparr>slots := ys\<rparr>, q \<mapsto> b\<lparr>slots := xs\<rparr>))"
  using assms
proof (induction "length xs - k" arbitrary: k h a b)
  case 0
  then have "a\<lparr>slots := ys\<rparr> = a" "b\<lparr>slots := xs\<rparr> = b" by (cases a, simp, cases b, simp)
  then show ?case using 0 by (simp add: fun_upd_idem)
next
  case (Suc j)
  then have k: "k < length xs" "k < length ys" by simp_all
  let ?a = "a\<lparr>slots := (slots a)[k := ys ! k]\<rparr>" and ?b = "b\<lparr>slots := (slots b)[k := xs ! k]\<rparr>"
  let ?h = "h(p \<mapsto> ?a, q \<mapsto> ?b)"
  have nth: "slots a ! k = xs ! k" "slots b ! k = ys ! k" "k < length (slots a)" "k < length (slots b)"
    using Suc.prems k by (simp_all add: nth_append)
  have ok: "xs ! k \<noteq> borrowed" "ys ! k \<noteq> borrowed" using Suc.prems(10,11) k by (metis nth_mem)+
  have "slots ?a = take (Suc k) ys @ drop (Suc k) xs" "slots ?b = take (Suc k) xs @ drop (Suc k) ys"
    using Suc.prems(6-8) k by (simp_all add: list_update_append take_Suc_conv_app_nth Cons_nth_drop_Suc [symmetric])
  moreover have "?h p = Some ?a" "?h q = Some ?b" using Suc.prems(3) by simp_all
  ultimately have rest: "swap_lists [Suc k..<length xs] p q ?h = Some (?h(p \<mapsto> ?a\<lparr>slots := ys\<rparr>, q \<mapsto> ?b\<lparr>slots := xs\<rparr>))"
    using Suc.hyps(2) Suc.prems k by (intro Suc.hyps(1)) simp_all
  have "swap_lists [k..<length xs] p q h = swap_lists [Suc k..<length xs] p q ?h"
    using k(1) Suc.prems(1-5) nth ok by (simp add: upt_conv_Cons get_atomic_run set_atomic_run)
  also have "\<dots> = Some (h(p \<mapsto> a\<lparr>slots := ys\<rparr>, q \<mapsto> b\<lparr>slots := xs\<rparr>))"
    using rest Suc.prems(3) by (simp add: fun_upd_twist [of p q])
  finally show ?case .
qed

lemma swap_lists_correct:
  assumes "h p = Some a" "h q = Some b" "p \<noteq> q" "\<not> lock_flag a" "\<not> lock_flag b" "length (slots a) = length (slots b)"
    and "borrowed \<notin> set (slots a)" "borrowed \<notin> set (slots b)"
  shows "swap_lists [0..<length (slots a)] p q h = Some (h(p \<mapsto> a\<lparr>slots := slots b\<rparr>, q \<mapsto> b\<lparr>slots := slots a\<rparr>))"
  using assms by (intro swap_lists_from) simp_all

section \<open>\<open>create\<close>\<close>

text \<open>A complete binary tree; \<open>c\<close> counts the objects.\<close>

function create :: "int \<Rightarrow> u64 \<Rightarrow> driver \<Rightarrow> (addr \<times> u64 \<times> driver) option" where
  "create n c d =
     (if 20 < n then
        do { (obj, d) \<leftarrow> main_malloc object_type1 2 d;
             Some (obj, c + 1, d\<lparr>created_objects := set_insert obj (created_objects d)\<rparr>) }
      else
        do { (parent', d) \<leftarrow> main_malloc object_type1 2 d;
             (child1, c, d) \<leftarrow> create (n + 1) (c + 1) d;
             (child2, c, d) \<leftarrow> create (n + 1) c d;
             let created = set_insert child2 (set_insert child1 (created_objects d));
             h \<leftarrow> set_move_object_field_uncheck (driver_heap d) parent' 0 child1;
             h \<leftarrow> set_move_object_field_uncheck h parent' 1 child2;
             Some (parent', c, with_heap h (d\<lparr>created_objects := created\<rparr>)) })"
  by pat_completeness auto
termination
  by (relation "measure (\<lambda>(n, c, d). nat (21 - n))") auto

declare create.simps [simp del]

lemma create_counts:
  "create n c d = Some (r, c', d') \<Longrightarrow> c' = c + (2 ^ (nat (21 - n) + 1) - 1)"
proof (induction n c d arbitrary: r c' d' rule: create.induct)
  case (1 n c d)
  show ?case
  proof (cases "20 < n")
    case True
    then show ?thesis using "1.prems" by (auto simp: create.simps [of n] bind_Some_iff)
  next
    case False
    then obtain p d1 r1 c1 d2 r2 d3 where r: "main_malloc object_type1 2 d = Some (p, d1)"
      "create (n + 1) (c + 1) d1 = Some (r1, c1, d2)" "create (n + 1) c1 d2 = Some (r2, c', d3)"
      using "1.prems" by (auto simp: create.simps [of n] bind_Some_iff)
    have "nat (21 - n) = Suc (nat (20 - n))" using False by simp
    then show ?thesis
      using "1.IH"(1) [OF False r(1) refl r(2)] "1.IH"(2) [OF False r(1) refl r(2) refl refl r(3)] by (simp add: algebra_simps)
  qed
qed

section \<open>Other helpers\<close>

fun test :: "u64 list \<Rightarrow> u64 \<Rightarrow> u64" where
  "test [] address = 0"
| "test (it # its) address = (if it > address then address * 200 div it else test its address)"

text \<open>\<open>random k\<close> is the \<open>k\<close>-th call of the random number generator.\<close>

definition create_random_map :: "(nat \<Rightarrow> u64) \<Rightarrow> u64 list" where
  "create_random_map random = map random [0..<10]"

end
