(* ===== verification/Support.thy ===== *)
theory Support
  imports Interpreter
begin

text \<open>
  Small parts beside the machine: the timer of \<^verbatim>\<open>src/util/Benchmark.cpp\<close>, the remaining stack
  size of \<^verbatim>\<open>src/vm/stack/stack_win32.cpp\<close>, the stack guard at the top of \<^verbatim>\<open>src/CatLa.cpp\<close>,
  and the classes of an earlier module format. Clock readings and addresses of local variables
  are arguments.
\<close>

section \<open>Timing\<close>

text \<open>
  Points in time are counts of the clock's ticks, \<open>tick\<close> of them in a millisecond. The
  conversion to milliseconds rounds towards zero.
\<close>

record Timing =
  start_point :: int
  sum_time :: u64

definition Timing_new :: "int \<Rightarrow> Timing" where
  "Timing_new epoch = \<lparr>start_point = epoch, sum_time = 0\<rparr>"

definition Timing_start :: "int \<Rightarrow> Timing \<Rightarrow> Timing" where
  "Timing_start now t = t\<lparr>start_point := now\<rparr>"

definition milliseconds :: "int \<Rightarrow> int \<Rightarrow> int" where
  "milliseconds tick d = sgn d * (\<bar>d\<bar> div tick)"

definition Timing_end :: "int \<Rightarrow> int \<Rightarrow> Timing \<Rightarrow> Timing" where
  "Timing_end tick now t = t\<lparr>sum_time := sum_time t + of_int (milliseconds tick (now - start_point t))\<rparr>"

definition get_sum_time :: "Timing \<Rightarrow> int" where
  "get_sum_time t = sint (sum_time t)"

text \<open>Measuring intervals one after the other: each loses less than a millisecond.\<close>

definition measure_all :: "int \<Rightarrow> (int \<times> int) list \<Rightarrow> Timing \<Rightarrow> Timing" where
  "measure_all tick ivs t = fold (\<lambda>(s, e) t. Timing_end tick e (Timing_start s t)) ivs t"

lemma measure_all_sum:
  "sum_time (measure_all tick ivs t) = sum_time t + of_int (\<Sum>(s, e) \<leftarrow> ivs. milliseconds tick (e - s))"
  unfolding measure_all_def by (induction ivs arbitrary: t) (auto simp: Timing_end_def Timing_start_def)

lemma milliseconds_bounds:
  assumes "0 < tick" "0 \<le> d"
  shows "tick * milliseconds tick d \<le> d" "d < tick * milliseconds tick d + tick" "0 \<le> milliseconds tick d"
proof -
  have m: "milliseconds tick d = d div tick" using assms by (cases "d = 0") (simp_all add: milliseconds_def)
  have r: "d mod tick < tick" "0 \<le> d mod tick" "tick * (d div tick) + d mod tick = d" using assms(1) by simp_all
  show "tick * milliseconds tick d \<le> d" "d < tick * milliseconds tick d + tick" unfolding m using r by linarith+
  show "0 \<le> milliseconds tick d" using assms by (simp add: m pos_imp_zdiv_nonneg_iff)
qed

lemma total_bounds:
  assumes "0 < tick" "\<forall>(s, e) \<in> set ivs. s \<le> e"
  shows "tick * (\<Sum>(s, e) \<leftarrow> ivs. milliseconds tick (e - s)) \<le> (\<Sum>(s, e) \<leftarrow> ivs. e - s) \<and>
    (\<Sum>(s, e) \<leftarrow> ivs. e - s) \<le> tick * (\<Sum>(s, e) \<leftarrow> ivs. milliseconds tick (e - s)) + tick * int (length ivs) \<and>
    0 \<le> (\<Sum>(s, e) \<leftarrow> ivs. milliseconds tick (e - s))"
  using assms(2)
proof (induction ivs)
  case (Cons iv ivs)
  obtain s e where iv: "iv = (s, e)" by fastforce
  then show ?case using Cons milliseconds_bounds [OF assms(1), of "e - s"] by (simp add: algebra_simps)
qed simp

lemma measured_time:
  assumes "0 < tick" "\<forall>(s, e) \<in> set ivs. s \<le> e" "(\<Sum>(s, e) \<leftarrow> ivs. e - s) < 2 ^ 63"
  shows "tick * get_sum_time (measure_all tick ivs (Timing_new epoch)) \<le> (\<Sum>(s, e) \<leftarrow> ivs. e - s) \<and>
    (\<Sum>(s, e) \<leftarrow> ivs. e - s) \<le> tick * get_sum_time (measure_all tick ivs (Timing_new epoch)) + tick * int (length ivs)"
proof -
  let ?n = "\<Sum>(s, e) \<leftarrow> ivs. milliseconds tick (e - s)"
  note b = total_bounds [OF assms(1,2)]
  have "?n \<le> tick * ?n" using b assms(1) mult_right_mono [of 1 tick ?n] by simp
  then have "?n < 2 ^ 63" using b assms(3) by linarith
  then have "sint (of_int ?n :: u64) = ?n" using b by (simp add: signed_of_int signed_take_bit_int_eq_self)
  then show ?thesis using b by (simp add: get_sum_time_def measure_all_sum Timing_new_def)
qed

section \<open>The stack\<close>

text \<open>\<open>here\<close> is the address of the function's local variable.\<close>

definition get_available_stack_size :: "VMThread \<Rightarrow> u64 \<Rightarrow> u64" where
  "get_available_stack_size thread here = stack_size thread - (top_of_stack_address thread - here)"

lemma available_stack_size:
  assumes "here \<le> top_of_stack_address t" "top_of_stack_address t - here \<le> stack_size t"
  shows "unat (get_available_stack_size t here) = unat (stack_size t) - (unat (top_of_stack_address t) - unat here)"
  using assms by (simp add: get_available_stack_size_def unat_sub)

text \<open>
  The guard: \<^verbatim>\<open>func\<close> calls itself until \<^verbatim>\<open>detect_stack_overflow\<close> throws, and \<^verbatim>\<open>start\<close> prints
  how often. Each call takes \<open>frame\<close> bytes of the stack; the result is the final \<^verbatim>\<open>i\<close>.
\<close>

definition detect_stack_overflow :: "u64 \<Rightarrow> u64 \<Rightarrow> u64 \<Rightarrow> bool" where
  "detect_stack_overflow reserve base here \<longleftrightarrow> reserve - (base - here) \<le> 2000"

partial_function (option) func :: "u64 \<Rightarrow> u64 \<Rightarrow> u64 \<Rightarrow> u64 \<Rightarrow> u64 \<Rightarrow> u64 option" where
  "func frame reserve base here i =
     (if detect_stack_overflow reserve base here then Some i
      else func frame reserve base (here - frame) (i + 1))"

text \<open>With the real stack size the guard ends the recursion while 2000 bytes less a frame are left.\<close>

lemma func_detected:
  assumes "unat base - unat here + k * unat frame + 2000 \<ge> unat reserve" "unat here \<le> unat base" "unat reserve \<le> unat base"
    and "0 < unat frame" "unat frame \<le> 2000" "unat base - unat here \<le> unat reserve"
  shows "\<exists>j \<le> k. func frame reserve base here i = Some (i + of_nat j) \<and>
    (0 < j \<longrightarrow> unat base - unat here + (j - 1) * unat frame + 2000 < unat reserve)"
  using assms
proof (induction k arbitrary: here i)
  case 0
  have "unat (reserve - (base - here)) \<le> 2000"
    using 0 by (simp add: unat_sub word_le_nat_alt)
  then have "detect_stack_overflow reserve base here" by (simp add: detect_stack_overflow_def word_le_nat_alt)
  then show ?case by (intro exI [of _ 0]) (simp add: func.simps)
next
  case (Suc k)
  have left: "unat (reserve - (base - here)) = unat reserve - (unat base - unat here)" using Suc.prems by (simp add: unat_sub word_le_nat_alt)
  show ?case
  proof (cases "detect_stack_overflow reserve base here")
    case True
    then show ?thesis by (intro exI [of _ 0]) (simp add: func.simps)
  next
    case False
    then have low: "unat base - unat here + 2000 < unat reserve" using left by (simp add: detect_stack_overflow_def word_le_nat_alt)
    then have h: "unat (here - frame) = unat here - unat frame" "unat frame \<le> unat here"
      using Suc.prems by (simp_all add: unat_sub word_le_nat_alt)
    have "unat base - unat (here - frame) + k * unat frame + 2000 \<ge> unat reserve" "unat (here - frame) \<le> unat base"
      "unat base - unat (here - frame) \<le> unat reserve"
      using Suc.prems h low by simp_all
    from Suc.IH [OF this(1,2) Suc.prems(3-5) this(3), of "i + 1"] obtain j where
      j: "j \<le> k" "func frame reserve base (here - frame) (i + 1) = Some (i + 1 + of_nat j)"
        "0 < j \<longrightarrow> unat base - unat (here - frame) + (j - 1) * unat frame + 2000 < unat reserve" by blast
    have "func frame reserve base here i = Some (i + of_nat (Suc j))" using False j(2) by (simp add: func.simps [of _ _ _ here] add.assoc)
    moreover have "unat base - unat here + j * unat frame + 2000 < unat reserve"
      using j(3) low h Suc.prems(2) by (cases j) simp_all
    ultimately show ?thesis using j(1) by (intro exI [of _ "Suc j"]) simp
  qed
qed

text \<open>
  Nothing ever assigns \<^verbatim>\<open>stack_size\<close>; with its initial value zero the guard does not throw at any
  depth a stack can have.
\<close>

lemma guard_without_size:
  assumes "0 < unat (base - here)" "unat (base - here) < 2 ^ 64 - 2000"
  shows "\<not> detect_stack_overflow 0 base here"
proof
  assume "detect_stack_overflow 0 base here"
  then have "unat (- (base - here)) \<le> 2000" by (simp add: detect_stack_overflow_def word_le_nat_alt)
  then have "unat ((base - here) + - (base - here)) = unat (base - here) + unat (- (base - here))"
    using assms(2) by (intro unat_add_no_wrap) simp
  then show False using assms(1) by simp
qed

section \<open>Earlier module classes\<close>

record CodeBlock =
  byte_code :: "u8 list"
  block_const_values :: "u64 list"
  reg_size :: u64

definition CodeBlock_new :: "u8 list \<Rightarrow> u64 list \<Rightarrow> u64 \<Rightarrow> CodeBlock" where
  "CodeBlock_new code consts regs = \<lparr>byte_code = code, block_const_values = consts, reg_size = regs\<rparr>"

record CatLaFunction =
  arg_length :: u64
  has_return :: bool
  code_block :: CodeBlock

definition CatLaFunction_new :: "u64 \<Rightarrow> bool \<Rightarrow> CodeBlock \<Rightarrow> CatLaFunction" where
  "CatLaFunction_new args ret block = \<lparr>arg_length = args, has_return = ret, code_block = block\<rparr>"

record CatLaModule =
  fields_length :: u64
  catla_functions :: "CatLaFunction list"

section \<open>Strings\<close>

definition split :: "string \<Rightarrow> string \<Rightarrow> string list" where
  "split original separator_str = []"

end
