(* ===== verification/Spec2Isabelle.thy ===== *)
theory Spec2Isabelle
  imports BitSet Concurrent Field_Locking Loaded_Modules Driver_Correct Sample_Program Object_Lists Support
begin

text \<open>
  CatLa: a virtual machine in C++ with a textual module format, a register interpreter, a
  segregated-fit allocator, reference counting and a cycle collector. This development models
  the sources under \<^verbatim>\<open>src/\<close> as HOL functions and proves what makes each part correct.

  \<^bold>\<open>Parts of the program and where they are modelled\<close>

  \<^item> Shared vocabulary: \<open>Prelude\<close> (64-bit words, object addresses, the null pointer, option-valued
    reads of arrays, the locale \<open>invariant_system\<close> of a step relation with an invariant).
  \<^item> \<^verbatim>\<open>vm/modules/util/BitSet.h\<close>: \<open>BitSet\<close>, with its contract as the locale \<open>flag_store\<close>.
  \<^item> \<^verbatim>\<open>heap/HeapAllocator.h\<close> and \<^verbatim>\<open>.cpp\<close>: object headers, the object lock and raw fields in
    \<open>Heap_Object\<close>; chunks, size classes, \<^verbatim>\<open>malloc\<close> and \<^verbatim>\<open>create_new_chunk\<close> in
    \<open>Heap_Allocator\<close>, correct in \<open>Allocator_Correct\<close>.
  \<^item> \<^verbatim>\<open>gc/GC.h\<close>: taking and dropping references, and the retirement of objects the collector
    watches, in \<open>Ref_Count\<close>, correct in \<open>Ref_Count_Correct\<close>.
  \<^item> \<^verbatim>\<open>gc/GC.cpp\<close>: \<^verbatim>\<open>CycleCollector::gc_collect\<close> in \<open>Cycle_Collector\<close>; what its marking loops
    compute in \<open>Trace_Phases\<close>, what a collection does to the heap in \<open>Cycle_Collector_Correct\<close>.
  \<^item> \<^verbatim>\<open>CatLa.cpp\<close>, the field accessors: \<open>Field_Access\<close>. \<open>Mutator\<close> puts accessors, allocator and
    collector together: every sequence of them from a fresh machine keeps the heap consistent.
    \<open>Count_Bounds\<close> bounds the counts by the size of the memory, \<open>Reclaim\<close> repeats collections.
  \<^item> \<^verbatim>\<open>CatLa.cpp\<close>, the stress program (\<^verbatim>\<open>main\<close>, \<^verbatim>\<open>func1\<close>, \<^verbatim>\<open>func2\<close>, \<^verbatim>\<open>create_object\<close>): \<open>Driver\<close>;
    the effect of each of its calls in \<open>Driver_Heap\<close>, of the steps of its threads in
    \<open>Driver_Steps\<close>, of a whole run in \<open>Driver_Correct\<close>. The rest of that file: the list test, the
    object tree and other helpers in \<open>Object_Lists\<close>, the sample module in \<open>Sample_Text\<close> (its
    text, parsed) and \<open>Sample_Program\<close> (loaded and run), the stack guard in \<open>Support\<close>.
  \<^item> \<^verbatim>\<open>util/Benchmark.*\<close>, \<^verbatim>\<open>util/StringUtil.h\<close>, \<^verbatim>\<open>vm/stack/*\<close> and the classes of the earlier module
    format: \<open>Support\<close>.
  \<^item> \<^verbatim>\<open>util/Concurrent.h\<close>: both locks as step relations of any number of threads in \<open>Concurrent\<close>.
  \<^item> \<^verbatim>\<open>vm/PrimitiveType.*\<close>: \<open>Primitive_Type\<close>. \<^verbatim>\<open>vm/modules/*\<close> and \<^verbatim>\<open>vm/parser/Structs.h\<close>: the
    records and constructors in \<open>Modules\<close>.
  \<^item> \<^verbatim>\<open>vm/modules/orders/*\<close> and \<^verbatim>\<open>CatVM::run_function\<close>: \<open>Interpreter\<close>, correct in
    \<open>Interpreter_Correct\<close>.
  \<^item> \<^verbatim>\<open>vm/parser/VMParser.cpp\<close>: lines, numbers, the regular expressions and index maps in
    \<open>Parser_Text\<close>, every function of the parser in \<open>Parser\<close>, correct in \<open>Parser_Correct\<close>.
  \<^item> \<^verbatim>\<open>vm/CatVM.cpp\<close>: the module tables, threads and \<^verbatim>\<open>load_module\<close> in \<open>Loader\<close>, correct in
    \<open>Loader_Correct\<close>; \<^verbatim>\<open>run_function\<close> is in \<open>Interpreter\<close>, the constructor in \<open>Mutator\<close>.
  \<^item> The loops of the orders that read and write a field, access by access and for any number of
    threads: \<open>Field_Locking\<close>.
  \<^item> Parser, loader and interpreter together: \<open>Program_Correct\<close> (functions that run once they are
    linked), \<open>Loaded_Modules\<close> (what every phase of the loader leaves behind) and this theory.

  \<^bold>\<open>How state and operations correspond to the code\<close>

  A class or struct is a record with the members' names; an object on the program's heap is a
  \<open>HeapObject\<close> at its address in a \<open>heap\<close>, with its fields as the list \<open>slots\<close>; \<open>memory\<close> adds the
  chunks, the break of the system's allocator and the chunk list. A pointer to a type is
  \<open>PrimT\<close> or \<open>DefT\<close> with module and position, a pointer to a label block its position in the
  function. Operations that may touch an invalid address, or may wait for ever, return an
  option, and None stands for both; that they return is proved, not assumed. The parser and the
  loader return a sum: \<open>ParseException\<close>, the exceptions of \<^verbatim>\<open>stoull\<close>, or \<open>undefined_behaviour\<close>.
  Loops whose end is a theorem are \<open>partial_function (option)\<close> or have a termination proof; no
  fuel is used. The threads of the stress program are lists of the calls still to be made, and a
  run is any interleaving of these calls with whole collections (\<open>driver_run\<close>).

  Parameters stand for what the code leaves open: \<open>iter\<close> and \<open>pick\<close> for the iteration order of
  the \<^verbatim>\<open>unordered\<close> containers, \<open>cyc\<close> for the cyclic flag of a type, \<open>junk\<close> for the bytes above a
  local \<^verbatim>\<open>int\<close>, \<open>uninit\<close> for the contents of a new register array, \<open>stod\<close> for the library's
  conversion of floating-point text. The theorems hold for all of them, or for every \<open>iter\<close> that
  permutes its argument. Sizes: requests of more than 59 fields do not fit the largest block,
  and \<open>room\<close> says that one more chunk fits below 2^64.

  \<^bold>\<open>What the groups of lemmas show\<close>

  \<^item> Heap: \<^verbatim>\<open>malloc\<close> succeeds and initialises a cell nobody uses; live objects never
    overlap; dropping a
    reference keeps all counts exact; a collection keeps what is reachable and reclaims cycles;
    in every state a program can reach, what it holds is live; no count overflows while the
    program holds fewer than \<open>2^62\<close> references to an object; collecting often enough leaves nothing
    unreachable.
  \<^item> Stress program: no interleaving of its threads gets stuck or touches an invalid address, the
    fields it reads are never null, and in the end everything it created can be reclaimed.
  \<^item> Sample program: its text is parsed, loaded and linked, and its function returns 90; the list
    test exchanges its two lists.
  \<^item> Locks: every interleaving refines readers-writer exclusion.
  \<^item> Text: printing and parsing a module gives the module back; the sections accept exactly the
    index maps without gaps.
  \<^item> Loader: imports always resolve; parent cycles are found exactly; a subclass keeps the
    positions of its parent's fields; every module that is loaded is well formed.
  \<^item> Interpreter: \<^verbatim>\<open>run_function\<close> against a big-step semantics, termination of functions with
    forward jumps, addition at each width, the field orders.
  \<^item> Several theorems record where the code does something else than it means to: the skipped
    first order of a jump target, the lock kept on a borrowed field, type names that can only be
    numbers, blocks that are never reopened, sizes that wrap around.

  \<^bold>\<open>Not modelled\<close>

  Of \<^verbatim>\<open>main\<close>: console output, the calls of the timers and the embedded Python call. The destructors
  of \<^verbatim>\<open>CatLaFunction\<close> and \<^verbatim>\<open>CodeBlock\<close> (they only free memory, nothing constructs the classes),
  the empty header \<^verbatim>\<open>Decoder.h\<close>, diagnostic output, and failure of the system's
  allocator. Threads interleave call by call: an accessor and a collection
  of another thread do not overlap in time, and the weak memory order of the atomics is not
  modelled; the locks are stepped at the granularity of their atomic accesses.
\<close>

section \<open>Text, loader and interpreter together\<close>

text \<open>
  C5. From text to result: a module of integer functions written as text, whose jumps go to
  later blocks and whose indices are in range, is parsed, loaded and linked, for every order in
  which the loader visits its sets; afterwards every call of one of its functions with the
  declared number of arguments returns, from any contents of the uninitialised registers, and
  leaves the memory alone.
\<close>

theorem loaded_program_runs:
  assumes "printable_module name st" "set (p_imports st) \<subseteq> {name}" "p_type_defines st = []" "p_using_types st = []"
    and "list_all (\<lambda>f. source_function_ok (p_const_values st) f \<and> primitive_signature f) (p_functions st)"
    and "loaded_module_map vm name = None" "map_of (pre_loaded_module_map vm) name = Some (print_module name st)"
    and "distinct (iter [name])" "set (iter [name]) = {name}"
  shows "\<exists>md. load_module stod pick iter name vm = Inr (Some name, vm\<lparr>loaded_module_map := (loaded_module_map vm)(name \<mapsto> md)\<rparr>) \<and>
    length (mod_functions md) = length (p_functions st) \<and>
    (\<forall>k < length (p_functions st). \<forall>args cyc junk uninit t m.
      length args = length (argument_type_infos (p_functions st ! k)) \<and> \<not> return_function t \<longrightarrow>
      (\<exists>v t'. run_function cyc junk uninit t md (mod_functions md ! k) args m = Some (v, t', m)))"
proof -
  from load_module_single [of name st vm iter, OF assms] obtain md where
    md: "load_module stod pick iter name vm = Inr (Some name, vm\<lparr>loaded_module_map := (loaded_module_map vm)(name \<mapsto> md)\<rparr>)"
      "list_all2 (\<lambda>f h. function_ok md (length (argument_type_infos f)) h) (p_functions st) (mod_functions md)" by blast
  have "\<exists>v t'. run_function cyc junk uninit t md (mod_functions md ! k) args m = Some (v, t', m)"
    if "k < length (p_functions st)" "length args = length (argument_type_infos (p_functions st ! k))" "\<not> return_function t"
    for k args cyc junk uninit t m
    using run_function_total_spec [of md args "mod_functions md ! k" t cyc junk uninit m] that md(2)
    by (auto simp: list_all2_conv_all_nth)
  then show ?thesis using md list_all2_lengthD [OF md(2)] by (intro exI [of _ md]) simp
qed

text \<open>
  A program in the style of the driver's sample: three arguments are added up, by way of a jump.
  The first order of the target block is skipped.
\<close>

definition sum_function :: Function where
  "sum_function = Function_new ''nyan'' 0 5
     [\<lparr>label_name = ''entry'', orders = [GetArgument 0 0, GetArgument 1 1, AddInteger i64 2 0 1, JumpToLabel ''last'' None]\<rparr>,
      \<lparr>label_name = ''last'', orders = [ReturnFunction 2, GetArgument 3 2, AddInteger i64 4 2 3, ReturnFunction 4]\<rparr>]
     \<lparr>arg_primitive_type = Some i64, arg_type_index = 0\<rparr> 
     [\<lparr>arg_primitive_type = Some i64, arg_type_index = 0\<rparr>, \<lparr>arg_primitive_type = Some i64, arg_type_index = 0\<rparr>, \<lparr>arg_primitive_type = Some i64, arg_type_index = 0\<rparr>]"

definition sum_source :: parser_state where
  "sum_source = \<lparr>p_const_values = [\<lparr>const_byte_size = 4, const_type = CHR ''s'', value_reference = bytes_of ''nyan''\<rparr>],
     p_imports = [''test''], p_type_defines = [], p_using_types = [], p_functions = [sum_function]\<rparr>"

definition sum_vm :: CatVM where
  "sum_vm = demo_vm\<lparr>pre_loaded_module_map := [(''test'', print_module ''test'' sum_source)]\<rparr>"

lemma sum_function_ok: "source_function_ok cvs sum_function" "primitive_signature sum_function"
  by (simp_all add: source_function_ok_def primitive_signature_def sum_function_def Function_new_def All_less_Suc Ex_less_Suc)

lemma sum_source_printable: "printable_module ''test'' sum_source"
proof -
  let ?cvs = "p_const_values sum_source"
  have cvs: "list_all printable_const ?cvs" "length ?cvs = 1"
    by (simp_all add: sum_source_def printable_const_def const_text_def chars_bytes)
  have "find_const ?cvs ''nyan'' \<noteq> None"
    by (simp add: sum_source_def find_const_def get_const_value_as_string_def nth_or_def chars_bytes take_bytes upt_conv_Cons)
  moreover have "list_all is_word ''entry''" "list_all is_word ''last''" by (simp_all add: is_word_def is_digit_def)
  ultimately show ?thesis unfolding printable_module_def using cvs
    by (simp add: sum_source_def printable_import_def printable_function_def printable_block_def printable_argument_def
        sum_function_def Function_new_def)
qed

lemma sum_vm_ready:
  "p_functions sum_source = [sum_function]" "p_imports sum_source = [''test'']" "p_type_defines sum_source = []"
  "p_using_types sum_source = []" "loaded_module_map sum_vm ''test'' = None"
  "map_of (pre_loaded_module_map sum_vm) ''test'' = Some (print_module ''test'' sum_source)"
  by (simp_all add: sum_source_def sum_vm_def demo_vm_def demo_modules_def)

theorem loaded_program_runs_witness:
  "\<exists>vm' md v t'. load_module (\<lambda>_. Inl invalid_argument) (\<lambda>_. 0) id ''test'' sum_vm = Inr (Some ''test'', vm') \<and>
     loaded_module_map vm' ''test'' = Some md \<and>
     run_function (\<lambda>_. False) 7 (\<lambda>_. 99) (vm_thread demo_state) md (mod_functions md ! 0) [20, 30, 40] (vm_memory vm') =
       Some (v, t', vm_memory vm')"
proof -
  note sum_vm_ready
  moreover have "length (argument_type_infos sum_function) = 3" by (simp add: sum_function_def Function_new_def)
  moreover have "\<not> return_function (vm_thread demo_state)" by (simp add: demo_state_def)
  ultimately show ?thesis
    using loaded_program_runs [OF sum_source_printable, of sum_vm id "\<lambda>_. Inl invalid_argument" "\<lambda>_. 0"] sum_function_ok
    by fastforce
qed

text \<open>
  C6. Type safety of loading. If \<^verbatim>\<open>load_module\<close> returns a module, it is the one asked for; modules
  that were loaded before are as they were; and every module it has added, in whatever order it
  visited them, is well formed: its imports are loaded, each of its classes has an acyclic
  ancestry, the fields of its ancestors before its own under distinct names, fields of known
  types and exact reference flags, and all its functions are linked. A linked function has the
  return type and the argument types its header designates, null where the header names a class
  that could not be resolved; a jump leads to a block of the function that carries the label, and
  is null exactly if none does; an allocation has the type in use that it names, which may be null
  too.
\<close>

theorem load_module_wellformed:
  assumes "load_module stod pick iter name vm = Inr (Some n, vm')"
    and "\<And>xs. distinct xs \<Longrightarrow> distinct (iter xs) \<and> set (iter xs) = set xs"
  shows "n = name \<and> loaded_module_map vm name = None \<and> name \<in> dom (loaded_module_map vm') \<and>
    (\<forall>m \<in> dom (loaded_module_map vm). loaded_module_map vm' m = loaded_module_map vm m) \<and>
    (\<forall>m md. loaded_module_map vm m = None \<and> loaded_module_map vm' m = Some md \<longrightarrow> module_ok (loaded_module_map vm') m md)"
  using assms by (rule load_module_ok)

theorem load_module_wellformed_witness:
  "\<exists>vm md. load_module (\<lambda>_. Inl invalid_argument) (\<lambda>_. 0) id ''test'' sum_vm = Inr (Some ''test'', vm) \<and>
     loaded_module_map vm ''test'' = Some md \<and> module_ok (loaded_module_map vm) ''test'' md"
proof -
  obtain vm where vm: "load_module (\<lambda>_. Inl invalid_argument) (\<lambda>_. 0) id ''test'' sum_vm = Inr (Some ''test'', vm)"
    using load_module_single [OF sum_source_printable, of sum_vm id "\<lambda>_. Inl invalid_argument" "\<lambda>_. 0"] sum_vm_ready sum_function_ok
    by auto
  from load_module_wellformed [OF this] sum_vm_ready(5) show ?thesis using vm by (auto simp: dom_def)
qed

text \<open>
  C13. Linked code is well formed: linking keeps the blocks and their labels, every jump leads to
  a block of the function that carries the label it names, or is null, which is the case exactly
  if no block carries it; and every allocation has what the table of types in use holds at its
  index, a type or null.
\<close>

theorem linked_code_wellformed:
  assumes "link_function ms md (Function_new name vs rs blocks ret infos) = Inr f"
  shows "map label_name (label_blocks f) = map label_name blocks \<and>
    list_all (\<lambda>block. list_all (linked_order md (label_blocks f)) (orders block)) (label_blocks f)"
proof -
  let ?f = "Function_new name vs rs blocks ret infos"
  have "label_block_map ?f = index_by_name (map label_name (label_blocks ?f)) 0 Map.empty" "label_blocks ?f = blocks"
    by (simp_all add: Function_new_def)
  then show ?thesis using link_function_linked [OF _ assms] link_function_blocks(1) [OF assms] by metis
qed

theorem linked_code_wellformed_witness:
  "\<exists>f. link_function Map.empty (Module_new ''test'' [] [] [] [] []) sum_function = Inr f \<and>
     map label_name (label_blocks f) = [''entry'', ''last''] \<and>
     linked_order (Module_new ''test'' [] [] [] [] []) (label_blocks f) (orders (label_blocks f ! 0) ! 3)"
proof -
  let ?md = "Module_new ''test'' [] [] [] [] []"
  obtain f where f: "link_function Map.empty ?md sum_function = Inr f"
    using source_function_links [OF sum_function_ok(1), of ?md] by (auto simp: Module_new_def)
  from linked_code_wellformed [OF f [unfolded sum_function_def]] have
    w: "map label_name (label_blocks f) = [''entry'', ''last'']"
      "list_all (\<lambda>block. list_all (linked_order ?md (label_blocks f)) (orders block)) (label_blocks f)" by auto
  have "length (label_blocks sum_function) = 2" by (simp add: sum_function_def Function_new_def)
  moreover have "length (orders (label_blocks sum_function ! 0)) = 4" by (simp add: sum_function_def Function_new_def)
  ultimately have "length (label_blocks f) = 2" "length (orders (label_blocks f ! 0)) = 4"
    using link_function_blocks(2) [OF f, of 0] link_function_blocks(3) [OF f] by (auto dest: list_all2_lengthD)
  then have "linked_order ?md (label_blocks f) (orders (label_blocks f ! 0) ! 3)" using w(2) by (simp add: list_all_length)
  with f w(1) show ?thesis by (intro exI [of _ f] conjI)
qed

text \<open>
  C35. A class can be used only if its name is a number: the types section is not translated
  through the constants, so every type the loader finds for it is a class whose name consists
  of digits. The sample program of the driver, which refers to \<^verbatim>\<open>TestClass\<close> by the index of its
  name, gets null pointers.
\<close>

theorem used_classes_have_numeric_names:
  assumes "parse stod name code = Inr (Some md)" "info \<in> set (using_type_infos md)"
    and "imported_type ms md' (import_index info) (info_type_name info) = Inr (Some t)"
    and "\<forall>n imported. ms n = Some imported \<longrightarrow> mod_name imported = n \<and>
      type_define_map imported = index_by_name (map type_name (type_defines imported)) 0 Map.empty"
  shows "\<exists>type. type_at ms t = Some type \<and> list_all is_digit (type_name type)"
  using imported_type_named [OF assms(3,4)] parse_types_digits [OF assms(1,2)] by auto

theorem used_classes_have_numeric_names_witness:
  "\<exists>ms type. type_at ms (DefT ''m'' 0) = Some type \<and> list_all is_digit (type_name type)"
proof -
  let ?md = "Module_new ''m'' [] [] [Type_new None ''0'' 0 [] \<lparr>import_index = 0, info_type_name = ''''\<rparr>] [] []"
  let ?ms = "[''m'' \<mapsto> ?md]"
  have "imported_type ?ms (?md\<lparr>import_modules := [''m'']\<rparr>) 0 ''0'' = Inr (Some (DefT ''m'' 0))"
    by (simp add: imported_type_def nth_or_def defined_def lookup_type_def Module_new_def Type_new_def)
  from used_classes_have_numeric_names [OF parse_module_spec [OF demo_source_printable], of "\<lparr>import_index = 0, info_type_name = ''0''\<rparr>"
      ?ms "?md\<lparr>import_modules := [''m'']\<rparr>" "DefT ''m'' 0"] this
  show ?thesis by (intro exI [of _ ?ms]) (simp add: Module_new_def demo_source_def Type_new_def)
qed

end
